(* ===== verification/Prelude.thy ===== *)
theory Prelude
  imports Main "HOL-Library.Word"
begin

text \<open>
  The prelude of the development: Go's 64-bit signed arithmetic, the error values the
  program passes around, half-open ranges of offsets, and the generic facts on lists, maps
  and ranges the component theories share.

  An \<open>int64\<close> is modelled as an \<open>int\<close> that every addition and subtraction of the code
  brings back into range (\<open>i64\<close>, the two's-complement wrap-around); comparisons and
  \<open>min\<close> need no wrap.
\<close>

section \<open>Collections of facts\<close>

named_theorems range_simps \<open>half-open ranges and their unions\<close>
named_theorems frame_simps \<open>fields an operation does not write\<close>

section \<open>Go's int64\<close>

definition i64 :: "int \<Rightarrow> int" where
  "i64 x = signed_take_bit 63 x"

definition add64 :: "int \<Rightarrow> int \<Rightarrow> int" where
  "add64 a b = i64 (a + b)"

definition sub64 :: "int \<Rightarrow> int \<Rightarrow> int" where
  "sub64 a b = i64 (a - b)"

definition max_i64 :: int where
  "max_i64 = 2 ^ 63 - 1"

definition min_i64 :: int where
  "min_i64 = - (2 ^ 63)"

definition in_i64 :: "int \<Rightarrow> bool" where
  "in_i64 x \<longleftrightarrow> min_i64 \<le> x \<and> x \<le> max_i64"

lemmas i64_bounds = in_i64_def min_i64_def max_i64_def

text \<open>The wrap-around is the one of the 64-bit word library.\<close>

lemma i64_word: "i64 x = sint (word_of_int x :: 64 word)"
  by (simp add: i64_def signed_of_int)

lemma i64_id: "in_i64 x \<Longrightarrow> i64 x = x"
  by (simp add: i64_def i64_bounds signed_take_bit_int_eq_self)

lemma i64_range: "in_i64 (i64 x)"
proof -
  have "- (2 ^ 63) \<le> i64 x" and "i64 x < 2 ^ 63"
    unfolding i64_def
    by (rule signed_take_bit_int_greater_eq_minus_exp, rule signed_take_bit_int_less_exp)
  then show ?thesis by (simp add: i64_bounds)
qed

lemma add64_id: "in_i64 (a + b) \<Longrightarrow> add64 a b = a + b"
  by (simp add: add64_def i64_id)

lemma sub64_id: "in_i64 (a - b) \<Longrightarrow> sub64 a b = a - b"
  by (simp add: sub64_def i64_id)

text \<open>Offsets and sizes: not negative and below the largest \<open>int64\<close>.\<close>

lemma add64_nonneg: "0 \<le> a \<Longrightarrow> 0 \<le> b \<Longrightarrow> a + b \<le> max_i64 \<Longrightarrow> add64 a b = a + b"
  by (rule add64_id) (simp add: i64_bounds)

lemma sub64_nonneg: "0 \<le> b \<Longrightarrow> 0 \<le> a \<Longrightarrow> a \<le> max_i64 \<Longrightarrow> b \<le> max_i64 \<Longrightarrow> sub64 a b = a - b"
  by (rule sub64_id) (simp add: i64_bounds)

section \<open>Errors\<close>

text \<open>
  The error values the modelled code distinguishes: the sentinel errors it compares
  against, the context errors, an error of the operating system, one of the upstream, and
  the errors the code makes itself, with their message.
\<close>

datatype go_error =
    EOF
  | UnexpectedEOF
  | Canceled
  | DeadlineExceeded
  | ErrClosed
  | OsError string
  | UpstreamError string
  | Msg string

text \<open>The text of an error, and \<open>fmt.Errorf\<close> with a context and \<open>%w\<close>.\<close>

fun error_text :: "go_error \<Rightarrow> string" where
  "error_text EOF = ''EOF''"
| "error_text UnexpectedEOF = ''unexpected EOF''"
| "error_text Canceled = ''context canceled''"
| "error_text DeadlineExceeded = ''context deadline exceeded''"
| "error_text ErrClosed = ''file already closed''"
| "error_text (OsError s) = s"
| "error_text (UpstreamError s) = s"
| "error_text (Msg s) = s"

definition in_context :: "string \<Rightarrow> go_error \<Rightarrow> go_error" where
  "in_context c e = Msg (c @ '': '' @ error_text e)"

type_synonym byte = "8 word"

section \<open>Half-open ranges of offsets\<close>

lemma atLeastLessThan_join [range_simps]:
  "(a::int) \<le> b \<Longrightarrow> b \<le> c \<Longrightarrow> {a..<b} \<union> {b..<c} = {a..<c}"
  by auto

lemma range_disjointD: "{a..<b} \<inter> S = {} \<Longrightarrow> (x::int) \<in> S \<Longrightarrow> x < a \<or> b \<le> x"
  by (metis atLeastLessThan_iff disjoint_iff not_le)

lemma atLeastLessThan_eqI:
  fixes a b c d :: int
  assumes "a < b" and "{a..<b} = {c..<d}"
  shows "a = c \<and> b = d"
  using assms by (metis atLeastLessThan_eq_iff atLeastLessThan_empty_iff2 not_le)

lemma card_range_int [range_simps]: "int (card {a..<b}) = (if a \<le> b then b - a else (0::int))"
  by simp

section \<open>Lists and maps\<close>

lemma sorted_wrt_snoc:
  "sorted_wrt P (xs @ [x]) \<longleftrightarrow> sorted_wrt P xs \<and> (\<forall>y\<in>set xs. P y x)"
  by (auto simp: sorted_wrt_append)

lemma ran_upd_fresh: "m k = None \<Longrightarrow> ran (m(k \<mapsto> v)) = insert v (ran m)"
  by (rule ran_map_upd)

end
