(* ===== verification/Interfaces.thy ===== *)
theory Interfaces
  imports Prelude
begin

text \<open>
  The interfaces that several components share: machines given by a step relation, with an
  invariant and, where they come to an end, a rank; and codecs, the pairs of an encoder and a
  decoder of which the program has many (decimal numbers, base64, query strings, tokens, the
  payload of a proxied URL). The components interpret them on their own definitions; the
  locales of a single component (\<open>range_set\<close>, \<open>lru_order\<close>, \<open>aead\<close>) are in its theory.
\<close>

section \<open>Machines\<close>

locale safe_machine =
  fixes start :: "'s \<Rightarrow> bool"
    and step :: "'s \<Rightarrow> 's \<Rightarrow> bool"
    and inv :: "'s \<Rightarrow> bool"
  assumes starts: "start s \<Longrightarrow> inv s"
    and keeps: "inv s \<Longrightarrow> step s t \<Longrightarrow> inv t"
begin

lemma runs_keep: "step\<^sup>*\<^sup>* s t \<Longrightarrow> inv s \<Longrightarrow> inv t"
  by (induction rule: rtranclp_induct) (blast intro: keeps)+

lemma reachable_inv: "start s \<Longrightarrow> step\<^sup>*\<^sup>* s t \<Longrightarrow> inv t"
  by (blast intro: runs_keep starts)

lemma long_run_keeps: "(step ^^ n) s t \<Longrightarrow> inv s \<Longrightarrow> inv t"
  by (blast intro: runs_keep relpowp_imp_rtranclp)

end

text \<open>A machine whose steps lower a rank, and which can take one until it is at a final state.\<close>

locale ranked_machine = safe_machine start step inv
  for start :: "'s \<Rightarrow> bool" and step :: "'s \<Rightarrow> 's \<Rightarrow> bool" and inv :: "'s \<Rightarrow> bool" +
  fixes rank :: "'s \<Rightarrow> nat"
    and final :: "'s \<Rightarrow> bool"
  assumes falls: "inv s \<Longrightarrow> step s t \<Longrightarrow> rank t < rank s"
    and progress: "inv s \<Longrightarrow> \<not> final s \<Longrightarrow> \<exists>t. step s t"
begin

lemma run_bounded: "(step ^^ n) s t \<Longrightarrow> inv s \<Longrightarrow> rank t + n \<le> rank s"
proof (induction n arbitrary: t)
  case (Suc n)
  then obtain u where "(step ^^ n) s u" "step u t" by (auto elim: relpowp_Suc_E)
  with Suc.IH [OF this(1) Suc.prems(2)] falls [OF long_run_keeps [OF this(1) Suc.prems(2)] this(2)]
  show ?case by simp
qed simp

lemma reaches_final: "inv s \<Longrightarrow> \<exists>t. step\<^sup>*\<^sup>* s t \<and> final t"
proof (induction s rule: measure_induct_rule [of rank])
  case (less s)
  show ?case
  proof (cases "final s")
    case False
    then obtain u where u: "step s u" using progress less.prems by blast
    from less.IH [OF falls [OF less.prems u] keeps [OF less.prems u]] u show ?thesis
      by (meson converse_rtranclp_into_rtranclp)
  qed blast
qed

lemma stops_final: "start s \<Longrightarrow> step\<^sup>*\<^sup>* s t \<Longrightarrow> \<nexists>u. step t u \<Longrightarrow> final t"
  using progress reachable_inv by blast

lemma no_endless_run:
  assumes "inv (f 0)" and "\<And>i. step (f i) (f (Suc i))"
  shows False
proof -
  have "(step ^^ n) (f 0) (f n)" for n by (induction n) (auto intro: assms(2) relcomppI)
  from run_bounded [OF this assms(1), of "Suc (rank (f 0))"] show False by simp
qed

end

section \<open>Codecs\<close>

locale codec =
  fixes ok :: "'a \<Rightarrow> bool"
    and enc :: "'a \<Rightarrow> 'b"
    and dec :: "'b \<Rightarrow> 'a option"
  assumes dec_enc: "ok x \<Longrightarrow> dec (enc x) = Some x"
begin

lemma enc_inject: "ok x \<Longrightarrow> ok y \<Longrightarrow> enc x = enc y \<longleftrightarrow> x = y"
  by (metis dec_enc option.inject)

lemma enc_inj_on: "inj_on enc (Collect ok)"
  by (rule inj_onI) (simp add: enc_inject)

text \<open>A list that is encoded element by element.\<close>

lemma dec_all: "list_all ok xs \<Longrightarrow> List.map_filter dec (map enc xs) = xs"
  by (induction xs) (simp_all add: dec_enc)

end

text \<open>One codec over another, as JSON in a token and a token in a query string.\<close>

locale codec_chain = inner: codec ok enc dec + outer: codec ok' enc' dec'
  for ok :: "'a \<Rightarrow> bool" and enc :: "'a \<Rightarrow> 'b" and dec :: "'b \<Rightarrow> 'a option"
    and ok' :: "'b \<Rightarrow> bool" and enc' :: "'b \<Rightarrow> 'c" and dec' :: "'c \<Rightarrow> 'b option" +
  assumes fits: "ok x \<Longrightarrow> ok' (enc x)"

sublocale codec_chain \<subseteq> chain: codec ok "\<lambda>x. enc' (enc x)" "\<lambda>y. Option.bind (dec' y) dec"
  by unfold_locales (simp add: inner.dec_enc outer.dec_enc fits)

end
