(* ===== verification/Interval_Set.thy ===== *)
theory Interval_Set
  imports Interfaces
begin

text \<open>
  The interval set of \<open>server/sparse.go\<close> (type \<open>intervalSet\<close>): a sorted list of
  disjoint, non-adjacent, non-empty half-open ranges that records which bytes of a sparse
  file are present and which are being fetched.

  \<open>iset\<close> is the abstract value, the set of offsets a list stands for. The theory proves
  that \<open>add\<close> is union, \<open>remove\<close> is difference, \<open>covers\<close> is inclusion, \<open>missing\<close>
  is the complement within a range, \<open>runEnd\<close> the end of the present run and
  \<open>totalBytes\<close> the number of offsets, that each keeps the representation invariant
  \<open>iset_ok\<close>, and that the representation is canonical. The laws are collected in the
  locale \<open>range_set\<close>, which the clients of the interval set rely on.
\<close>

section \<open>Data\<close>

record interval =
  iv_start :: int
  iv_end :: int

abbreviation iv :: "int \<Rightarrow> int \<Rightarrow> interval" where
  "iv a b \<equiv> \<lparr>iv_start = a, iv_end = b\<rparr>"

type_synonym interval_set = "interval list"

section \<open>Operations\<close>

text \<open>
  The loop of \<open>add\<close>: \<open>s\<close> and \<open>e\<close> are the bounds, widened as intervals are absorbed,
  \<open>ins\<close> is \<open>inserted\<close>, \<open>out\<close> the output slice.
\<close>

fun add_loop :: "interval_set \<Rightarrow> int \<Rightarrow> int \<Rightarrow> bool \<Rightarrow> interval_set \<Rightarrow> interval_set" where
  "add_loop [] s e ins out = (if \<not> ins then out @ [iv s e] else out)"
| "add_loop (it # its) s e ins out =
     (if iv_end it < s then add_loop its s e ins (out @ [it])
      else if iv_start it > e then
        (if \<not> ins then add_loop its s e True (out @ [iv s e] @ [it])
         else add_loop its s e ins (out @ [it]))
      else add_loop its
             (if iv_start it < s then iv_start it else s)
             (if iv_end it > e then iv_end it else e) ins out)"

definition is_add :: "interval_set \<Rightarrow> int \<Rightarrow> int \<Rightarrow> interval_set" where
  "is_add xs s e = (if s \<ge> e then xs else add_loop xs s e False [])"

fun remove_loop :: "interval_set \<Rightarrow> int \<Rightarrow> int \<Rightarrow> interval_set" where
  "remove_loop [] s e = []"
| "remove_loop (it # its) s e =
     (if iv_end it \<le> s \<or> iv_start it \<ge> e then it # remove_loop its s e
      else (if iv_start it < s then [iv (iv_start it) s] else [])
           @ (if iv_end it > e then [iv e (iv_end it)] else [])
           @ remove_loop its s e)"

definition is_remove :: "interval_set \<Rightarrow> int \<Rightarrow> int \<Rightarrow> interval_set" where
  "is_remove xs s e = (if s \<ge> e then xs else remove_loop xs s e)"

fun covers_loop :: "interval_set \<Rightarrow> int \<Rightarrow> int \<Rightarrow> bool" where
  "covers_loop [] s e = False"
| "covers_loop (it # its) s e =
     (if iv_start it \<le> s \<and> iv_end it \<ge> e then True else covers_loop its s e)"

definition is_covers :: "interval_set \<Rightarrow> int \<Rightarrow> int \<Rightarrow> bool" where
  "is_covers xs s e = (if s \<ge> e then True else covers_loop xs s e)"

text \<open>
  The loop of \<open>missing\<close> returns the gaps it appends; a \<open>break\<close> goes to the check
  after the loop, which adds the last gap when \<open>pos < end\<close>.
\<close>

definition missing_tail :: "int \<Rightarrow> int \<Rightarrow> interval list" where
  "missing_tail pos e = (if pos < e then [iv pos e] else [])"

fun missing_loop :: "interval_set \<Rightarrow> int \<Rightarrow> int \<Rightarrow> interval list" where
  "missing_loop [] pos e = missing_tail pos e"
| "missing_loop (it # its) pos e =
     (if iv_end it \<le> pos then missing_loop its pos e
      else if iv_start it \<ge> e then missing_tail pos e
      else (if iv_start it > pos then [iv pos (min (iv_start it) e)] else [])
           @ (let pos' = (if iv_end it > pos then iv_end it else pos)
              in if pos' \<ge> e then missing_tail pos' e else missing_loop its pos' e))"

definition is_missing :: "interval_set \<Rightarrow> int \<Rightarrow> int \<Rightarrow> interval list" where
  "is_missing xs s e = missing_loop xs s e"

fun is_runEnd :: "interval_set \<Rightarrow> int \<Rightarrow> int" where
  "is_runEnd [] off = off"
| "is_runEnd (it # its) off =
     (if iv_start it \<le> off \<and> off < iv_end it then iv_end it else is_runEnd its off)"

fun total_loop :: "interval_set \<Rightarrow> int \<Rightarrow> int" where
  "total_loop [] tot = tot"
| "total_loop (it # its) tot =
     total_loop its (add64 tot (sub64 (iv_end it) (iv_start it)))"

definition is_totalBytes :: "interval_set \<Rightarrow> int" where
  "is_totalBytes xs = total_loop xs 0"

section \<open>The abstract value and the representation invariant\<close>

definition iv_range :: "interval \<Rightarrow> int set" where
  "iv_range it = {iv_start it..<iv_end it}"

definition iset :: "interval_set \<Rightarrow> int set" where
  "iset xs = (\<Union>it\<in>set xs. iv_range it)"

text \<open>Sorted, merged, non-overlapping, non-adjacent, and no empty range.\<close>

definition iset_ok :: "interval_set \<Rightarrow> bool" where
  "iset_ok xs \<longleftrightarrow>
     (\<forall>it\<in>set xs. iv_start it < iv_end it) \<and>
     sorted_wrt (\<lambda>a b. iv_end a < iv_start b) xs"

lemma iv_range_iv [range_simps]: "iv_range (iv a b) = {a..<b}"
  by (simp add: iv_range_def)

lemma iset_Nil [simp]: "iset [] = {}"
  by (simp add: iset_def)

lemma iset_Cons [simp]: "iset (it # xs) = iv_range it \<union> iset xs"
  by (simp add: iset_def)

lemma iset_append [simp]: "iset (xs @ ys) = iset xs \<union> iset ys"
  by (simp add: iset_def)

lemma iset_conv_nth: "iset xs = (\<Union>k\<in>{..<length xs}. iv_range (xs ! k))"
  by (auto simp: iset_def set_conv_nth)

lemma iset_nth: "k < length xs \<Longrightarrow> iv_range (xs ! k) \<subseteq> iset xs"
  by (auto simp: iset_conv_nth)

lemma iset_ok_Nil [simp]: "iset_ok []"
  by (simp add: iset_ok_def)

lemma iset_ok_Cons [simp]:
  "iset_ok (it # xs) \<longleftrightarrow>
     iv_start it < iv_end it \<and> (\<forall>x\<in>set xs. iv_end it < iv_start x) \<and> iset_ok xs"
  by (auto simp: iset_ok_def)

lemma iset_ok_append:
  "iset_ok (xs @ ys) \<longleftrightarrow>
     iset_ok xs \<and> iset_ok ys \<and> (\<forall>x\<in>set xs. \<forall>y\<in>set ys. iv_end x < iv_start y)"
  by (auto simp: iset_ok_def sorted_wrt_append)

section \<open>Lists of ranges in ascending order\<close>

text \<open>Ranges in ascending order that may touch, as the reservations are handed out.\<close>

definition ivs_apart :: "interval list \<Rightarrow> bool" where
  "ivs_apart xs \<longleftrightarrow>
     (\<forall>it\<in>set xs. iv_start it < iv_end it) \<and> sorted_wrt (\<lambda>a b. iv_end a \<le> iv_start b) xs"

lemma ivs_apart_Nil [simp]: "ivs_apart []"
  by (simp add: ivs_apart_def)

lemma ivs_apart_append:
  "ivs_apart (xs @ ys) \<longleftrightarrow>
     ivs_apart xs \<and> ivs_apart ys \<and> (\<forall>x\<in>set xs. \<forall>y\<in>set ys. iv_end x \<le> iv_start y)"
  by (auto simp: ivs_apart_def sorted_wrt_append)

lemma ivs_apart_Cons [simp]:
  "ivs_apart (x # ys) \<longleftrightarrow>
     iv_start x < iv_end x \<and> (\<forall>y\<in>set ys. iv_end x \<le> iv_start y) \<and> ivs_apart ys"
  by (auto simp: ivs_apart_def)

lemma ivs_apart_disjoint:
  assumes "ivs_apart xs" and "i < j" and "j < length xs"
  shows "iv_range (xs ! i) \<inter> iv_range (xs ! j) = {}"
proof -
  have "iv_end (xs ! i) \<le> iv_start (xs ! j)"
    using assms by (auto simp: ivs_apart_def dest: sorted_wrt_nth_less)
  then show ?thesis by (auto simp: iv_range_def)
qed

lemma ivs_apart_ends:
  assumes "ivs_apart xs" and "x \<in> set xs"
  shows "iv_start x \<in> iset xs" and "iv_end x - 1 \<in> iset xs"
proof -
  have "iv_start x < iv_end x" using assms by (simp add: ivs_apart_def)
  then have "iv_start x \<in> iv_range x" and "iv_end x - 1 \<in> iv_range x"
    by (simp_all add: iv_range_def)
  with assms(2) show "iv_start x \<in> iset xs" and "iv_end x - 1 \<in> iset xs"
    by (auto simp: iset_def)
qed

lemma ivs_apart_bounds:
  assumes "ivs_apart xs" and "iset xs \<subseteq> {lo..<hi}" and "x \<in> set xs"
  shows "lo \<le> iv_start x \<and> iv_end x \<le> hi"
  using ivs_apart_ends [OF assms(1,3)] assms(2) by force

lemma iset_ok_apart: "iset_ok xs \<Longrightarrow> ivs_apart xs"
  by (auto simp: iset_ok_def ivs_apart_def elim!: sorted_wrt_mono_rel [rotated])

section \<open>Each operation\<close>

text \<open>
  \<open>add\<close>: the output slice so far ends below \<open>s\<close>, and once the range is inserted it lies
  in the output, so that what remains of the input lies above it.
\<close>

lemma add_loop_inserted:
  assumes "iset_ok xs" and "\<forall>x\<in>set xs. e < iv_start x" and "s \<le> e"
  shows "add_loop xs s e True out = out @ xs"
  using assms by (induction xs arbitrary: out) auto

lemma add_loop_spec:
  assumes "iset_ok (out @ xs)" and "\<forall>x\<in>set out. iv_end x < s" and "s < e"
  shows "iset_ok (add_loop xs s e False out) \<and>
         iset (add_loop xs s e False out) = iset out \<union> iset xs \<union> {s..<e}"
  using assms
proof (induction xs arbitrary: s e out)
  case Nil
  then show ?case by (auto simp: iset_ok_append iv_range_iv)
next
  case (Cons it xs)
  consider (below) "iv_end it < s" | (above) "\<not> iv_end it < s" "iv_start it > e"
    | (absorb) "\<not> iv_end it < s" "\<not> iv_start it > e" by blast
  then show ?case
  proof cases
    case below
    with Cons.IH [of "out @ [it]" s e] Cons.prems show ?thesis by auto
  next
    case above
    from Cons.prems have "iset_ok xs" "\<forall>x\<in>set xs. e < iv_start x"
      using above by (auto simp: iset_ok_append)
    then have "add_loop (it # xs) s e False out = out @ iv s e # it # xs"
      using above Cons.prems(3) by (simp add: add_loop_inserted)
    then show ?thesis
      using Cons.prems above by (auto simp: iset_ok_append iv_range_iv)
  next
    case absorb
    let ?s = "if iv_start it < s then iv_start it else s"
    let ?e = "if iv_end it > e then iv_end it else e"
    from Cons.prems have ok: "iset_ok (out @ xs)" "iv_start it < iv_end it"
      "\<forall>x\<in>set out. iv_end x < ?s" "?s < ?e"
      using absorb by (auto simp: iset_ok_append)
    have "iv_range it \<union> {s..<e} = {?s..<?e}"
      using absorb ok(2) Cons.prems(3) by (auto simp: iv_range_def)
    with Cons.IH [OF ok(1,3,4)] absorb show ?thesis by auto
  qed
qed

lemma is_add_ok: "iset_ok xs \<Longrightarrow> iset_ok (is_add xs s e)"
  using add_loop_spec [of "[]" xs s e] by (simp add: is_add_def)

lemma iset_is_add: "iset_ok xs \<Longrightarrow> iset (is_add xs s e) = iset xs \<union> {s..<e}"
  using add_loop_spec [of "[]" xs s e] by (simp add: is_add_def)

text \<open>\<open>remove\<close>: an interval that contains the removed range is cut in two.\<close>

lemma remove_loop_above: "\<forall>x\<in>set xs. b < iv_start x \<Longrightarrow> x \<in> set (remove_loop xs s e) \<Longrightarrow> b < iv_start x"
  by (induction xs) (auto split: if_splits)

lemma remove_loop_spec:
  assumes "iset_ok xs" and "s < e"
  shows "iset_ok (remove_loop xs s e) \<and> iset (remove_loop xs s e) = iset xs - {s..<e}"
  using assms
proof (induction xs)
  case Nil
  then show ?case by simp
next
  case (Cons it xs)
  then have IH: "iset_ok (remove_loop xs s e)" "iset (remove_loop xs s e) = iset xs - {s..<e}"
    and it: "iv_start it < iv_end it" and above: "\<forall>x\<in>set xs. iv_end it < iv_start x"
    by auto
  from above have "\<forall>x\<in>set (remove_loop xs s e). iv_end it < iv_start x"
    using remove_loop_above by blast
  with IH it \<open>s < e\<close> show ?case
    by (auto simp: iset_ok_append iv_range_def)
qed

lemma is_remove_ok: "iset_ok xs \<Longrightarrow> iset_ok (is_remove xs s e)"
  using remove_loop_spec [of xs s e] by (simp add: is_remove_def)

lemma iset_is_remove: "iset_ok xs \<Longrightarrow> iset (is_remove xs s e) = iset xs - {s..<e}"
  using remove_loop_spec [of xs s e] by (simp add: is_remove_def)

text \<open>\<open>covers\<close>: since the set is merged, one interval contains a covered range.\<close>

lemma iset_below: "\<forall>x\<in>set xs. b < iv_start x \<Longrightarrow> y \<in> iset xs \<Longrightarrow> b < y"
  by (auto simp: iset_def iv_range_def)

lemma covers_loop_spec:
  assumes "iset_ok xs" and "s < e"
  shows "covers_loop xs s e \<longleftrightarrow> {s..<e} \<subseteq> iset xs"
  using assms
proof (induction xs)
  case Nil
  then show ?case by auto
next
  case (Cons it xs)
  then have IH: "covers_loop xs s e \<longleftrightarrow> {s..<e} \<subseteq> iset xs" and it: "iv_start it < iv_end it"
    and above: "\<And>y. y \<in> iset xs \<Longrightarrow> iv_end it < y"
    using iset_below by auto
  have "iv_start it \<le> s \<and> e \<le> iv_end it \<or> {s..<e} \<subseteq> iset xs"
    if sub: "{s..<e} \<subseteq> iv_range it \<union> iset xs"
  proof (cases "s \<in> iset xs")
    case True
    then have "{s..<e} \<inter> iv_range it = {}" using above by (force simp: iv_range_def)
    with sub show ?thesis by blast
  next
    case False
    with sub \<open>s < e\<close> have s: "s \<in> iv_range it" by auto
    have "e \<le> iv_end it"
    proof (rule ccontr)
      assume "\<not> e \<le> iv_end it"
      with s have "iv_end it \<in> {s..<e}" and "iv_end it \<notin> iv_range it"
        by (simp_all add: iv_range_def)
      with sub have "iv_end it \<in> iset xs" by blast
      then show False using above by blast
    qed
    with s show ?thesis by (simp add: iv_range_def)
  qed
  then show ?case using IH by (auto simp: iv_range_def)
qed

lemma is_covers_iff: "iset_ok xs \<Longrightarrow> is_covers xs s e \<longleftrightarrow> {s..<e} \<subseteq> iset xs"
  using covers_loop_spec [of xs s e] by (simp add: is_covers_def)

text \<open>\<open>missing\<close>: the gaps come out sorted, apart and not empty, and start at \<open>pos\<close> or later.\<close>

lemma missing_tail_spec:
  "iset_ok (missing_tail pos e) \<and> iset (missing_tail pos e) = {pos..<e}
   \<and> (\<forall>g\<in>set (missing_tail pos e). pos \<le> iv_start g)"
  by (auto simp: missing_tail_def iv_range_iv)

lemma missing_loop_spec:
  assumes "iset_ok xs"
  shows "iset_ok (missing_loop xs pos e) \<and> iset (missing_loop xs pos e) = {pos..<e} - iset xs
         \<and> (\<forall>g\<in>set (missing_loop xs pos e). pos \<le> iv_start g)"
  using assms
proof (induction xs arbitrary: pos)
  case Nil
  then show ?case using missing_tail_spec by simp
next
  case (Cons it xs)
  then have it: "iv_start it < iv_end it" and ok: "iset_ok xs"
    and above: "\<And>y. y \<in> iset xs \<Longrightarrow> iv_end it < y"
    using iset_below by auto
  note IH = Cons.IH [OF ok]
  consider (before) "iv_end it \<le> pos" | (past) "\<not> iv_end it \<le> pos" "iv_start it \<ge> e"
    | (last) "\<not> iv_end it \<le> pos" "\<not> iv_start it \<ge> e" "iv_end it \<ge> e"
    | (on) "\<not> iv_end it \<le> pos" "\<not> iv_start it \<ge> e" "\<not> iv_end it \<ge> e" by linarith
  then show ?case
  proof cases
    case before
    then show ?thesis using IH [of pos] by (auto simp: iv_range_def)
  next
    case past
    have "{pos..<e} - iset (it # xs) = {pos..<e}"
      using past above it by (force simp: iv_range_def)
    then show ?thesis using past missing_tail_spec by simp
  next
    case last
    have "{pos..<e} - iset (it # xs) = {pos..<e} - iv_range it"
      using last above by (force simp: iv_range_def)
    also have "\<dots> = {pos..<iv_start it}"
      using last it by (auto simp: iv_range_def)
    finally have rest: "{pos..<e} - iset (it # xs) = {pos..<iv_start it}" .
    have "missing_loop (it # xs) pos e = (if iv_start it > pos then [iv pos (iv_start it)] else [])"
      using last by (simp add: missing_tail_def min_def)
    then show ?thesis unfolding rest by (simp add: iv_range_iv)
  next
    case on
    have gap: "iv_end it \<le> iv_start g" if "g \<in> set (missing_loop xs (iv_end it) e)" for g
      using IH [of "iv_end it"] that by blast
    have "y \<notin> iset xs" if "y \<le> iv_end it" for y using above that by force
    then have "{pos..<iv_start it} \<inter> iset xs = {}" using it by fastforce
    then have "{pos..<e} - iset (it # xs) = {pos..<iv_start it} \<union> ({iv_end it..<e} - iset xs)"
      using on it by (auto simp: iv_range_def)
    then have union: "{pos..<e} - iset (it # xs)
        = {pos..<iv_start it} \<union> iset (missing_loop xs (iv_end it) e)"
      using IH [of "iv_end it"] by simp
    let ?gap = "if iv_start it > pos then [iv pos (iv_start it)] else []"
    have eq: "missing_loop (it # xs) pos e = ?gap @ missing_loop xs (iv_end it) e"
      using on by (simp add: min_def)
    have "iset_ok (?gap @ missing_loop xs (iv_end it) e)"
      unfolding iset_ok_append using IH [of "iv_end it"] gap it by fastforce
    moreover have "iset ?gap = {pos..<iv_start it}" by (simp add: iv_range_iv)
    moreover have "\<forall>g\<in>set (?gap @ missing_loop xs (iv_end it) e). pos \<le> iv_start g"
      using gap on(1) by fastforce
    ultimately show ?thesis unfolding eq union by simp
  qed
qed

lemma is_missing_ok: "iset_ok xs \<Longrightarrow> iset_ok (is_missing xs s e)"
  using missing_loop_spec [of xs s e] by (simp add: is_missing_def)

lemma iset_is_missing: "iset_ok xs \<Longrightarrow> iset (is_missing xs s e) = {s..<e} - iset xs"
  using missing_loop_spec [of xs s e] by (simp add: is_missing_def)

text \<open>\<open>runEnd\<close>: the longest run from \<open>off\<close> on.\<close>

lemma is_runEnd_spec:
  assumes "iset_ok xs"
  shows "off \<le> is_runEnd xs off \<and> {off..<is_runEnd xs off} \<subseteq> iset xs \<and> is_runEnd xs off \<notin> iset xs"
  using assms
proof (induction xs)
  case Nil
  then show ?case by simp
next
  case (Cons it xs)
  then have it: "iv_start it < iv_end it"
    and above: "\<And>y. y \<in> iset xs \<Longrightarrow> iv_end it < y"
    and IH: "off \<le> is_runEnd xs off" "{off..<is_runEnd xs off} \<subseteq> iset xs" "is_runEnd xs off \<notin> iset xs"
    using iset_below by auto
  show ?case
  proof (cases "iv_start it \<le> off \<and> off < iv_end it")
    case True
    then show ?thesis using above by (auto simp: iv_range_def)
  next
    case False
    have "is_runEnd xs off \<notin> iv_range it"
    proof (cases "off < is_runEnd xs off")
      case True
      then have "off \<in> iset xs" using IH(2) by auto
      with above have "iv_end it < off" by blast
      with IH(1) show ?thesis by (simp add: iv_range_def)
    next
      case run: False
      with IH(1) False show ?thesis by (auto simp: iv_range_def)
    qed
    with False IH show ?thesis by auto
  qed
qed

lemma is_runEnd_member:
  assumes "iset_ok xs"
  shows "off < is_runEnd xs off \<longleftrightarrow> off \<in> iset xs"
proof
  assume "off < is_runEnd xs off"
  then have "off \<in> {off..<is_runEnd xs off}" by simp
  then show "off \<in> iset xs" using is_runEnd_spec [OF assms] by blast
next
  assume "off \<in> iset xs"
  then have "is_runEnd xs off \<noteq> off" using is_runEnd_spec [OF assms, of off] by metis
  then show "off < is_runEnd xs off" using is_runEnd_spec [OF assms, of off] by linarith
qed

lemma is_runEnd_bound:
  assumes "iset_ok xs" and "off \<le> b" and "b \<notin> iset xs"
  shows "is_runEnd xs off \<le> b"
proof (rule ccontr)
  assume "\<not> is_runEnd xs off \<le> b"
  with assms(2) have "b \<in> {off..<is_runEnd xs off}" by simp
  then show False using is_runEnd_spec [OF assms(1)] assms(3) by blast
qed

text \<open>\<open>totalBytes\<close>: the number of offsets, as long as it is an \<open>int64\<close>.\<close>

lemma iset_finite [simp]: "finite (iset xs)"
  by (simp add: iset_def iv_range_def)

lemma iset_interval_bounds:
  assumes "iset_ok xs" and "iset xs \<subseteq> {lo..<hi}" and "it \<in> set xs"
  shows "lo \<le> iv_start it \<and> iv_end it \<le> hi"
  using ivs_apart_bounds [OF iset_ok_apart] assms by blast

lemma iset_card_Cons:
  assumes "iset_ok (it # xs)"
  shows "int (card (iset (it # xs))) = (iv_end it - iv_start it) + int (card (iset xs))"
proof -
  have "iv_range it \<inter> iset xs = {}"
    using assms iset_below [of xs "iv_end it"] by (force simp: iv_range_def)
  then have "card (iset (it # xs)) = card (iv_range it) + card (iset xs)"
    by (simp add: card_Un_disjoint iv_range_def)
  then show ?thesis using assms by (simp add: iv_range_def)
qed

lemma total_loop_spec:
  assumes "iset_ok xs" and "iset xs \<subseteq> {0..<n}" and "n \<le> max_i64"
    and "0 \<le> tot" and "tot + int (card (iset xs)) \<le> max_i64"
  shows "total_loop xs tot = tot + int (card (iset xs))"
  using assms
proof (induction xs arbitrary: tot)
  case Nil
  then show ?case by simp
next
  case (Cons it xs)
  have b: "0 \<le> iv_start it" "iv_end it \<le> n"
    using iset_interval_bounds [OF Cons.prems(1,2), of it] by simp_all
  have lt: "iv_start it < iv_end it" using Cons.prems(1) by simp
  note c = iset_card_Cons [OF Cons.prems(1)]
  have "sub64 (iv_end it) (iv_start it) = iv_end it - iv_start it"
    using b lt Cons.prems(3) by (simp add: sub64_nonneg)
  moreover have "add64 tot (iv_end it - iv_start it) = tot + (iv_end it - iv_start it)"
    using Cons.prems(4,5) c lt by (simp add: add64_nonneg)
  moreover have "total_loop xs (tot + (iv_end it - iv_start it))
      = tot + (iv_end it - iv_start it) + int (card (iset xs))"
    using Cons.prems c lt by (intro Cons.IH) auto
  ultimately show ?case using c by simp
qed

lemma is_totalBytes_card:
  assumes "iset_ok xs" and "iset xs \<subseteq> {0..<n}" and "n \<le> max_i64"
  shows "is_totalBytes xs = int (card (iset xs))"
proof (cases "0 \<le> n")
  case True
  have "card (iset xs) \<le> card {0..<n}" using assms(2) by (intro card_mono) auto
  with True have "int (card (iset xs)) \<le> n" by simp
  with assms total_loop_spec [OF assms, of 0] show ?thesis by (simp add: is_totalBytes_def)
next
  case False
  with assms(2) have "iset xs = {}" by auto
  moreover from this assms(1) have "xs = []" by (cases xs) (auto simp: iv_range_def)
  ultimately show ?thesis by (simp add: is_totalBytes_def)
qed

section \<open>The representation is canonical\<close>

lemma iset_least:
  assumes "iset_ok (it # xs)"
  shows "iv_start it \<in> iset (it # xs)" and "y \<in> iset (it # xs) \<Longrightarrow> iv_start it \<le> y"
  using assms iset_below [of xs "iv_end it" y] by (auto simp: iv_range_def)

lemma iset_first_end:
  assumes "iset_ok (it # xs)" and "iv_start it \<le> e" and "{iv_start it..<e} \<subseteq> iset (it # xs)"
    and "e \<notin> iset (it # xs)"
  shows "e = iv_end it"
proof (rule antisym)
  have out: "iv_end it \<notin> iset (it # xs)"
    using assms(1) iset_below [of xs "iv_end it" "iv_end it"] by (auto simp: iv_range_def)
  show "e \<le> iv_end it"
  proof (rule ccontr)
    assume "\<not> e \<le> iv_end it"
    then have "iv_end it \<in> {iv_start it..<e}" using assms(1) by simp
    with assms(3) out show False by blast
  qed
  show "iv_end it \<le> e"
    using assms(2,4) by (auto simp: iv_range_def)
qed

lemma iset_empty_iff: "iset_ok xs \<Longrightarrow> iset xs = {} \<longleftrightarrow> xs = []"
  by (cases xs) (auto simp: iv_range_def)

lemma iset_canonical:
  assumes "iset_ok xs" and "iset_ok ys" and "iset xs = iset ys"
  shows "xs = ys"
  using assms
proof (induction xs arbitrary: ys)
  case Nil
  then show ?case using iset_empty_iff [of ys] by simp
next
  case (Cons it xs)
  from Cons.prems obtain jt zs where ys: "ys = jt # zs"
    using iset_empty_iff [of "it # xs"] by (cases ys) auto
  note x = Cons.prems(1) and y = Cons.prems(2) [unfolded ys] and eq = Cons.prems(3) [unfolded ys]
  have start: "iv_start it = iv_start jt"
    using iset_least [OF x] iset_least [OF y] eq by (metis order_antisym)
  have "{iv_start jt..<iv_end jt} \<subseteq> iset (jt # zs)" by (simp add: iv_range_def)
  moreover have "iv_end jt \<notin> iset (jt # zs)"
    using y iset_below [of zs "iv_end jt" "iv_end jt"] by (auto simp: iv_range_def)
  moreover have "iv_start it \<le> iv_end jt" using start y by simp
  ultimately have "iv_end jt = iv_end it"
    using iset_first_end [OF x, of "iv_end jt"] unfolding eq start by blast
  with start have same: "it = jt" by simp
  have "iset xs = iset zs"
  proof -
    have "iv_range it \<inter> iset xs = {}" "iv_range jt \<inter> iset zs = {}"
      using x y iset_below [of xs "iv_end it"] iset_below [of zs "iv_end jt"]
      by (force simp: iv_range_def)+
    with eq same show ?thesis by auto
  qed
  with Cons.IH [of zs] x y same ys show ?case by simp
qed

section \<open>The interface of a range set\<close>

text \<open>
  What the sparse file relies on: a set of offsets \<open>\<alpha> s\<close> behind the operations. The
  client lemmas say what a search for gaps in two range sets at once finds: first the gaps
  of one set, then, within each, the gaps of the other.
\<close>

locale range_set =
  fixes ok :: "'s \<Rightarrow> bool"
    and abs :: "'s \<Rightarrow> int set"
    and add :: "'s \<Rightarrow> int \<Rightarrow> int \<Rightarrow> 's"
    and remove :: "'s \<Rightarrow> int \<Rightarrow> int \<Rightarrow> 's"
    and covers :: "'s \<Rightarrow> int \<Rightarrow> int \<Rightarrow> bool"
    and missing :: "'s \<Rightarrow> int \<Rightarrow> int \<Rightarrow> interval list"
    and run_end :: "'s \<Rightarrow> int \<Rightarrow> int"
  assumes add_ok: "ok s \<Longrightarrow> ok (add s a b)"
    and abs_add: "ok s \<Longrightarrow> abs (add s a b) = abs s \<union> {a..<b}"
    and remove_ok: "ok s \<Longrightarrow> ok (remove s a b)"
    and abs_remove: "ok s \<Longrightarrow> abs (remove s a b) = abs s - {a..<b}"
    and covers_iff: "ok s \<Longrightarrow> covers s a b \<longleftrightarrow> {a..<b} \<subseteq> abs s"
    and missing_ok: "ok s \<Longrightarrow> iset_ok (missing s a b)"
    and missing_eq: "ok s \<Longrightarrow> iset (missing s a b) = {a..<b} - abs s"
    and run_end_run: "ok s \<Longrightarrow> off \<le> run_end s off \<and> {off..<run_end s off} \<subseteq> abs s"
    and run_end_stops: "ok s \<Longrightarrow> run_end s off \<notin> abs s"
begin

lemma covers_added: "ok s \<Longrightarrow> covers (add s a b) a b"
  by (simp add: add_ok covers_iff abs_add)

lemma covers_mono: "ok s \<Longrightarrow> covers s a b \<Longrightarrow> covers (add s c d) a b"
  by (auto simp: add_ok covers_iff abs_add)

lemma covers_complete: "ok s \<Longrightarrow> missing s a b = [] \<Longrightarrow> covers s a b"
  using missing_eq [of s a b] by (auto simp: covers_iff)

lemma missing_range:
  assumes "ok s" and "g \<in> set (missing s a b)"
  shows "a \<le> iv_start g" and "iv_start g < iv_end g" and "iv_end g \<le> b"
    and "iv_range g \<inter> abs s = {}"
proof -
  have "iset (missing s a b) \<subseteq> {a..<b}" using assms(1) by (auto simp: missing_eq)
  from iset_interval_bounds [OF missing_ok [OF assms(1)] this assms(2)]
  show "a \<le> iv_start g" and "iv_end g \<le> b" by simp_all
  show "iv_start g < iv_end g" using missing_ok [OF assms(1)] assms(2) by (auto simp: iset_ok_def)
  have "iv_range g \<subseteq> iset (missing s a b)" using assms(2) by (auto simp: iset_def)
  then show "iv_range g \<inter> abs s = {}" using missing_eq [OF assms(1)] by auto
qed

text \<open>A gap of both sets lies apart from both, and every offset outside both is in one.\<close>

lemma gap_of_both:
  assumes "ok p" and "ok q" and "g \<in> set (missing p a b)"
    and "h \<in> set (missing q (iv_start g) (iv_end g))"
  shows "iv_range h \<subseteq> {a..<b} - abs p - abs q" and "iv_start h < iv_end h"
proof -
  note g = missing_range [OF assms(1,3)] and h = missing_range [OF assms(2,4)]
  show "iv_start h < iv_end h" by (rule h(2))
  have "iv_range h \<subseteq> iv_range g" using h(1,3) by (auto simp: iv_range_def)
  moreover have "iv_range g \<subseteq> {a..<b}" using g(1,3) by (auto simp: iv_range_def)
  ultimately show "iv_range h \<subseteq> {a..<b} - abs p - abs q" using g(4) h(4) by blast
qed

lemma gap_exists:
  assumes "ok p" and "ok q" and "y \<in> {a..<b} - abs p - abs q"
  shows "\<exists>g\<in>set (missing p a b). \<exists>h\<in>set (missing q (iv_start g) (iv_end g)). y \<in> iv_range h"
proof -
  from assms(3) have "y \<in> iset (missing p a b)" using missing_eq [OF assms(1)] by auto
  then obtain g where g: "g \<in> set (missing p a b)" "y \<in> iv_range g" by (auto simp: iset_def)
  then have "y \<in> iset (missing q (iv_start g) (iv_end g))"
    using assms(3) missing_eq [OF assms(2)] by (simp add: iv_range_def)
  then obtain h where "h \<in> set (missing q (iv_start g) (iv_end g))" "y \<in> iv_range h"
    by (auto simp: iset_def)
  with g show ?thesis by blast
qed

end

interpretation ivs: range_set iset_ok iset is_add is_remove is_covers is_missing is_runEnd
proof unfold_locales
  fix s :: interval_set and a b off :: int
  assume ok: "iset_ok s"
  show "iset_ok (is_add s a b)" and "iset (is_add s a b) = iset s \<union> {a..<b}"
    and "iset_ok (is_remove s a b)" and "iset (is_remove s a b) = iset s - {a..<b}"
    and "is_covers s a b \<longleftrightarrow> {a..<b} \<subseteq> iset s"
    and "iset_ok (is_missing s a b)" and "iset (is_missing s a b) = {a..<b} - iset s"
    using ok by (simp_all add: is_add_ok iset_is_add is_remove_ok iset_is_remove
        is_covers_iff is_missing_ok iset_is_missing)
  show "off \<le> is_runEnd s off \<and> {off..<is_runEnd s off} \<subseteq> iset s" and "is_runEnd s off \<notin> iset s"
    using is_runEnd_spec [OF ok] by simp_all
qed

section \<open>Properties\<close>

text \<open>
  C23. The interval set is a set of offsets: on every well-formed list, \<open>add\<close> and
  \<open>remove\<close> return a well-formed list (sorted, merged, no empty range) and compute union
  and difference, \<open>covers\<close> decides inclusion, \<open>missing\<close> lists in ascending order the
  maximal ranges of \<open>[a, b)\<close> outside the set, and \<open>runEnd\<close> is the first offset from
  \<open>a\<close> on that is not in the set.
\<close>

theorem interval_set_refines_sets:
  assumes "iset_ok xs"
  shows "iset_ok (is_add xs a b) \<and> iset (is_add xs a b) = iset xs \<union> {a..<b} \<and>
         iset_ok (is_remove xs a b) \<and> iset (is_remove xs a b) = iset xs - {a..<b} \<and>
         (is_covers xs a b \<longleftrightarrow> {a..<b} \<subseteq> iset xs) \<and>
         iset_ok (is_missing xs a b) \<and> iset (is_missing xs a b) = {a..<b} - iset xs \<and>
         a \<le> is_runEnd xs a \<and> {a..<is_runEnd xs a} \<subseteq> iset xs \<and> is_runEnd xs a \<notin> iset xs"
  using assms ivs.run_end_run [OF assms, of a]
  by (simp add: ivs.add_ok ivs.abs_add ivs.remove_ok ivs.abs_remove ivs.covers_iff ivs.missing_ok
      ivs.missing_eq ivs.run_end_stops)

theorem interval_set_refines_sets_witness:
  "iset (is_add [iv 0 4, iv 6 9] 4 6) = iset [iv 0 4, iv 6 9] \<union> {4..<6} \<and>
   is_add [iv 0 4, iv 6 9] 4 6 = [iv 0 9] \<and> is_missing [iv 0 4, iv 6 9] 2 12 = [iv 4 6, iv 9 12]"
proof -
  have ok: "iset_ok [iv 0 4, iv 6 9]" by simp
  show ?thesis
    using interval_set_refines_sets [OF ok, of 4 6]
    by (simp add: is_add_def is_missing_def missing_tail_def)
qed

text \<open>
  The list is canonical: two well-formed lists that stand for the same offsets are
  equal, so the state of a file does not depend on the order in which its chunks arrived.
\<close>

theorem interval_set_canonical:
  assumes "iset_ok xs" and "iset_ok ys" and "iset xs = iset ys"
  shows "xs = ys"
  using assms by (rule iset_canonical)

theorem interval_set_canonical_witness:
  "is_add (is_add [iv 8 9] 0 4) 4 8 = is_add (is_add [iv 8 9] 2 8) 0 2"
proof -
  have ok: "iset_ok [iv 8 9]" by simp
  show ?thesis
    by (rule interval_set_canonical) (auto simp: ivs.add_ok ivs.abs_add ok)
qed

end
