(* ===== verification/Sparse_File.thy ===== *)
theory Sparse_File
  imports Interval_Set
begin

text \<open>
  The sparse file of \<open>server/sparse.go\<close> (type \<open>SparseFile\<close>): a file of fixed size filled
  out of order, with the set of ranges that are present and the set of ranges being
  fetched. Every method body runs under the file's mutex, so each operation is one atomic
  function on the state; a method that waits on the condition variable is the decision it
  takes when it holds the mutex (\<open>wait_result\<close>), made again after each broadcast.

  \<open>writeAt\<close> holds the mutex twice, around the write itself: the model makes it one step, at
  the moment the range becomes present. No other goroutine touches the written offsets in
  between (they are the writer's reservation), and a file closed in between shows as an
  error of the write.

  The contents of the file on disk are the function \<open>sf_data\<close>. The outcome of a system
  call is an argument of the operation that makes it.
\<close>

section \<open>State\<close>

definition maxFillChunk :: int where
  "maxFillChunk = 8 * 2 ^ 20"

record sparse_file =
  sf_size :: int
  sf_chunk :: int
  sf_present :: interval_set
  sf_inflight :: interval_set
  sf_data :: "int \<Rightarrow> byte"
  sf_closed :: bool
  sf_done :: bool
  sf_err :: "go_error option"

text \<open>The result of \<open>os.Create\<close> and of \<open>Truncate\<close> come first.\<close>

definition newSparseFile ::
  "go_error option \<Rightarrow> go_error option \<Rightarrow> int \<Rightarrow> int \<Rightarrow> go_error + sparse_file" where
  "newSparseFile create_err trunc_err sz chunk =
     (let chunk' = (if chunk \<le> 0 then maxFillChunk else chunk) in
      case create_err of Some e \<Rightarrow> Inl e
      | None \<Rightarrow>
          (case trunc_err of Some e \<Rightarrow> Inl e
           | None \<Rightarrow> Inr \<lparr>sf_size = sz, sf_chunk = chunk', sf_present = [], sf_inflight = [],
                          sf_data = (\<lambda>_. 0), sf_closed = False, sf_done = False,
                          sf_err = None\<rparr>))"

section \<open>Writing\<close>

definition put_bytes :: "(int \<Rightarrow> byte) \<Rightarrow> int \<Rightarrow> byte list \<Rightarrow> int \<Rightarrow> byte" where
  "put_bytes d off p =
     (\<lambda>x. if off \<le> x \<and> x < off + int (length p) then p ! nat (x - off) else d x)"

text \<open>What \<open>os.File.WriteAt\<close> reports: all bytes written, or an error after the first few.\<close>

datatype write_result = WroteAll | WroteSome nat go_error

definition writeAt ::
  "sparse_file \<Rightarrow> byte list \<Rightarrow> int \<Rightarrow> write_result \<Rightarrow> sparse_file \<times> go_error option" where
  "writeAt f p off w =
     (if sf_closed f then (f, Some ErrClosed)
      else case w of
        WroteSome n e \<Rightarrow> (f\<lparr>sf_data := put_bytes (sf_data f) off (take n p)\<rparr>, Some e)
      | WroteAll \<Rightarrow>
          (f\<lparr>sf_data := put_bytes (sf_data f) off p,
             sf_present := is_add (sf_present f) off (add64 off (int (length p)))\<rparr>, None))"

section \<open>Reserving\<close>

text \<open>
  The innermost loop of \<open>reserve\<close> cuts one gap into chunks. Its counter is an \<open>int64\<close>
  that may wrap around, so the loop is a partial function; \<open>None\<close> is a loop that does
  not end. \<open>infl\<close> is \<open>s.inflight\<close>.
\<close>

partial_function (option) chunk_loop ::
  "int \<Rightarrow> int \<Rightarrow> int \<Rightarrow> interval_set \<Rightarrow> interval list \<Rightarrow> (interval_set \<times> interval list) option"
where
  "chunk_loop p e chunk infl out =
     (if p < e then
        let e' = min (add64 p chunk) e
        in chunk_loop (add64 p chunk) e chunk (is_add infl p e') (out @ [iv p e'])
      else Some (infl, out))"

declare chunk_loop.simps [code]

fun sub_loop ::
  "interval list \<Rightarrow> int \<Rightarrow> interval_set \<Rightarrow> interval list \<Rightarrow> (interval_set \<times> interval list) option"
where
  "sub_loop [] chunk infl out = Some (infl, out)"
| "sub_loop (sub # subs) chunk infl out =
     (case chunk_loop (iv_start sub) (iv_end sub) chunk infl out of
        None \<Rightarrow> None
      | Some (infl', out') \<Rightarrow> sub_loop subs chunk infl' out')"

fun gap_loop ::
  "interval list \<Rightarrow> int \<Rightarrow> interval_set \<Rightarrow> interval list \<Rightarrow> (interval_set \<times> interval list) option"
where
  "gap_loop [] chunk infl out = Some (infl, out)"
| "gap_loop (gap # gaps) chunk infl out =
     (case sub_loop (is_missing infl (iv_start gap) (iv_end gap)) chunk infl out of
        None \<Rightarrow> None
      | Some (infl', out') \<Rightarrow> gap_loop gaps chunk infl' out')"

definition reserve ::
  "sparse_file \<Rightarrow> int \<Rightarrow> int \<Rightarrow> (sparse_file \<times> interval list) option" where
  "reserve f start end0 =
     (let s = (if start < 0 then 0 else start);
          e = (if end0 > sf_size f then sf_size f else end0)
      in if s \<ge> e then Some (f, [])
         else case gap_loop (is_missing (sf_present f) s e) (sf_chunk f) (sf_inflight f) [] of
                None \<Rightarrow> None
              | Some (infl, out) \<Rightarrow> Some (f\<lparr>sf_inflight := infl\<rparr>, out))"

text \<open>The two nested loops of \<open>reserveLowest\<close>, which return from their first iteration.\<close>

fun lowest_gap :: "interval list \<Rightarrow> interval_set \<Rightarrow> interval option" where
  "lowest_gap [] infl = None"
| "lowest_gap (gap # gaps) infl =
     (case is_missing infl (iv_start gap) (iv_end gap) of
        [] \<Rightarrow> lowest_gap gaps infl
      | sub # _ \<Rightarrow> Some sub)"

definition reserveLowest :: "sparse_file \<Rightarrow> sparse_file \<times> interval option" where
  "reserveLowest f =
     (case lowest_gap (is_missing (sf_present f) 0 (sf_size f)) (sf_inflight f) of
        None \<Rightarrow> (f, None)
      | Some sub \<Rightarrow>
          (let e = min (add64 (iv_start sub) (sf_chunk f)) (iv_end sub)
           in (f\<lparr>sf_inflight := is_add (sf_inflight f) (iv_start sub) e\<rparr>,
               Some (iv (iv_start sub) e))))"

definition releaseInflight :: "sparse_file \<Rightarrow> interval \<Rightarrow> sparse_file" where
  "releaseInflight f it =
     f\<lparr>sf_inflight := is_remove (sf_inflight f) (iv_start it) (iv_end it)\<rparr>"

section \<open>Reading the state, waiting, finishing\<close>

definition availableEnd :: "sparse_file \<Rightarrow> int \<Rightarrow> int" where
  "availableEnd f off = is_runEnd (sf_present f) off"

record sparse_progress =
  presentBytes :: int
  contiguousBytes :: int
  inflightBytes :: int
  inflightRanges :: nat
  presentRanges :: nat

definition progress :: "sparse_file \<Rightarrow> sparse_progress" where
  "progress f =
     \<lparr>presentBytes = is_totalBytes (sf_present f),
      contiguousBytes = is_runEnd (sf_present f) 0,
      inflightBytes = is_totalBytes (sf_inflight f),
      inflightRanges = length (sf_inflight f),
      presentRanges = length (sf_present f)\<rparr>"

text \<open>One turn of the waiting loop: return, fail, or wait for the next broadcast.\<close>

datatype wait_result = Ready | Failed go_error | Blocked

definition waitByte :: "sparse_file \<Rightarrow> go_error option \<Rightarrow> int \<Rightarrow> wait_result" where
  "waitByte f ctx_err off =
     (if off < 0 \<or> off \<ge> sf_size f then Failed EOF
      else if is_covers (sf_present f) off (add64 off 1) then Ready
      else case ctx_err of Some e \<Rightarrow> Failed e
      | None \<Rightarrow>
          (if sf_done f then
             (case sf_err f of Some e \<Rightarrow> Failed e | None \<Rightarrow> Failed UnexpectedEOF)
           else Blocked))"

definition complete :: "sparse_file \<Rightarrow> bool" where
  "complete f = is_covers (sf_present f) 0 (sf_size f)"

text \<open>\<open>waitProgress\<close> sleeps unless the context is over or the file is done.\<close>

definition waitProgress :: "sparse_file \<Rightarrow> go_error option \<Rightarrow> wait_result" where
  "waitProgress f ctx_err = (if ctx_err \<noteq> None \<or> sf_done f then Ready else Blocked)"

definition markDone :: "sparse_file \<Rightarrow> go_error option \<Rightarrow> sparse_file" where
  "markDone f e =
     f\<lparr>sf_done := True, sf_err := (if sf_err f = None then e else sf_err f)\<rparr>"

text \<open>The second argument is the result of closing the file.\<close>

definition closeWriter :: "sparse_file \<Rightarrow> go_error option \<Rightarrow> sparse_file \<times> go_error option" where
  "closeWriter f close_err = (f\<lparr>sf_closed := True\<rparr>, close_err)"

section \<open>The invariant\<close>

text \<open>
  Both sets are well formed and lie within the file, and the size leaves room for one chunk
  below the largest \<open>int64\<close>, so that no offset the file computes wraps around.
\<close>

definition sf_ok :: "sparse_file \<Rightarrow> bool" where
  "sf_ok f \<longleftrightarrow>
     iset_ok (sf_present f) \<and> iset (sf_present f) \<subseteq> {0..<sf_size f} \<and>
     iset_ok (sf_inflight f) \<and> iset (sf_inflight f) \<subseteq> {0..<sf_size f} \<and>
     0 < sf_chunk f \<and> 0 \<le> sf_size f \<and> sf_size f + sf_chunk f \<le> max_i64"

abbreviation sf_have :: "sparse_file \<Rightarrow> int set" where
  "sf_have f \<equiv> iset (sf_present f)"

abbreviation sf_busy :: "sparse_file \<Rightarrow> int set" where
  "sf_busy f \<equiv> iset (sf_inflight f)"

lemma sf_okD:
  assumes "sf_ok f"
  shows "iset_ok (sf_present f)" and "sf_have f \<subseteq> {0..<sf_size f}"
    and "iset_ok (sf_inflight f)" and "sf_busy f \<subseteq> {0..<sf_size f}"
    and "0 < sf_chunk f" and "0 \<le> sf_size f" and "sf_size f + sf_chunk f \<le> max_i64"
  using assms by (simp_all add: sf_ok_def)

section \<open>Reservations\<close>

text \<open>
  What a reservation of the offsets \<open>R\<close> means: the in-flight set grows by \<open>R\<close>, and the
  ranges handed out are non-empty, at most a chunk long, apart from one another, and make
  up exactly \<open>R\<close>.
\<close>

definition reserved :: "interval_set \<Rightarrow> interval_set \<Rightarrow> interval list \<Rightarrow> int set \<Rightarrow> int \<Rightarrow> bool" where
  "reserved infl infl' ivs R chunk \<longleftrightarrow>
     iset_ok infl' \<and> iset infl' = iset infl \<union> R \<and>
     ivs_apart ivs \<and> iset ivs = R \<and> (\<forall>x\<in>set ivs. iv_end x - iv_start x \<le> chunk)"

lemma reserved_Nil: "iset_ok infl \<Longrightarrow> reserved infl infl [] {} chunk"
  by (simp add: reserved_def)

lemma reserved_append:
  assumes "reserved infl infl1 xs R c" and "reserved infl1 infl2 ys S c"
    and "R \<subseteq> {..<m}" and "S \<subseteq> {m..}"
  shows "reserved infl infl2 (xs @ ys) (R \<union> S) c"
proof -
  have "iv_end x \<le> iv_start y" if x: "x \<in> set xs" and y: "y \<in> set ys" for x y
  proof -
    have "iv_end x - 1 \<in> iset xs" "iv_start y \<in> iset ys"
      using assms(1,2) x y ivs_apart_ends unfolding reserved_def by blast+
    then have "iv_end x - 1 < m" "m \<le> iv_start y" using assms unfolding reserved_def by auto
    then show ?thesis by simp
  qed
  with assms show ?thesis unfolding reserved_def ivs_apart_append by auto
qed

lemma chunk_loop_spec:
  assumes "0 < c" and "0 \<le> p" and "e + c \<le> max_i64" and "iset_ok infl"
  shows "\<exists>infl' ivs. chunk_loop p e c infl out = Some (infl', out @ ivs) \<and>
           reserved infl infl' ivs {p..<e} c"
  using assms
proof (induction "nat (e - p)" arbitrary: p infl out rule: less_induct)
  case less
  show ?case
  proof (cases "p < e")
    case False
    then have "chunk_loop p e c infl out = Some (infl, out @ [])"
      by (simp add: chunk_loop.simps)
    moreover have "reserved infl infl [] {p..<e} c"
      using False less.prems(4) by (simp add: reserved_def)
    ultimately show ?thesis by blast
  next
    case True
    let ?e = "min (p + c) e"
    have nxt: "add64 p c = p + c" using less.prems True by (intro add64_nonneg) auto
    have step: "chunk_loop p e c infl out
        = chunk_loop (p + c) e c (is_add infl p ?e) (out @ [iv p ?e])"
      using True nxt by (subst chunk_loop.simps) (simp add: Let_def)
    have one: "reserved infl (is_add infl p ?e) [iv p ?e] {p..<?e} c"
      using less.prems True by (simp add: reserved_def is_add_ok iset_is_add iv_range_iv)
    obtain infl' ivs where rest: "chunk_loop (p + c) e c (is_add infl p ?e) (out @ [iv p ?e])
          = Some (infl', (out @ [iv p ?e]) @ ivs)" "reserved (is_add infl p ?e) infl' ivs {p + c..<e} c"
      using less.hyps [of "p + c" "is_add infl p ?e" "out @ [iv p ?e]"] less.prems True
      by (auto simp: is_add_ok)
    have "{p..<e} = {p..<?e} \<union> {p + c..<e}" using True less.prems(1) by auto
    moreover have "reserved infl infl' ([iv p ?e] @ ivs) ({p..<?e} \<union> {p + c..<e}) c"
      by (rule reserved_append [OF one rest(2), of "p + c"]) auto
    ultimately have "reserved infl infl' ([iv p ?e] @ ivs) {p..<e} c" by simp
    with step rest(1) show ?thesis by (metis append.assoc)
  qed
qed

lemma sub_loop_spec:
  assumes "0 < c" and "ivs_apart subs" and "iset subs \<subseteq> {0..<n}" and "n + c \<le> max_i64"
    and "iset_ok infl"
  shows "\<exists>infl' ivs. sub_loop subs c infl out = Some (infl', out @ ivs) \<and>
           reserved infl infl' ivs (iset subs) c"
  using assms
proof (induction subs arbitrary: infl out)
  case Nil
  then show ?case using reserved_Nil by auto
next
  case (Cons x xs)
  have b: "0 \<le> iv_start x" "iv_end x \<le> n"
    using ivs_apart_bounds [OF Cons.prems(2,3), of x] by simp_all
  obtain infl1 ivs1 where 1: "chunk_loop (iv_start x) (iv_end x) c infl out = Some (infl1, out @ ivs1)"
      "reserved infl infl1 ivs1 {iv_start x..<iv_end x} c"
    using chunk_loop_spec [of c "iv_start x" "iv_end x" infl out] Cons.prems b by auto
  then have "iset_ok infl1" by (simp add: reserved_def)
  then obtain infl2 ivs2 where 2: "sub_loop xs c infl1 (out @ ivs1) = Some (infl2, (out @ ivs1) @ ivs2)"
      "reserved infl1 infl2 ivs2 (iset xs) c"
    using Cons.IH [of infl1 "out @ ivs1"] Cons.prems by auto
  have "iset xs \<subseteq> {iv_end x..}"
    using Cons.prems(2) by (fastforce simp: iset_def iv_range_def)
  then have "reserved infl infl2 (ivs1 @ ivs2) ({iv_start x..<iv_end x} \<union> iset xs) c"
    by (intro reserved_append [OF 1(2) 2(2), of "iv_end x"]) auto
  then have "reserved infl infl2 (ivs1 @ ivs2) (iset (x # xs)) c" by (simp add: iv_range_def)
  with 1(1) 2(1) show ?case by auto
qed

lemma gap_loop_spec:
  assumes "0 < c" and "ivs_apart gaps" and "iset gaps \<subseteq> {0..<n}" and "n + c \<le> max_i64"
    and "iset_ok infl"
  shows "\<exists>infl' ivs. gap_loop gaps c infl out = Some (infl', out @ ivs) \<and>
           reserved infl infl' ivs (iset gaps - iset infl) c"
  using assms
proof (induction gaps arbitrary: infl out)
  case Nil
  then show ?case using reserved_Nil by auto
next
  case (Cons g gs)
  let ?subs = "is_missing infl (iv_start g) (iv_end g)"
  have subs: "ivs_apart ?subs" "iset ?subs = iv_range g - iset infl"
    using Cons.prems(5) by (simp_all add: is_missing_ok iset_ok_apart iset_is_missing iv_range_def)
  moreover have "iset ?subs \<subseteq> {0..<n}" using subs(2) Cons.prems(3) by auto
  ultimately obtain infl1 ivs1 where 1: "sub_loop ?subs c infl out = Some (infl1, out @ ivs1)"
      "reserved infl infl1 ivs1 (iv_range g - iset infl) c"
    using sub_loop_spec [of c ?subs n infl out] Cons.prems by auto
  then have "iset_ok infl1" "iset infl1 = iset infl \<union> (iv_range g - iset infl)"
    by (simp_all add: reserved_def)
  then obtain infl2 ivs2 where 2: "gap_loop gs c infl1 (out @ ivs1) = Some (infl2, (out @ ivs1) @ ivs2)"
      "reserved infl1 infl2 ivs2 (iset gs - (iset infl \<union> (iv_range g - iset infl))) c"
    using Cons.IH [of infl1 "out @ ivs1"] Cons.prems by auto
  have "iset gs \<subseteq> {iv_end g..}"
    using Cons.prems(2) by (fastforce simp: iset_def iv_range_def)
  then have "reserved infl infl2 (ivs1 @ ivs2)
      ((iv_range g - iset infl) \<union> (iset gs - (iset infl \<union> (iv_range g - iset infl)))) c"
    by (intro reserved_append [OF 1(2) 2(2), of "iv_end g"]) (auto simp: iv_range_def)
  moreover have "(iv_range g - iset infl) \<union> (iset gs - (iset infl \<union> (iv_range g - iset infl)))
      = iset (g # gs) - iset infl" by auto
  ultimately show ?case using 1(1) 2(1) by auto
qed

text \<open>The offsets a reservation may take: within the file, not present, not in flight.\<close>

definition sf_free :: "sparse_file \<Rightarrow> int set" where
  "sf_free f = {0..<sf_size f} - sf_have f - sf_busy f"

lemma reserve_reserved:
  assumes "sf_ok f"
  shows "\<exists>infl ivs. reserve f a b = Some (f\<lparr>sf_inflight := infl\<rparr>, ivs) \<and>
           reserved (sf_inflight f) infl ivs ({a..<b} \<inter> sf_free f) (sf_chunk f)"
proof -
  note ok = sf_okD [OF assms]
  let ?s = "if a < 0 then 0 else a" and ?e = "if b > sf_size f then sf_size f else b"
  show ?thesis
  proof (cases "?s \<ge> ?e")
    case True
    then have "reserve f a b = Some (f\<lparr>sf_inflight := sf_inflight f\<rparr>, [])"
      by (simp add: reserve_def)
    moreover have "{a..<b} \<inter> sf_free f = {}" using True ok(6) by (auto simp: sf_free_def split: if_splits)
    ultimately show ?thesis using reserved_Nil [OF ok(3)] by metis
  next
    case False
    let ?gaps = "is_missing (sf_present f) ?s ?e"
    have gaps: "ivs_apart ?gaps" "iset ?gaps = {?s..<?e} - sf_have f"
      using ivs.missing_ok [OF ok(1)] ivs.missing_eq [OF ok(1)] by (simp_all add: iset_ok_apart)
    then have "iset ?gaps \<subseteq> {0..<sf_size f}" by (auto split: if_splits)
    then obtain infl out where r: "gap_loop ?gaps (sf_chunk f) (sf_inflight f) [] = Some (infl, out)"
        "reserved (sf_inflight f) infl out (iset ?gaps - sf_busy f) (sf_chunk f)"
      using gap_loop_spec [OF ok(5) gaps(1) _ ok(7) ok(3), of "[]"] by auto
    have "iset ?gaps - sf_busy f = {a..<b} \<inter> sf_free f"
      unfolding gaps(2) sf_free_def using ok(6) by auto
    with r False show ?thesis by (auto simp: reserve_def)
  qed
qed

lemma lowest_gap_None:
  assumes "lowest_gap gaps infl = None" and "iset_ok infl"
  shows "iset gaps \<subseteq> iset infl"
  using assms(1)
proof (induction gaps)
  case Nil
  then show ?case by simp
next
  case (Cons g gs)
  then have "is_missing infl (iv_start g) (iv_end g) = []" "iset gs \<subseteq> iset infl"
    by (auto split: list.splits)
  moreover from this(1) have "iv_range g \<subseteq> iset infl"
    using ivs.missing_eq [OF assms(2), of "iv_start g" "iv_end g"] by (simp add: iv_range_def)
  ultimately show ?case by simp
qed

lemma lowest_gap_Some:
  assumes "lowest_gap gaps infl = Some h" and "ivs_apart gaps" and "iset_ok infl"
  shows "iv_start h < iv_end h \<and> iv_range h \<subseteq> iset gaps - iset infl \<and>
         (\<forall>y\<in>iset gaps - iset infl. iv_start h \<le> y)"
  using assms(1,2)
proof (induction gaps)
  case Nil
  then show ?case by simp
next
  case (Cons g gs)
  let ?m = "is_missing infl (iv_start g) (iv_end g)"
  have m: "iset ?m = iv_range g - iset infl"
    using ivs.missing_eq [OF assms(3), of "iv_start g" "iv_end g"] by (simp add: iv_range_def)
  show ?case
  proof (cases ?m)
    case Nil
    with Cons have "iv_start h < iv_end h \<and> iv_range h \<subseteq> iset gs - iset infl \<and>
         (\<forall>y\<in>iset gs - iset infl. iv_start h \<le> y)" by simp
    with m Nil show ?thesis by auto
  next
    case sub: (Cons x xs)
    with Cons.prems(1) have h: "h = x" by simp
    have ok: "iset_ok (x # xs)" using ivs.missing_ok [OF assms(3)] sub by metis
    have "iv_end x \<le> iv_end g" using ivs.missing_range(3) [OF assms(3)] sub by (metis list.set_intros(1))
    moreover have "iv_start x < iv_end x" using ok by simp
    moreover have "iv_end g \<le> y" if "y \<in> iset gs" for y
      using that Cons.prems(2) by (force simp: iset_def iv_range_def)
    moreover have "iv_start x \<le> y" if "y \<in> iv_range g - iset infl" for y
      using iset_least(2) [OF ok, of y] that unfolding m [symmetric] sub by blast
    moreover have "iv_range x \<subseteq> iv_range g - iset infl" using m sub by auto
    ultimately show ?thesis unfolding h by fastforce
  qed
qed

lemma reserveLowest_None:
  assumes "sf_ok f"
  shows "snd (reserveLowest f) = None \<longleftrightarrow> sf_free f = {}"
proof -
  note ok = sf_okD [OF assms]
  let ?gaps = "is_missing (sf_present f) 0 (sf_size f)"
  have gaps: "ivs_apart ?gaps" "iset ?gaps - sf_busy f = sf_free f"
    using ivs.missing_ok [OF ok(1)] ivs.missing_eq [OF ok(1)] by (simp_all add: iset_ok_apart sf_free_def)
  show ?thesis
  proof (cases "lowest_gap ?gaps (sf_inflight f)")
    case None
    then have "sf_free f = {}" using lowest_gap_None [OF None ok(3)] gaps(2) by blast
    with None show ?thesis by (simp add: reserveLowest_def)
  next
    case (Some h)
    then have "iv_start h \<in> sf_free f"
      using lowest_gap_Some [OF Some gaps(1) ok(3)] unfolding gaps(2) by (auto simp: iv_range_def)
    with Some show ?thesis by (auto simp: reserveLowest_def Let_def)
  qed
qed

lemma reserveLowest_Some:
  assumes "sf_ok f" and "reserveLowest f = (f', Some x)"
  shows "f' = f\<lparr>sf_inflight := is_add (sf_inflight f) (iv_start x) (iv_end x)\<rparr>"
    and "iv_start x < iv_end x" and "iv_end x - iv_start x \<le> sf_chunk f"
    and "iv_range x \<subseteq> sf_free f" and "\<forall>y\<in>sf_free f. iv_start x \<le> y"
proof -
  note ok = sf_okD [OF assms(1)]
  let ?gaps = "is_missing (sf_present f) 0 (sf_size f)"
  have gaps: "ivs_apart ?gaps" "iset ?gaps - sf_busy f = sf_free f"
    using ivs.missing_ok [OF ok(1)] ivs.missing_eq [OF ok(1)] by (simp_all add: iset_ok_apart sf_free_def)
  obtain h where h: "lowest_gap ?gaps (sf_inflight f) = Some h"
    using assms(2) by (auto simp: reserveLowest_def split: option.splits)
  from lowest_gap_Some [OF h gaps(1) ok(3)]
  have low: "iv_start h < iv_end h" "iv_range h \<subseteq> sf_free f" "\<forall>y\<in>sf_free f. iv_start h \<le> y"
    unfolding gaps(2) by auto
  then have "iv_start h \<in> sf_free f" by (auto simp: iv_range_def)
  then have "0 \<le> iv_start h" "iv_start h < sf_size f" by (auto simp: sf_free_def)
  then have "add64 (iv_start h) (sf_chunk f) = iv_start h + sf_chunk f"
    using ok(5,7) by (intro add64_nonneg) auto
  with assms(2) h have x: "x = iv (iv_start h) (min (iv_start h + sf_chunk f) (iv_end h))"
    and f': "f' = f\<lparr>sf_inflight := is_add (sf_inflight f) (iv_start x) (iv_end x)\<rparr>"
    by (auto simp: reserveLowest_def Let_def)
  show "f' = f\<lparr>sf_inflight := is_add (sf_inflight f) (iv_start x) (iv_end x)\<rparr>" by (rule f')
  show "iv_start x < iv_end x" "iv_end x - iv_start x \<le> sf_chunk f" "\<forall>y\<in>sf_free f. iv_start x \<le> y"
    using low ok(5) by (auto simp: x)
  show "iv_range x \<subseteq> sf_free f" using low(2) by (auto simp: x iv_range_def)
qed

section \<open>Every operation keeps the invariant\<close>

lemma newSparseFile_ok:
  assumes "newSparseFile ce te sz ch = Inr f" and "0 \<le> sz"
    and "sz + (if ch \<le> 0 then maxFillChunk else ch) \<le> max_i64"
  shows "sf_ok f" and "sf_size f = sz" and "sf_have f = {}" and "sf_busy f = {}"
    and "sf_done f = False" and "sf_closed f = False"
  using assms by (auto simp: newSparseFile_def sf_ok_def maxFillChunk_def Let_def
      split: option.splits if_splits)

lemma reserve_frame:
  assumes "reserve f a b = Some (f', ivs)"
  shows "sf_present f' = sf_present f" and "sf_size f' = sf_size f" and "sf_data f' = sf_data f"
    and "sf_chunk f' = sf_chunk f" and "sf_done f' = sf_done f"
  using assms by (auto simp: reserve_def Let_def split: if_splits option.splits)

lemma reserve_SomeD:
  assumes "sf_ok f" and "reserve f a b = Some (f', ivs)"
  shows "sf_ok f'" and "reserved (sf_inflight f) (sf_inflight f') ivs ({a..<b} \<inter> sf_free f) (sf_chunk f)"
proof -
  obtain infl where f': "f' = f\<lparr>sf_inflight := infl\<rparr>"
      and r: "reserved (sf_inflight f) infl ivs ({a..<b} \<inter> sf_free f) (sf_chunk f)"
    using reserve_reserved [OF assms(1), of a b] assms(2) by auto
  show "reserved (sf_inflight f) (sf_inflight f') ivs ({a..<b} \<inter> sf_free f) (sf_chunk f)"
    using r by (simp_all add: f')
  show "sf_ok f'" using r sf_okD [OF assms(1)] by (auto simp: f' sf_ok_def reserved_def sf_free_def)
qed

lemma reserveLowest_ok:
  assumes "sf_ok f"
  shows "sf_ok (fst (reserveLowest f))"
proof (cases "snd (reserveLowest f)")
  case None
  then have "fst (reserveLowest f) = f" by (auto simp: reserveLowest_def Let_def split: option.splits)
  with assms show ?thesis by simp
next
  case (Some x)
  then have r: "reserveLowest f = (fst (reserveLowest f), Some x)" by (metis prod.collapse)
  note spec = reserveLowest_Some [OF assms r]
  note ok = sf_okD [OF assms]
  have "{iv_start x..<iv_end x} \<subseteq> {0..<sf_size f}"
    using spec(4) unfolding sf_free_def iv_range_def by blast
  then have "iset (is_add (sf_inflight f) (iv_start x) (iv_end x)) \<subseteq> {0..<sf_size f}"
    unfolding ivs.abs_add [OF ok(3)] using ok(4) by (rule Un_least [rotated])
  then show ?thesis
    unfolding spec(1) using ok by (simp add: sf_ok_def ivs.add_ok)
qed

lemma releaseInflight_ok: "sf_ok f \<Longrightarrow> sf_ok (releaseInflight f x)"
  by (auto simp: sf_ok_def releaseInflight_def ivs.remove_ok ivs.abs_remove)

lemma releaseInflight_busy:
  "sf_ok f \<Longrightarrow> sf_busy (releaseInflight f x) = sf_busy f - iv_range x"
  by (simp add: sf_ok_def releaseInflight_def ivs.abs_remove iv_range_def)

lemma writeAt_ok:
  assumes "sf_ok f" and "0 \<le> off" and "off + int (length p) \<le> sf_size f"
  shows "sf_ok (fst (writeAt f p off w))"
    and "sf_have (fst (writeAt f p off w))
         = sf_have f \<union> (if snd (writeAt f p off w) = None then {off..<off + int (length p)} else {})"
proof -
  note ok = sf_okD [OF assms(1)]
  have "add64 off (int (length p)) = off + int (length p)"
    using assms ok(5,7) by (intro add64_nonneg) auto
  then show "sf_ok (fst (writeAt f p off w))"
    and "sf_have (fst (writeAt f p off w))
         = sf_have f \<union> (if snd (writeAt f p off w) = None then {off..<off + int (length p)} else {})"
    using ok assms by (auto simp: writeAt_def sf_ok_def ivs.add_ok ivs.abs_add split: write_result.splits)
qed

lemma writeAt_frame [frame_simps]:
  "sf_size (fst (writeAt f p off w)) = sf_size f"
  "sf_chunk (fst (writeAt f p off w)) = sf_chunk f"
  "sf_inflight (fst (writeAt f p off w)) = sf_inflight f"
  "sf_done (fst (writeAt f p off w)) = sf_done f"
  by (auto simp: writeAt_def split: write_result.splits)

lemma writeAt_data_outside [frame_simps]:
  "x < off \<or> off + int (length p) \<le> x \<Longrightarrow> sf_data (fst (writeAt f p off w)) x = sf_data f x"
  by (auto simp: writeAt_def put_bytes_def split: write_result.splits)

lemma writeAt_data_inside:
  "snd (writeAt f p off w) = None \<Longrightarrow> off \<le> x \<Longrightarrow> x < off + int (length p) \<Longrightarrow>
   sf_data (fst (writeAt f p off w)) x = p ! nat (x - off)"
  by (auto simp: writeAt_def put_bytes_def split: write_result.splits if_splits)

lemma markDone_frame [frame_simps]:
  "sf_ok (markDone f e) = sf_ok f" "sf_present (markDone f e) = sf_present f"
  "sf_inflight (markDone f e) = sf_inflight f" "sf_size (markDone f e) = sf_size f"
  "sf_data (markDone f e) = sf_data f" "sf_done (markDone f e)"
  by (simp_all add: markDone_def sf_ok_def)

lemma closeWriter_frame [frame_simps]:
  "sf_ok (fst (closeWriter f e)) = sf_ok f"
  "sf_present (fst (closeWriter f e)) = sf_present f"
  "sf_inflight (fst (closeWriter f e)) = sf_inflight f"
  "sf_size (fst (closeWriter f e)) = sf_size f"
  "sf_data (fst (closeWriter f e)) = sf_data f"
  by (simp_all add: closeWriter_def sf_ok_def)

lemma complete_iff: "sf_ok f \<Longrightarrow> complete f \<longleftrightarrow> sf_have f = {0..<sf_size f}"
  by (auto simp: complete_def ivs.covers_iff sf_ok_def)

lemma present_byte:
  assumes "sf_ok f" and "0 \<le> off" and "off < sf_size f"
  shows "is_covers (sf_present f) off (add64 off 1) \<longleftrightarrow> off \<in> sf_have f"
proof -
  have "add64 off 1 = off + 1" using sf_okD(5,7) [OF assms(1)] assms(2,3) by (intro add64_nonneg) auto
  moreover have "{off..<off + 1} = {off}" by auto
  ultimately show ?thesis using sf_okD(1) [OF assms(1)] by (simp add: ivs.covers_iff)
qed

section \<open>The chunk counter can wrap around\<close>

lemma add64_mod:
  "add64 p maxFillChunk mod maxFillChunk = p mod maxFillChunk"
proof -
  have "i64 x mod 2 ^ 23 = x mod 2 ^ 23" for x
  proof -
    have "take_bit 23 (signed_take_bit 63 x) = take_bit 23 x"
      by (simp add: take_bit_signed_take_bit)
    then show ?thesis by (simp add: take_bit_eq_mod i64_def)
  qed
  from this [of "p + 2 ^ 23"] show ?thesis by (simp add: add64_def maxFillChunk_def)
qed

lemma chunk_loop_wraps:
  assumes "chunk_loop p e c infl out = Some r" and "e = max_i64" and "c = maxFillChunk"
    and "in_i64 p" and "p mod maxFillChunk = 0"
  shows False
proof -
  have "e = max_i64 \<longrightarrow> c = maxFillChunk \<longrightarrow> in_i64 p \<longrightarrow> p mod maxFillChunk \<noteq> 0"
  proof (rule chunk_loop.raw_induct
      [where P = "\<lambda>p e c infl out r. e = max_i64 \<longrightarrow> c = maxFillChunk \<longrightarrow> in_i64 p \<longrightarrow> p mod maxFillChunk \<noteq> 0", OF _ assms(1)], intro impI notI)
    fix g p e c infl out r
    assume IH: "\<And>p e c infl out r. g p e c infl out = Some r \<Longrightarrow>
        e = max_i64 \<longrightarrow> c = maxFillChunk \<longrightarrow> in_i64 p \<longrightarrow> p mod maxFillChunk \<noteq> 0"
      and eq: "(if p < e then let e' = min (add64 p c) e
          in g (add64 p c) e c (is_add infl p e') (out @ [iv p e']) else Some (infl, out)) = Some r"
      and h: "e = max_i64" "c = maxFillChunk" "in_i64 p" "p mod maxFillChunk = 0"
    have "p \<noteq> max_i64" using h(4) by (auto simp: max_i64_def maxFillChunk_def)
    with h(1,3) have "p < e" by (simp add: in_i64_def)
    with eq have "g (add64 p c) e c (is_add infl p (min (add64 p c) e)) (out @ [iv p (min (add64 p c) e)]) = Some r"
      by (simp add: Let_def)
    from IH [OF this] h show False by (simp add: add64_mod) (simp add: add64_def i64_range)
  qed
  with assms(2-) show False by blast
qed

definition huge_file :: sparse_file where
  "huge_file =
     \<lparr>sf_size = max_i64, sf_chunk = maxFillChunk,
      sf_present = [iv (max_i64 - maxFillChunk) (max_i64 - maxFillChunk + 1)], sf_inflight = [],
      sf_data = (\<lambda>_. 0), sf_closed = False, sf_done = False, sf_err = None\<rparr>"

section \<open>Properties\<close>

text \<open>
  C22. A reservation is exact: \<open>reserve\<close> terminates, hands out ranges that are non-empty,
  at most a chunk long and pairwise disjoint, covers with them exactly the offsets of the
  request that are in the file, not present and not in flight, and adds exactly these to
  the in-flight set.
\<close>

theorem reserve_exact:
  assumes "sf_ok f"
  shows "\<exists>g ivs. reserve f a b = Some (g, ivs) \<and> sf_ok g \<and>
     (\<forall>x\<in>set ivs. iv_start x < iv_end x \<and> iv_end x - iv_start x \<le> sf_chunk f) \<and>
     (\<forall>i k. i < k \<and> k < length ivs \<longrightarrow> iv_range (ivs ! i) \<inter> iv_range (ivs ! k) = {}) \<and>
     iset ivs = {a..<b} \<inter> {0..<sf_size f} - iset (sf_present f) - iset (sf_inflight f) \<and>
     iset (sf_inflight g) = iset (sf_inflight f) \<union> iset ivs \<and> sf_present g = sf_present f"
proof -
  obtain g ivs where r: "reserve f a b = Some (g, ivs)"
    using reserve_reserved [OF assms, of a b] by blast
  from reserve_SomeD [OF assms r] have "sf_ok g"
    and res: "reserved (sf_inflight f) (sf_inflight g) ivs ({a..<b} \<inter> sf_free f) (sf_chunk f)" .
  moreover from res have "\<forall>x\<in>set ivs. iv_start x < iv_end x \<and> iv_end x - iv_start x \<le> sf_chunk f"
    by (simp add: reserved_def ivs_apart_def)
  moreover from res have "\<forall>i k. i < k \<and> k < length ivs \<longrightarrow> iv_range (ivs ! i) \<inter> iv_range (ivs ! k) = {}"
    using ivs_apart_disjoint by (auto simp: reserved_def)
  ultimately show ?thesis
    using r reserve_frame [OF r] by (auto simp: reserved_def sf_free_def)
qed

definition demo_file :: sparse_file where
  "demo_file =
     \<lparr>sf_size = 10, sf_chunk = 3, sf_present = [iv 0 2], sf_inflight = [iv 4 5],
      sf_data = (\<lambda>_. 0), sf_closed = False, sf_done = False, sf_err = None\<rparr>"

lemma demo_file_ok: "sf_ok demo_file"
  by (auto simp: sf_ok_def demo_file_def iv_range_iv max_i64_def)

theorem reserve_exact_witness:
  "\<exists>g ivs. reserve demo_file 1 20 = Some (g, ivs) \<and> iset ivs = {2..<4} \<union> {5..<10}"
proof -
  have "{1..<20} \<inter> {0..<sf_size demo_file} - iset (sf_present demo_file) - iset (sf_inflight demo_file)
      = {2..<4} \<union> {5..<10}"
    by (auto simp: demo_file_def iv_range_iv)
  with reserve_exact [OF demo_file_ok, of 1 20] show ?thesis by metis
qed

text \<open>
  The sequential filler takes the lowest free offset: \<open>reserveLowest\<close> finds nothing
  exactly when every byte is present or in flight; otherwise the range it returns starts at
  the least offset that is neither, holds only such offsets, is not empty and at most a
  chunk long, and is what the in-flight set gains.
\<close>

theorem reserveLowest_least:
  assumes "sf_ok f" and "reserveLowest f = (g, r)"
  shows "(r = None \<longleftrightarrow> {0..<sf_size f} \<subseteq> iset (sf_present f) \<union> iset (sf_inflight f)) \<and>
     (\<forall>x. r = Some x \<longrightarrow>
        iv_start x < iv_end x \<and> iv_end x - iv_start x \<le> sf_chunk f \<and>
        iv_range x \<subseteq> {0..<sf_size f} - iset (sf_present f) - iset (sf_inflight f) \<and>
        (\<forall>y\<in>{0..<sf_size f} - iset (sf_present f) - iset (sf_inflight f). iv_start x \<le> y) \<and>
        iset (sf_inflight g) = iset (sf_inflight f) \<union> iv_range x)"
proof (intro conjI allI impI)
  have "sf_free f = {} \<longleftrightarrow> {0..<sf_size f} \<subseteq> iset (sf_present f) \<union> iset (sf_inflight f)"
    by (auto simp: sf_free_def)
  then show "r = None \<longleftrightarrow> {0..<sf_size f} \<subseteq> iset (sf_present f) \<union> iset (sf_inflight f)"
    using reserveLowest_None [OF assms(1)] assms(2) by simp
next
  fix x assume "r = Some x"
  with assms(2) have r: "reserveLowest f = (g, Some x)" by simp
  note low = reserveLowest_Some [OF assms(1) r]
  show "iv_start x < iv_end x" and "iv_end x - iv_start x \<le> sf_chunk f"
    and "iv_range x \<subseteq> {0..<sf_size f} - iset (sf_present f) - iset (sf_inflight f)"
    using low(2,3,4) by (simp_all add: sf_free_def)
  show "\<forall>y\<in>{0..<sf_size f} - iset (sf_present f) - iset (sf_inflight f). iv_start x \<le> y"
    using low(5) by (simp add: sf_free_def)
  show "iset (sf_inflight g) = iset (sf_inflight f) \<union> iv_range x"
    using sf_okD(3) [OF assms(1)] by (simp add: low(1) ivs.abs_add iv_range_def)
qed

theorem reserveLowest_least_witness:
  "snd (reserveLowest demo_file) = Some (iv 2 4) \<and>
   iset (sf_inflight (fst (reserveLowest demo_file))) = iset (sf_inflight demo_file) \<union> {2..<4}"
proof -
  have r: "reserveLowest demo_file = (fst (reserveLowest demo_file), Some (iv 2 4))"
    by (simp add: reserveLowest_def demo_file_def is_missing_def missing_tail_def add64_def i64_def)
  from reserveLowest_least [OF demo_file_ok r] show ?thesis using r
    by (simp add: iv_range_iv prod_eq_iff)
qed

text \<open>
  What a reader waiting for a byte sees: \<open>waitByte\<close> returns nil exactly for a present
  offset of the file, an offset outside the file fails with EOF, and it goes on waiting
  only while the context is live and the file is not done; once \<open>markDone\<close> has run no
  reader waits, and a missing byte fails with the first error recorded, or with
  ErrUnexpectedEOF when there was none.
\<close>

theorem waitByte_decides:
  assumes "sf_ok f"
  shows "(waitByte f c off = Ready \<longleftrightarrow> 0 \<le> off \<and> off < sf_size f \<and> off \<in> iset (sf_present f)) \<and>
     (off < 0 \<or> sf_size f \<le> off \<longrightarrow> waitByte f c off = Failed EOF) \<and>
     (waitByte f c off = Blocked \<longleftrightarrow>
        0 \<le> off \<and> off < sf_size f \<and> off \<notin> iset (sf_present f) \<and> c = None \<and> \<not> sf_done f) \<and>
     (0 \<le> off \<and> off < sf_size f \<and> off \<notin> iset (sf_present f) \<longrightarrow>
        waitByte (markDone f e) None off =
          Failed (case sf_err f of Some x \<Rightarrow> x
                  | None \<Rightarrow> (case e of Some x \<Rightarrow> x | None \<Rightarrow> UnexpectedEOF)))"
proof (cases "0 \<le> off \<and> off < sf_size f")
  case True
  then have "is_covers (sf_present f) off (add64 off 1) \<longleftrightarrow> off \<in> iset (sf_present f)"
    using present_byte [OF assms] by simp
  with True show ?thesis
    by (auto simp: waitByte_def markDone_def split: option.splits)
next
  case False
  then show ?thesis by (auto simp: waitByte_def)
qed

theorem waitByte_decides_witness:
  "waitByte demo_file None 1 = Ready \<and> waitByte demo_file None 3 = Blocked \<and>
   waitByte (markDone demo_file (Some Canceled)) None 3 = Failed Canceled"
  using waitByte_decides [OF demo_file_ok, of None 1 "Some Canceled"]
    waitByte_decides [OF demo_file_ok, of None 3 "Some Canceled"]
  by (simp add: demo_file_def iv_range_iv)

text \<open>
  The progress figures are exact: the present and in-flight byte counts are the numbers
  of present and in-flight offsets, at most the file's size, and the contiguous count is
  the length of the present prefix, which is the whole size exactly when the file is
  complete.
\<close>

theorem progress_exact:
  assumes "sf_ok f"
  shows "presentBytes (progress f) = int (card (iset (sf_present f))) \<and>
     inflightBytes (progress f) = int (card (iset (sf_inflight f))) \<and>
     presentBytes (progress f) \<le> sf_size f \<and>
     0 \<le> contiguousBytes (progress f) \<and> contiguousBytes (progress f) \<le> presentBytes (progress f) \<and>
     {0..<contiguousBytes (progress f)} \<subseteq> iset (sf_present f) \<and>
     contiguousBytes (progress f) \<notin> iset (sf_present f) \<and>
     (complete f \<longleftrightarrow> contiguousBytes (progress f) = sf_size f)"
proof -
  note ok = sf_okD [OF assms]
  let ?c = "is_runEnd (sf_present f) 0"
  note run = is_runEnd_spec [OF ok(1), of 0]
  have tot: "is_totalBytes (sf_present f) = int (card (sf_have f))"
      "is_totalBytes (sf_inflight f) = int (card (sf_busy f))"
    using is_totalBytes_card [OF ok(1,2)] is_totalBytes_card [OF ok(3,4)] ok(5,7) by simp_all
  have "card (sf_have f) \<le> card {0..<sf_size f}" using ok(2) by (intro card_mono) auto
  then have le: "int (card (sf_have f)) \<le> sf_size f" using ok(6) by simp
  have "card {0..<?c} \<le> card (sf_have f)" using run by (intro card_mono) auto
  then have pre: "?c \<le> int (card (sf_have f))" using run by simp
  have "complete f \<longleftrightarrow> ?c = sf_size f"
  proof
    assume "complete f"
    then have "sf_have f = {0..<sf_size f}" by (simp add: complete_iff [OF assms])
    then have "?c \<notin> {0..<sf_size f}" using run by simp
    then have "sf_size f \<le> ?c" using run by auto
    with pre le show "?c = sf_size f" by simp
  next
    assume "?c = sf_size f"
    then show "complete f" using run ok(2) by (auto simp: complete_iff [OF assms])
  qed
  then show ?thesis using run pre le by (simp add: progress_def tot)
qed

theorem progress_exact_witness:
  "presentBytes (progress demo_file) = 2 \<and> contiguousBytes (progress demo_file) = 2 \<and>
   \<not> complete demo_file"
  using progress_exact [OF demo_file_ok]
  by (simp add: progress_def demo_file_def iv_range_iv)

text \<open>
  The bound on the size in the invariant is needed: for a file of the largest size an
  \<open>int64\<close> holds, a seek whose first byte is present makes the counter of the innermost loop
  of \<open>reserve\<close> wrap around and never reach its end; the call does not return, while it
  holds the mutex and appends to its result.
\<close>

theorem reserve_can_diverge:
  "reserve huge_file (max_i64 - maxFillChunk) (add64 (max_i64 - maxFillChunk) (sf_chunk huge_file)) = None"
proof -
  have add: "add64 (max_i64 - maxFillChunk) maxFillChunk = max_i64"
    by (simp add: add64_def i64_id in_i64_def min_i64_def max_i64_def)
  have "chunk_loop (max_i64 - maxFillChunk + 1) max_i64 maxFillChunk [] [] = None"
  proof (rule ccontr)
    assume "chunk_loop (max_i64 - maxFillChunk + 1) max_i64 maxFillChunk [] [] \<noteq> None"
    then obtain r where "chunk_loop (max_i64 - maxFillChunk + 1) max_i64 maxFillChunk [] [] = Some r" by blast
    from chunk_loop_wraps [OF this] show False
      by (simp add: in_i64_def min_i64_def max_i64_def maxFillChunk_def)
  qed
  moreover have "add64 9223372036846387199 8388608 = 9223372036854775807"
    using add by (simp add: max_i64_def maxFillChunk_def)
  ultimately show ?thesis
    by (simp add: reserve_def huge_file_def add is_missing_def missing_tail_def max_i64_def maxFillChunk_def Let_def)
qed

end
