(* ===== verification/Fill_Jobs.thy ===== *)
theory Fill_Jobs
  imports Sparse_File
begin

text \<open>
  The concurrent filling of sparse files in \<open>server/jobs.go\<close>: \<open>requestFillAt\<close>,
  \<open>runSparse\<close>, \<open>fillRange\<close> and the two HTTP calls they rest on.

  The goroutines that run \<open>fillRange\<close> are the workers of a system; a step of the system is
  one turn of one goroutine between two points where others can intervene (taking a slot of
  \<open>fillSem\<close>, opening the upstream, one iteration of the read loop, giving the slot back,
  the deferred \<open>releaseInflight\<close>). Jobs are numbered by instance: \<open>fs_files s j\<close> is the
  sparse file of job \<open>j\<close>, and the slots are shared by all jobs, as \<open>fillSem\<close> is a field of
  the \<open>JobManager\<close>. A context may end at any time, so a step that looks at \<open>ctx.Err()\<close> or
  waits on \<open>ctx.Done()\<close> takes what it finds as an argument.
\<close>

section \<open>The upstream requests\<close>

definition downloadChunkSize :: int where
  "downloadChunkSize = 256 * 1024"

definition maxConcurrentFills :: nat where
  "maxConcurrentFills = 3"

text \<open>The statuses \<open>httpFetchRange\<close> accepts (its \<open>Range\<close> header is in the theory Http_Range).\<close>

definition fetch_status_ok :: "int \<Rightarrow> bool" where
  "fetch_status_ok st \<longleftrightarrow> \<not> (st \<noteq> 200 \<and> st \<noteq> 206)"

text \<open>
  Where the body of the answer starts, by the meaning of the two statuses in HTTP: a 206
  carries the requested range, a 200 the whole representation.
\<close>

definition body_base :: "int \<Rightarrow> int \<Rightarrow> int" where
  "body_base st start = (if st = 206 then start else 0)"

section \<open>Workers\<close>

text \<open>
  The phases of \<open>fillRange\<close>: waiting for a slot, opening the upstream, in the read loop,
  returning (the slot still taken), and the deferred release of the range.
\<close>

datatype phase = Queued | Opening | Copying | Closing | Leaving

record worker =
  w_job :: nat
  w_driver :: bool
  w_iv :: interval
  w_pos :: int
  w_base :: int
  w_phase :: phase
  w_err :: "go_error option"

record fill_sys =
  fs_files :: "nat \<Rightarrow> sparse_file option"
  fs_workers :: "nat \<Rightarrow> worker option"
  fs_next :: nat
  fs_slots :: nat

definition init_fill :: fill_sys where
  "init_fill = \<lparr>fs_files = (\<lambda>_. None), fs_workers = (\<lambda>_. None), fs_next = 0, fs_slots = 0\<rparr>"

text \<open>A goroutine that enters \<open>fillRange\<close> with its reserved range.\<close>

definition new_worker :: "nat \<Rightarrow> bool \<Rightarrow> interval \<Rightarrow> worker" where
  "new_worker j drv it =
     \<lparr>w_job = j, w_driver = drv, w_iv = it, w_pos = iv_start it, w_base = iv_start it,
      w_phase = Queued, w_err = None\<rparr>"

text \<open>One goroutine for each range, in order.\<close>

definition spawn :: "nat \<Rightarrow> bool \<Rightarrow> interval list \<Rightarrow> fill_sys \<Rightarrow> fill_sys" where
  "spawn j drv ivs s =
     s\<lparr>fs_workers :=
         (\<lambda>i. if fs_next s \<le> i \<and> i < fs_next s + length ivs
              then Some (new_worker j drv (ivs ! (i - fs_next s)))
              else fs_workers s i),
       fs_next := fs_next s + length ivs\<rparr>"

abbreviation put_file :: "nat \<Rightarrow> sparse_file \<Rightarrow> fill_sys \<Rightarrow> fill_sys" where
  "put_file j f s \<equiv> s\<lparr>fs_files := (fs_files s)(j \<mapsto> f)\<rparr>"

abbreviation put_worker :: "nat \<Rightarrow> worker \<Rightarrow> fill_sys \<Rightarrow> fill_sys" where
  "put_worker i w s \<equiv> s\<lparr>fs_workers := (fs_workers s)(i \<mapsto> w)\<rparr>"

section \<open>The operations\<close>

text \<open>A seek: a fetch for each gap of the chunk at \<open>off\<close>.\<close>

definition requestFillAt :: "nat \<Rightarrow> int \<Rightarrow> fill_sys \<Rightarrow> fill_sys option" where
  "requestFillAt j off s =
     (case fs_files s j of
        None \<Rightarrow> Some s
      | Some f \<Rightarrow>
          (case reserve f off (add64 off (sf_chunk f)) of
             None \<Rightarrow> None
           | Some (f', ivs) \<Rightarrow> Some (spawn j False ivs (put_file j f' s))))"

text \<open>
  One turn of the loop of \<open>runSparse\<close>, once the previous \<open>fillRange\<close> of the driver has
  returned: leave the loop, wait for progress, or reserve the lowest gap and fill it.
\<close>

datatype driver_turn = Stop | Wait | Fill fill_sys

definition driverTurn :: "nat \<Rightarrow> go_error option \<Rightarrow> sparse_file \<Rightarrow> fill_sys \<Rightarrow> driver_turn" where
  "driverTurn j ctx_err f s =
     (if ctx_err = None \<and> \<not> complete f
      then case reserveLowest f of
             (f', None) \<Rightarrow> Wait
           | (f', Some it) \<Rightarrow> Fill (spawn j True [it] (put_file j f' s))
      else Stop)"

text \<open>
  The end of \<open>runSparse\<close>: the first error of the driver, else an error when bytes are
  missing. \<open>f\<close> is the file after \<open>closeWriter\<close>.
\<close>

definition sparseResult ::
  "go_error option \<Rightarrow> go_error option \<Rightarrow> sparse_file \<Rightarrow> go_error option" where
  "sparseResult first_err ctx_err f =
     (case first_err of Some e \<Rightarrow> Some e
      | None \<Rightarrow>
          (if \<not> complete f then
             (case ctx_err of Some e \<Rightarrow> Some e
              | None \<Rightarrow> Some (Msg ''sparse download incomplete''))
           else None))"

text \<open>
  One iteration of the read loop of \<open>fillRange\<close>: \<open>bs\<close> and \<open>rerr\<close> are what
  \<open>reader.Read\<close> returns, \<open>wr\<close> what the file system answers to a write.
\<close>

definition returning :: "go_error option \<Rightarrow> worker \<Rightarrow> worker" where
  "returning e w = w\<lparr>w_phase := Closing, w_err := e\<rparr>"

definition readTurn ::
  "sparse_file \<Rightarrow> worker \<Rightarrow> go_error option \<Rightarrow> byte list \<Rightarrow> go_error option \<Rightarrow> write_result \<Rightarrow>
   sparse_file \<times> worker" where
  "readTurn f w ctx_err bs rerr wr =
     (if \<not> w_pos w < iv_end (w_iv w) then (f, returning None w)
      else case ctx_err of
        Some e \<Rightarrow> (f, returning (Some e) w)
      | None \<Rightarrow>
          (let n = int (length bs);
               (f1, werr, w1) =
                 (if n > 0 then
                    (let m = (if add64 (w_pos w) n > iv_end (w_iv w)
                              then sub64 (iv_end (w_iv w)) (w_pos w) else n);
                         (f', e) = writeAt f (take (nat m) bs) (w_pos w) wr
                     in (f', e, w\<lparr>w_pos := add64 (w_pos w) m\<rparr>))
                  else (f, None, w))
           in case werr of
                Some e \<Rightarrow> (f1, returning (Some e) w)
              | None \<Rightarrow>
                  (case rerr of
                     None \<Rightarrow> (f1, w1)
                   | Some e \<Rightarrow> if e = EOF then (f1, returning None w1)
                               else (f1, returning (Some e) w1))))"

section \<open>The steps of the system\<close>

text \<open>
  \<open>U j x\<close> is byte \<open>x\<close> of the upstream of job \<open>j\<close>. The flag \<open>honest\<close> restricts the
  runs to upstreams that answer a range request with a 206 and never with a 200.
\<close>

inductive fill_step :: "(nat \<Rightarrow> int \<Rightarrow> byte) \<Rightarrow> bool \<Rightarrow> fill_sys \<Rightarrow> fill_sys \<Rightarrow> bool"
  for U :: "nat \<Rightarrow> int \<Rightarrow> byte" and honest :: bool
where
  begin_job:
    "fs_files s j = None \<Longrightarrow> newSparseFile None None sz ch = Inr f \<Longrightarrow> 0 < sz \<Longrightarrow>
     sz + sf_chunk f \<le> max_i64 \<Longrightarrow> sz + downloadChunkSize \<le> max_i64 \<Longrightarrow>
     fill_step U honest s (put_file j f s)"
| seek:
    "requestFillAt j off s = Some t \<Longrightarrow> fill_step U honest s t"
| drive:
    "fs_files s j = Some f \<Longrightarrow>
     (\<And>i w. fs_workers s i = Some w \<Longrightarrow> w_job w = j \<Longrightarrow> \<not> w_driver w) \<Longrightarrow>
     driverTurn j ctx_err f s = Fill t \<Longrightarrow> fill_step U honest s t"
| acquire:
    "fs_workers s i = Some w \<Longrightarrow> w_phase w = Queued \<Longrightarrow> fs_slots s < maxConcurrentFills \<Longrightarrow>
     fill_step U honest s ((put_worker i (w\<lparr>w_phase := Opening\<rparr>) s)\<lparr>fs_slots := Suc (fs_slots s)\<rparr>)"
| give_up:
    "fs_workers s i = Some w \<Longrightarrow> w_phase w = Queued \<Longrightarrow>
     fill_step U honest s (put_worker i (w\<lparr>w_phase := Leaving, w_err := Some ctx_err\<rparr>) s)"
| open_ok:
    "fs_workers s i = Some w \<Longrightarrow> w_phase w = Opening \<Longrightarrow> fetch_status_ok st \<Longrightarrow>
     (honest \<longrightarrow> st = 206) \<Longrightarrow>
     fill_step U honest s
       (put_worker i (w\<lparr>w_phase := Copying, w_base := body_base st (iv_start (w_iv w))\<rparr>) s)"
| open_fails:
    "fs_workers s i = Some w \<Longrightarrow> w_phase w = Opening \<Longrightarrow>
     fill_step U honest s (put_worker i (returning (Some e) w) s)"
| read:
    "fs_workers s i = Some w \<Longrightarrow> w_phase w = Copying \<Longrightarrow> fs_files s (w_job w) = Some f \<Longrightarrow>
     int (length bs) \<le> downloadChunkSize \<Longrightarrow>
     (\<forall>k<length bs. bs ! k = U (w_job w) (w_base w + (w_pos w - iv_start (w_iv w)) + int k)) \<Longrightarrow>
     readTurn f w ctx_err bs rerr wr = (f', w') \<Longrightarrow>
     fill_step U honest s (put_worker i w' (put_file (w_job w) f' s))"
| free_slot:
    "fs_workers s i = Some w \<Longrightarrow> w_phase w = Closing \<Longrightarrow>
     fill_step U honest s ((put_worker i (w\<lparr>w_phase := Leaving\<rparr>) s)\<lparr>fs_slots := fs_slots s - 1\<rparr>)"
| leave:
    "fs_workers s i = Some w \<Longrightarrow> w_phase w = Leaving \<Longrightarrow> fs_files s (w_job w) = Some f \<Longrightarrow>
     fill_step U honest s
       ((put_file (w_job w) (releaseInflight f (w_iv w)) s)\<lparr>fs_workers := (fs_workers s)(i := None)\<rparr>)"
| close_file:
    "fs_files s j = Some f \<Longrightarrow> fill_step U honest s (put_file j (fst (closeWriter f e)) s)"
| end_job:
    "fs_files s j = Some f \<Longrightarrow> fill_step U honest s (put_file j (markDone f e) s)"

inductive fill_reach :: "(nat \<Rightarrow> int \<Rightarrow> byte) \<Rightarrow> bool \<Rightarrow> fill_sys \<Rightarrow> bool"
  for U :: "nat \<Rightarrow> int \<Rightarrow> byte" and honest :: bool
where
  fill_init: "fill_reach U honest init_fill"
| fill_next: "fill_reach U honest s \<Longrightarrow> fill_step U honest s t \<Longrightarrow> fill_reach U honest t"

section \<open>The invariant of the system\<close>

text \<open>
  The claim of worker \<open>i\<close> on the file of job \<open>j\<close>: the offsets it has reserved. The
  in-flight set of a file is the union of the claims, and the claims are apart.
\<close>

definition claim :: "fill_sys \<Rightarrow> nat \<Rightarrow> nat \<Rightarrow> int set" where
  "claim s j i =
     (case fs_workers s i of
        None \<Rightarrow> {}
      | Some w \<Rightarrow> if w_job w = j then iv_range (w_iv w) else {})"

definition holders :: "fill_sys \<Rightarrow> nat set" where
  "holders s = {i. \<exists>w. fs_workers s i = Some w \<and> w_phase w \<in> {Opening, Copying, Closing}}"

definition worker_ok :: "bool \<Rightarrow> fill_sys \<Rightarrow> worker \<Rightarrow> bool" where
  "worker_ok honest s w \<longleftrightarrow>
     (\<exists>f. fs_files s (w_job w) = Some f \<and> iv_range (w_iv w) \<subseteq> {0..<sf_size f} \<and>
          {w_pos w..<iv_end (w_iv w)} \<inter> sf_have f = {}) \<and>
     iv_start (w_iv w) < iv_end (w_iv w) \<and>
     iv_start (w_iv w) \<le> w_pos w \<and> w_pos w \<le> iv_end (w_iv w) \<and>
     (honest \<longrightarrow> w_base w = iv_start (w_iv w))"

definition fill_inv :: "(nat \<Rightarrow> int \<Rightarrow> byte) \<Rightarrow> bool \<Rightarrow> fill_sys \<Rightarrow> bool" where
  "fill_inv U honest s \<longleftrightarrow>
     (\<forall>i. fs_next s \<le> i \<longrightarrow> fs_workers s i = None) \<and>
     (\<forall>j f. fs_files s j = Some f \<longrightarrow>
        sf_ok f \<and> sf_size f + downloadChunkSize \<le> max_i64 \<and>
        sf_busy f = (\<Union>i. claim s j i) \<and>
        (honest \<longrightarrow> (\<forall>x\<in>sf_have f. sf_data f x = U j x))) \<and>
     (\<forall>i w. fs_workers s i = Some w \<longrightarrow> worker_ok honest s w) \<and>
     (\<forall>j i k. i \<noteq> k \<longrightarrow> claim s j i \<inter> claim s j k = {}) \<and>
     fs_slots s = card (holders s) \<and> fs_slots s \<le> maxConcurrentFills"

lemma fill_invD:
  assumes "fill_inv U honest s"
  shows "fs_next s \<le> i \<Longrightarrow> fs_workers s i = None"
    and "fs_files s j = Some f \<Longrightarrow> sf_ok f"
    and "fs_files s j = Some f \<Longrightarrow> sf_size f + downloadChunkSize \<le> max_i64"
    and "fs_files s j = Some f \<Longrightarrow> sf_busy f = (\<Union>i. claim s j i)"
    and "fs_files s j = Some f \<Longrightarrow> honest \<Longrightarrow> x \<in> sf_have f \<Longrightarrow> sf_data f x = U j x"
    and "fs_workers s i = Some w \<Longrightarrow> worker_ok honest s w"
    and "i \<noteq> k \<Longrightarrow> claim s j i \<inter> claim s j k = {}"
    and "fs_slots s = card (holders s)" and "fs_slots s \<le> maxConcurrentFills"
  using assms by (auto simp: fill_inv_def)

lemma fill_inv_init: "fill_inv U honest init_fill"
  by (simp add: fill_inv_def init_fill_def claim_def holders_def)

lemma holders_finite:
  assumes "fill_inv U honest s"
  shows "finite (holders s)"
proof (rule finite_subset)
  show "holders s \<subseteq> {..<fs_next s}"
    using fill_invD(1) [OF assms] by (force simp: holders_def not_le [symmetric])
qed simp

text \<open>
  A step that moves one worker to another phase: its range, its job and its position stay,
  only the slots and its base may change.
\<close>

lemma fill_inv_phase:
  assumes inv: "fill_inv U honest s" and w: "fs_workers s i = Some w"
    and same: "w_job w' = w_job w" "w_iv w' = w_iv w" "w_pos w' = w_pos w"
    and base: "honest \<longrightarrow> w_base w' = iv_start (w_iv w)"
    and slots: "n = card (holders (put_worker i w' s))" "n \<le> maxConcurrentFills"
  shows "fill_inv U honest ((put_worker i w' s)\<lparr>fs_slots := n\<rparr>)"
proof -
  have claims: "claim (put_worker i w' s\<lparr>fs_slots := n\<rparr>) = claim s"
    using w same by (auto simp: claim_def fun_eq_iff)
  have "holders (put_worker i w' s\<lparr>fs_slots := n\<rparr>) = holders (put_worker i w' s)"
    by (simp add: holders_def)
  moreover have "worker_ok honest (put_worker i w' s\<lparr>fs_slots := n\<rparr>) v"
    if "fs_workers (put_worker i w' s\<lparr>fs_slots := n\<rparr>) k = Some v" for k v
    using that fill_invD(6) [OF inv, of k v] fill_invD(6) [OF inv w] same base
    by (auto simp: worker_ok_def split: if_splits)
  ultimately show ?thesis
    using inv slots w unfolding fill_inv_def claims by auto
qed

lemma holders_put:
  "holders (put_worker i w' s) =
     (if w_phase w' \<in> {Opening, Copying, Closing} then insert i (holders s) else holders s - {i})"
  by (auto simp: holders_def)

lemma holder_iff:
  "fs_workers s i = Some w \<Longrightarrow> i \<in> holders s \<longleftrightarrow> w_phase w \<in> {Opening, Copying, Closing}"
  by (simp add: holders_def)

text \<open>A step that takes or gives back no slot.\<close>

lemma fill_inv_phase':
  assumes inv: "fill_inv U honest s" and w: "fs_workers s i = Some w"
    and same: "w_job w' = w_job w" "w_iv w' = w_iv w" "w_pos w' = w_pos w"
    and base: "honest \<longrightarrow> w_base w' = iv_start (w_iv w)"
    and hold: "w_phase w' \<in> {Opening, Copying, Closing} \<longleftrightarrow> w_phase w \<in> {Opening, Copying, Closing}"
  shows "fill_inv U honest (put_worker i w' s)"
proof -
  have "holders (put_worker i w' s) = holders s"
    using holder_iff [OF w] hold by (auto simp: holders_put)
  then have "fill_inv U honest ((put_worker i w' s)\<lparr>fs_slots := fs_slots s\<rparr>)"
    using fill_invD(8,9) [OF inv] by (intro fill_inv_phase [OF inv w same base]) auto
  moreover have "(put_worker i w' s)\<lparr>fs_slots := fs_slots s\<rparr> = put_worker i w' s" by simp
  ultimately show ?thesis by simp
qed

text \<open>A step that changes only flags of one file.\<close>

lemma fill_inv_file:
  assumes inv: "fill_inv U honest s" and f: "fs_files s j = Some f" and ok: "sf_ok f'"
    and same: "sf_present f' = sf_present f" "sf_inflight f' = sf_inflight f"
      "sf_size f' = sf_size f" "sf_data f' = sf_data f"
  shows "fill_inv U honest (put_file j f' s)"
proof -
  have claims: "claim (put_file j f' s) = claim s" by (simp add: claim_def fun_eq_iff)
  have hold: "holders (put_file j f' s) = holders s" by (simp add: holders_def)
  have "worker_ok honest (put_file j f' s) w" if "fs_workers s k = Some w" for k w
    using fill_invD(6) [OF inv that] f same by (auto simp: worker_ok_def)
  moreover have "sf_size g + downloadChunkSize \<le> max_i64 \<and> sf_ok g \<and> sf_busy g = (\<Union>i. claim s k i) \<and>
      (honest \<longrightarrow> (\<forall>x\<in>sf_have g. sf_data g x = U k x))"
    if "fs_files (put_file j f' s) k = Some g" for k g
    using that fill_invD(2-5) [OF inv, of k] fill_invD(2-5) [OF inv f] ok same
    by (cases "k = j") auto
  ultimately show ?thesis
    using inv unfolding fill_inv_def claims hold by auto
qed

lemma claim_no_file:
  assumes "fill_inv U honest s" and "fs_files s j = None"
  shows "claim s j i = {}"
  using fill_invD(6) [OF assms(1), of i] assms(2)
  by (auto simp: claim_def worker_ok_def split: option.splits)

lemma fill_inv_begin:
  assumes inv: "fill_inv U honest s" and none: "fs_files s j = None"
    and f: "sf_ok f" "sf_have f = {}" "sf_busy f = {}" "sf_size f + downloadChunkSize \<le> max_i64"
  shows "fill_inv U honest (put_file j f s)"
proof -
  have claims: "claim (put_file j f s) = claim s" by (simp add: claim_def fun_eq_iff)
  have hold: "holders (put_file j f s) = holders s" by (simp add: holders_def)
  have "worker_ok honest (put_file j f s) w" if "fs_workers s k = Some w" for k w
    using fill_invD(6) [OF inv that] none by (auto simp: worker_ok_def)
  moreover have "sf_size g + downloadChunkSize \<le> max_i64 \<and> sf_ok g \<and> sf_busy g = (\<Union>i. claim s k i) \<and>
      (honest \<longrightarrow> (\<forall>x\<in>sf_have g. sf_data g x = U k x))"
    if "fs_files (put_file j f s) k = Some g" for k g
    using that fill_invD(2-5) [OF inv, of k] claim_no_file [OF inv none] f
    by (cases "k = j") auto
  ultimately show ?thesis
    using inv unfolding fill_inv_def claims hold by auto
qed

text \<open>New workers for ranges that were free: their claims are new and apart.\<close>

definition new_claim :: "nat \<Rightarrow> interval list \<Rightarrow> nat \<Rightarrow> int set" where
  "new_claim n ivs i = (if n \<le> i \<and> i < n + length ivs then iv_range (ivs ! (i - n)) else {})"

lemma new_claim_Union: "(\<Union>i. new_claim n ivs i) = iset ivs"
proof -
  have "{n..<n + length ivs} = (+) n ` {..<length ivs}"
    by (simp add: lessThan_atLeast0 image_add_atLeastLessThan add.commute)
  then have "(\<Union>i\<in>{n..<n + length ivs}. iv_range (ivs ! (i - n))) = iset ivs"
    by (simp add: iset_conv_nth)
  moreover have "(\<Union>i. new_claim n ivs i) = (\<Union>i\<in>{n..<n + length ivs}. iv_range (ivs ! (i - n)))"
    by (auto simp: new_claim_def split: if_splits)
  ultimately show ?thesis by simp
qed

lemma new_claim_sub: "new_claim n ivs i \<subseteq> iset ivs"
  using new_claim_Union [of n ivs] by auto

lemma new_claim_apart:
  assumes "ivs_apart ivs" and "i \<noteq> k"
  shows "new_claim n ivs i \<inter> new_claim n ivs k = {}"
proof -
  have apart: "iv_range (ivs ! a) \<inter> iv_range (ivs ! b) = {}"
    if "a \<noteq> b" "a < length ivs" "b < length ivs" for a b
    using ivs_apart_disjoint [OF assms(1), of a b] ivs_apart_disjoint [OF assms(1), of b a] that
    by (cases "a < b") (auto simp: Int_commute)
  show ?thesis
  proof (cases "n \<le> i \<and> i < n + length ivs \<and> n \<le> k \<and> k < n + length ivs")
    case True
    with assms(2) have "i - n \<noteq> k - n" "i - n < length ivs" "k - n < length ivs" by linarith+
    from apart [OF this] show ?thesis by (simp add: new_claim_def)
  qed (auto simp: new_claim_def)
qed

lemma claim_spawn:
  assumes "fill_inv U honest s"
  shows "claim (spawn j drv ivs (put_file j f s)) k i =
    claim s k i \<union> (if k = j then new_claim (fs_next s) ivs i else {})"
  using fill_invD(1) [OF assms, of i]
  by (auto simp: claim_def spawn_def new_worker_def new_claim_def)

lemma claim_spawn_Union:
  assumes "fill_inv U honest s"
  shows "(\<Union>i. claim (spawn j drv ivs (put_file j f s)) k i)
         = (\<Union>i. claim s k i) \<union> (if k = j then iset ivs else {})"
  using new_claim_Union [of "fs_next s" ivs] by (simp add: claim_spawn [OF assms] UN_Un_distrib)

lemma fill_inv_spawn:
  assumes inv: "fill_inv U honest s" and f: "fs_files s j = Some f" and ok: "sf_ok f'"
    and same: "sf_present f' = sf_present f" "sf_size f' = sf_size f" "sf_data f' = sf_data f"
    and busy: "sf_busy f' = sf_busy f \<union> iset ivs"
    and ivs: "ivs_apart ivs" "iset ivs \<subseteq> sf_free f"
  shows "fill_inv U honest (spawn j drv ivs (put_file j f' s))"
proof -
  let ?t = "spawn j drv ivs (put_file j f' s)" and ?n = "fs_next s"
  have old: "claim s k i = {}" "fs_workers s i = None" if "?n \<le> i" for i k
    using fill_invD(1) [OF inv that] by (simp_all add: claim_def)
  have files: "fs_files ?t = (fs_files s)(j \<mapsto> f')" by (simp add: spawn_def)
  have hold: "holders ?t = holders s"
    using old(2) by (auto simp: holders_def spawn_def new_worker_def)
  have range: "iv_range (ivs ! k) \<subseteq> sf_free f" "iv_start (ivs ! k) < iv_end (ivs ! k)"
    if "k < length ivs" for k
    using that ivs(1) iset_nth [OF that] ivs(2) by (auto simp: ivs_apart_def)
  have "worker_ok honest ?t w" if "fs_workers ?t i = Some w" for i w
  proof (cases "?n \<le> i \<and> i < ?n + length ivs")
    case True
    then have w: "w = new_worker j drv (ivs ! (i - ?n))" and k: "i - ?n < length ivs"
      using that by (auto simp: spawn_def)
    have "iv_range (ivs ! (i - ?n)) \<subseteq> {0..<sf_size f}" "iv_range (ivs ! (i - ?n)) \<inter> sf_have f = {}"
      using range(1) [OF k] unfolding sf_free_def by blast+
    with range(2) [OF k] same show ?thesis
      unfolding w by (simp add: worker_ok_def files new_worker_def iv_range_def)
  next
    case False
    then have "fs_workers s i = Some w" using that by (simp add: spawn_def split: if_splits)
    from fill_invD(6) [OF inv this] same f show ?thesis by (auto simp: worker_ok_def files)
  qed
  moreover have "sf_size g + downloadChunkSize \<le> max_i64 \<and> sf_ok g \<and> sf_busy g = (\<Union>i. claim ?t k i) \<and>
      (honest \<longrightarrow> (\<forall>x\<in>sf_have g. sf_data g x = U k x))"
    if "fs_files ?t k = Some g" for k g
    using that fill_invD(2-5) [OF inv, of k] fill_invD(2-5) [OF inv f] ok same busy
    unfolding files claim_spawn_Union [OF inv] by (cases "k = j") auto
  moreover have "claim ?t k i \<inter> claim ?t k l = {}" if "i \<noteq> l" for k i l
  proof -
    have old_new: "claim s j a \<inter> new_claim ?n ivs b = {}" for a b
      using fill_invD(4) [OF inv f] new_claim_sub [of ?n ivs b] ivs(2) by (auto simp: sf_free_def)
    show ?thesis
      unfolding claim_spawn [OF inv]
      using fill_invD(7) [OF inv that, of k] new_claim_apart [OF ivs(1) that, of ?n]
        old_new [of i l] old_new [of l i]
      by (auto simp: disjoint_iff)
  qed
  moreover have "fs_workers ?t i = None" if "fs_next ?t \<le> i" for i
    using that old(2) by (simp add: spawn_def)
  ultimately show ?thesis
    using fill_invD(8,9) [OF inv] unfolding fill_inv_def hold by (auto simp: spawn_def)
qed

text \<open>One iteration of the read loop: \<open>m\<close> bytes become present, at the worker's position.\<close>

definition read_effect :: "sparse_file \<Rightarrow> worker \<Rightarrow> byte list \<Rightarrow> int \<Rightarrow> sparse_file \<Rightarrow> worker \<Rightarrow> bool" where
  "read_effect f w bs m f' w' \<longleftrightarrow>
     0 \<le> m \<and> m \<le> int (length bs) \<and> w_pos w + m \<le> iv_end (w_iv w) \<and>
     w_job w' = w_job w \<and> w_iv w' = w_iv w \<and> w_base w' = w_base w \<and> w_driver w' = w_driver w \<and>
     w_pos w' = w_pos w + m \<and> w_phase w' \<in> {w_phase w, Closing} \<and>
     sf_ok f' \<and> sf_size f' = sf_size f \<and> sf_inflight f' = sf_inflight f \<and>
     sf_have f' = sf_have f \<union> {w_pos w..<w_pos w + m} \<and>
     (\<forall>x. x < w_pos w \<or> iv_end (w_iv w) \<le> x \<longrightarrow> sf_data f' x = sf_data f x) \<and>
     (\<forall>x. w_pos w \<le> x \<and> x < w_pos w + m \<longrightarrow> sf_data f' x = bs ! nat (x - w_pos w))"

lemma read_effect_none:
  "sf_ok f \<Longrightarrow> w_pos w \<le> iv_end (w_iv w) \<Longrightarrow> read_effect f w bs 0 f (returning e w)"
  "sf_ok f \<Longrightarrow> w_pos w \<le> iv_end (w_iv w) \<Longrightarrow> read_effect f w bs 0 f w"
  by (auto simp: read_effect_def returning_def)

lemma read_effect_write:
  assumes ok: "sf_ok f" and pos: "0 \<le> w_pos w" "w_pos w < iv_end (w_iv w)" "iv_end (w_iv w) \<le> sf_size f"
    and m: "0 \<le> m" "m \<le> int (length bs)" "w_pos w + m \<le> iv_end (w_iv w)"
    and wr: "writeAt f (take (nat m) bs) (w_pos w) wr = (f', e)"
  shows "e = None \<Longrightarrow> read_effect f w bs m f' (w\<lparr>w_pos := w_pos w + m\<rparr>)"
    and "e = None \<Longrightarrow> read_effect f w bs m f' (returning x (w\<lparr>w_pos := w_pos w + m\<rparr>))"
    and "e = Some y \<Longrightarrow> read_effect f w bs 0 f' (returning x w)"
proof -
  have len: "int (length (take (nat m) bs)) = m" using m by simp
  have f': "f' = fst (writeAt f (take (nat m) bs) (w_pos w) wr)"
    and e: "e = snd (writeAt f (take (nat m) bs) (w_pos w) wr)" by (simp_all add: wr)
  have fit: "w_pos w + int (length (take (nat m) bs)) \<le> sf_size f" using len m(3) pos(3) by simp
  note eff = writeAt_ok [OF ok pos(1) fit] writeAt_frame writeAt_data_outside
  have out: "sf_data f' x = sf_data f x" if "x < w_pos w \<or> iv_end (w_iv w) \<le> x" for x
    unfolding f' by (rule writeAt_data_outside) (use that len m(3) in auto)
  have ins: "sf_data f' x = bs ! nat (x - w_pos w)" if "e = None" "w_pos w \<le> x" "x < w_pos w + m" for x
    using writeAt_data_inside [of f "take (nat m) bs" "w_pos w" wr x] that len m
    unfolding f' e by simp
  show "e = None \<Longrightarrow> read_effect f w bs m f' (w\<lparr>w_pos := w_pos w + m\<rparr>)"
    using m eff(1,2) [where w = wr] eff(3,5) len out ins
    by (simp add: read_effect_def f' e del: int_nat_eq)
  show "e = None \<Longrightarrow> read_effect f w bs m f' (returning x (w\<lparr>w_pos := w_pos w + m\<rparr>))"
    using m eff(1,2) [where w = wr] eff(3,5) len out ins
    by (simp add: read_effect_def returning_def f' e del: int_nat_eq)
  show "e = Some y \<Longrightarrow> read_effect f w bs 0 f' (returning x w)"
    using m eff(1,2) [where w = wr] eff(3,5) len out pos
    by (auto simp: read_effect_def returning_def f' e)
qed

lemma readTurn_effect:
  assumes ok: "sf_ok f" and pos: "0 \<le> w_pos w" "w_pos w \<le> iv_end (w_iv w)" "iv_end (w_iv w) \<le> sf_size f"
    and len: "int (length bs) \<le> downloadChunkSize" and size: "sf_size f + downloadChunkSize \<le> max_i64"
    and turn: "readTurn f w c bs rerr wr = (f', w')"
  shows "\<exists>m. read_effect f w bs m f' w'"
proof (cases "\<not> w_pos w < iv_end (w_iv w) \<or> c \<noteq> None \<or> bs = []")
  case True
  then have "f' = f \<and> (w' = w \<or> (\<exists>e. w' = returning e w))"
    using turn by (auto simp: readTurn_def Let_def split: if_splits option.splits)
  then show ?thesis using read_effect_none [OF ok pos(2)] by blast
next
  case False
  then have lt: "w_pos w < iv_end (w_iv w)" and c: "c = None" and bs: "bs \<noteq> []" by auto
  let ?n = "int (length bs)"
  let ?m = "min ?n (iv_end (w_iv w) - w_pos w)"
  have "add64 (w_pos w) ?n = w_pos w + ?n"
    using pos len size lt by (intro add64_nonneg) auto
  moreover have "sub64 (iv_end (w_iv w)) (w_pos w) = iv_end (w_iv w) - w_pos w"
    using pos sf_okD(5,7) [OF ok] lt by (intro sub64_nonneg) auto
  ultimately have clip: "(if add64 (w_pos w) ?n > iv_end (w_iv w)
        then sub64 (iv_end (w_iv w)) (w_pos w) else ?n) = ?m"
    by auto
  have m: "0 \<le> ?m" "?m \<le> ?n" "w_pos w + ?m \<le> iv_end (w_iv w)" using lt by auto
  have adv: "add64 (w_pos w) ?m = w_pos w + ?m"
    using pos lt m sf_okD(5,7) [OF ok] by (intro add64_nonneg) auto
  obtain g e where wr: "writeAt f (take (nat ?m) bs) (w_pos w) wr = (g, e)" by force
  note eff = read_effect_write [OF ok pos(1) lt pos(3) m wr]
  have "readTurn f w None bs rerr wr =
      (case e of Some y \<Rightarrow> (g, returning (Some y) w)
       | None \<Rightarrow> (case rerr of None \<Rightarrow> (g, w\<lparr>w_pos := w_pos w + ?m\<rparr>)
           | Some y \<Rightarrow> if y = EOF then (g, returning None (w\<lparr>w_pos := w_pos w + ?m\<rparr>))
                       else (g, returning (Some y) (w\<lparr>w_pos := w_pos w + ?m\<rparr>))))"
    unfolding readTurn_def Let_def clip using lt bs wr adv by simp
  then have "f' = g \<and> (case e of Some y \<Rightarrow> w' = returning (Some y) w
      | None \<Rightarrow> w' = w\<lparr>w_pos := w_pos w + ?m\<rparr> \<or> (\<exists>x. w' = returning x (w\<lparr>w_pos := w_pos w + ?m\<rparr>)))"
    using turn c by (auto split: if_splits option.splits)
  then show ?thesis using eff by (cases e) auto
qed

lemma read_keeps_worker:
  assumes inv: "fill_inv U honest s" and w: "fs_workers s i = Some w"
    and f: "fs_files s (w_job w) = Some f" and eff: "read_effect f w bs m f' w'"
    and t: "t = put_worker i w' (put_file (w_job w) f' s)" and v: "fs_workers t k = Some v"
  shows "worker_ok honest t v"
proof (cases "k = i")
  note e = eff [unfolded read_effect_def] and wok = fill_invD(6) [OF inv w]
  case True
  then have v': "v = w'" using v by (simp add: t)
  have parts: "w_job w' = w_job w" "w_iv w' = w_iv w" "w_base w' = w_base w" "w_pos w' = w_pos w + m"
    "sf_size f' = sf_size f" "sf_have f' = sf_have f \<union> {w_pos w..<w_pos w + m}" "0 \<le> m"
    "w_pos w + m \<le> iv_end (w_iv w)"
    using e by simp_all
  have "{w_pos w..<iv_end (w_iv w)} \<inter> sf_have f = {}" using wok f by (simp add: worker_ok_def)
  moreover have "{w_pos w + m..<iv_end (w_iv w)} \<subseteq> {w_pos w..<iv_end (w_iv w)}" using parts(7) by auto
  moreover have "{w_pos w + m..<iv_end (w_iv w)} \<inter> {w_pos w..<w_pos w + m} = {}" by auto
  ultimately have "{w_pos w'..<iv_end (w_iv w')} \<inter> sf_have f' = {}" unfolding parts by blast
  then show ?thesis using wok f parts unfolding v' t worker_ok_def by simp
next
  note e = eff [unfolded read_effect_def] and wok = fill_invD(6) [OF inv w]
  case False
  then have v': "fs_workers s k = Some v" using v by (simp add: t)
  note vok = fill_invD(6) [OF inv v']
  show ?thesis
  proof (cases "w_job v = w_job w")
    case True
    have "claim s (w_job w) i = iv_range (w_iv w)" using w by (simp add: claim_def)
    then have "iv_range (w_iv v) \<inter> iv_range (w_iv w) = {}"
      using fill_invD(7) [OF inv False, of "w_job w"] v' True by (simp add: claim_def)
    moreover have "{w_pos v..<iv_end (w_iv v)} \<subseteq> iv_range (w_iv v)"
      using vok by (auto simp: worker_ok_def iv_range_def)
    moreover have "{w_pos w..<w_pos w + m} \<subseteq> iv_range (w_iv w)"
      using wok e by (auto simp: worker_ok_def iv_range_def)
    ultimately have "{w_pos v..<iv_end (w_iv v)} \<inter> {w_pos w..<w_pos w + m} = {}" by blast
    then show ?thesis using vok True f e by (auto simp: worker_ok_def t)
  qed (use vok in \<open>auto simp: worker_ok_def t\<close>)
qed

lemma read_keeps_data:
  assumes inv: "fill_inv U True s" and w: "fs_workers s i = Some w"
    and f: "fs_files s (w_job w) = Some f" and eff: "read_effect f w bs m f' w'"
    and bytes: "\<forall>k<length bs. bs ! k = U (w_job w) (w_base w + (w_pos w - iv_start (w_iv w)) + int k)"
    and x: "x \<in> sf_have f'"
  shows "sf_data f' x = U (w_job w) x"
proof (cases "w_pos w \<le> x \<and> x < w_pos w + m")
  note e = eff [unfolded read_effect_def] and wok = fill_invD(6) [OF inv w]
  case True
  then have "sf_data f' x = bs ! nat (x - w_pos w)" using e by blast
  also have "\<dots> = U (w_job w) (w_base w + (w_pos w - iv_start (w_iv w)) + int (nat (x - w_pos w)))"
    using bytes True e by auto
  also have "\<dots> = U (w_job w) x" using True wok by (simp add: worker_ok_def)
  finally show ?thesis .
next
  note e = eff [unfolded read_effect_def] and wok = fill_invD(6) [OF inv w]
  case False
  with x e have "x \<in> sf_have f" by auto
  moreover have "{w_pos w..<iv_end (w_iv w)} \<inter> sf_have f = {}" using wok f by (simp add: worker_ok_def)
  ultimately have "x \<in> sf_have f" and "x \<notin> {w_pos w..<iv_end (w_iv w)}" by blast+
  then have "x \<in> sf_have f" and "x < w_pos w \<or> iv_end (w_iv w) \<le> x" by auto
  then show ?thesis using e fill_invD(5) [OF inv f] by auto
qed

lemma fill_inv_read:
  assumes inv: "fill_inv U honest s" and w: "fs_workers s i = Some w" and ph: "w_phase w = Copying"
    and f: "fs_files s (w_job w) = Some f" and eff: "read_effect f w bs m f' w'"
    and bytes: "\<forall>k<length bs. bs ! k = U (w_job w) (w_base w + (w_pos w - iv_start (w_iv w)) + int k)"
  shows "fill_inv U honest (put_worker i w' (put_file (w_job w) f' s))"
proof -
  let ?t = "put_worker i w' (put_file (w_job w) f' s)"
  note e = eff [unfolded read_effect_def]
  have claims: "claim ?t = claim s" using w e by (auto simp: claim_def fun_eq_iff)
  have hold: "holders ?t = holders s"
    using holders_put [where i = i and w' = w' and s = s] holder_iff [OF w] ph e
    by (auto simp: holders_def)
  have "sf_size g + downloadChunkSize \<le> max_i64 \<and> sf_ok g \<and> sf_busy g = (\<Union>i. claim s k i) \<and>
      (honest \<longrightarrow> (\<forall>x\<in>sf_have g. sf_data g x = U k x))"
    if g: "fs_files ?t k = Some g" for k g
  proof (cases "k = w_job w")
    case True
    have "sf_data f' x = U (w_job w) x" if honest "x \<in> sf_have f'" for x
      by (rule read_keeps_data [where U = U, OF _ w f eff bytes that(2)]) (use inv that(1) in simp)
    then show ?thesis using True g e fill_invD(3,4) [OF inv f] by auto
  next
    case False
    then show ?thesis using g fill_invD(2-5) [OF inv, of k] by auto
  qed
  with read_keeps_worker [OF inv w f eff refl] show ?thesis
    using inv w unfolding fill_inv_def claims hold by auto
qed

lemma fill_inv_leave:
  assumes inv: "fill_inv U honest s" and w: "fs_workers s i = Some w" and ph: "w_phase w = Leaving"
    and f: "fs_files s (w_job w) = Some f"
  shows "fill_inv U honest
     ((put_file (w_job w) (releaseInflight f (w_iv w)) s)\<lparr>fs_workers := (fs_workers s)(i := None)\<rparr>)"
    (is "fill_inv U honest ?t")
proof -
  let ?f = "releaseInflight f (w_iv w)" and ?j = "w_job w"
  note ok = fill_invD(2) [OF inv f]
  have claims: "claim ?t k l = (if l = i then {} else claim s k l)" for k l
    by (auto simp: claim_def)
  have mine: "claim s ?j i = iv_range (w_iv w)" "k \<noteq> ?j \<Longrightarrow> claim s k i = {}" for k
    using w by (simp_all add: claim_def)
  have hold: "holders ?t = holders s" using w ph by (auto simp: holders_def)
  have same: "sf_present ?f = sf_present f" "sf_size ?f = sf_size f" "sf_data ?f = sf_data f"
    by (simp_all add: releaseInflight_def)
  have rest: "(\<Union>l. if l = i then {} else claim s k l) = (\<Union>l. claim s k l) - claim s k i" for k
  proof (intro set_eqI iffI)
    fix x assume "x \<in> (\<Union>l. if l = i then {} else claim s k l)"
    then obtain l where "l \<noteq> i" "x \<in> claim s k l" by (auto split: if_splits)
    with fill_invD(7) [OF inv \<open>l \<noteq> i\<close>, of k] show "x \<in> (\<Union>l. claim s k l) - claim s k i" by blast
  next
    fix x assume "x \<in> (\<Union>l. claim s k l) - claim s k i"
    then obtain l where "x \<in> claim s k l" "l \<noteq> i" by auto
    then have "x \<in> (if l = i then {} else claim s k l)" by simp
    then show "x \<in> (\<Union>l. if l = i then {} else claim s k l)" by blast
  qed
  have "worker_ok honest ?t v" if "fs_workers ?t k = Some v" for k v
    using that fill_invD(6) [OF inv, of k v] f same by (auto simp: worker_ok_def split: if_splits)
  moreover have "sf_size g + downloadChunkSize \<le> max_i64 \<and> sf_ok g \<and>
      sf_busy g = (\<Union>l. if l = i then {} else claim s k l) \<and>
      (honest \<longrightarrow> (\<forall>x\<in>sf_have g. sf_data g x = U k x))"
    if g: "fs_files ?t k = Some g" for k g
  proof (cases "k = ?j")
    case True
    then show ?thesis unfolding rest
      using g fill_invD(2-5) [OF inv f] same mine(1) releaseInflight_ok [OF ok] releaseInflight_busy [OF ok]
      by auto
  next
    case False
    then show ?thesis unfolding rest using g fill_invD(2-5) [OF inv, of k] mine(2) by auto
  qed
  moreover have "claim ?t k a \<inter> claim ?t k b = {}" if "a \<noteq> b" for k a b
    using fill_invD(7) [OF inv that, of k] by (simp add: claims)
  ultimately show ?thesis
    using inv unfolding fill_inv_def hold claims by auto
qed

section \<open>Every step keeps the invariant\<close>

lemma fill_inv_seek:
  assumes inv: "fill_inv U honest s" and t: "requestFillAt j off s = Some t"
  shows "fill_inv U honest t"
proof (cases "fs_files s j")
  case None
  with t inv show ?thesis by (simp add: requestFillAt_def)
next
  case (Some f)
  note ok = fill_invD(2) [OF inv Some]
  obtain f' ivs where r: "reserve f off (add64 off (sf_chunk f)) = Some (f', ivs)"
      and t': "t = spawn j False ivs (put_file j f' s)"
    using t Some by (auto simp: requestFillAt_def split: option.splits)
  note res = reserve_SomeD [OF ok r] reserve_frame [OF r]
  then have "sf_busy f' = sf_busy f \<union> iset ivs" "ivs_apart ivs" "iset ivs \<subseteq> sf_free f"
    by (auto simp: reserved_def)
  with res show ?thesis unfolding t' by (intro fill_inv_spawn [OF inv Some]) auto
qed

lemma fill_inv_drive:
  assumes inv: "fill_inv U honest s" and f: "fs_files s j = Some f"
    and t: "driverTurn j c f s = Fill t"
  shows "fill_inv U honest t"
proof -
  note ok = fill_invD(2) [OF inv f]
  obtain f' it where r: "reserveLowest f = (f', Some it)" and t': "t = spawn j True [it] (put_file j f' s)"
    using t by (auto simp: driverTurn_def split: if_splits prod.splits option.splits)
  note low = reserveLowest_Some [OF ok r]
  have "sf_ok f'" using reserveLowest_ok [OF ok] r by simp
  moreover have "sf_busy f' = sf_busy f \<union> iset [it]"
    using sf_okD(3) [OF ok] by (simp add: low(1) ivs.abs_add iv_range_def)
  ultimately show ?thesis
    unfolding t' using low by (intro fill_inv_spawn [OF inv f]) auto
qed

lemma fill_step_inv: "fill_step U honest s t \<Longrightarrow> fill_inv U honest s \<Longrightarrow> fill_inv U honest t"
proof (induction rule: fill_step.induct)
  case (begin_job s j sz ch f)
  have "sz + (if ch \<le> 0 then maxFillChunk else ch) \<le> max_i64"
    using begin_job(2,4) by (auto simp: newSparseFile_def Let_def)
  with begin_job newSparseFile_ok [OF begin_job(2)] show ?case
    by (intro fill_inv_begin) auto
next
  case (seek j off s t)
  then show ?case by (blast intro: fill_inv_seek)
next
  case (drive s j f c t)
  then show ?case by (blast intro: fill_inv_drive)
next
  case (acquire s i w)
  have "i \<notin> holders s" using acquire by (simp add: holder_iff)
  then have "Suc (fs_slots s) = card (holders (put_worker i (w\<lparr>w_phase := Opening\<rparr>) s))"
    using fill_invD(8) [OF acquire(4)] holders_finite [OF acquire(4)] by (simp add: holders_put)
  then show ?case
    using acquire fill_invD(6) [OF acquire(4,1)]
    by (intro fill_inv_phase [OF acquire(4,1)]) (simp_all add: worker_ok_def)
next
  case (give_up s i w e)
  then show ?case using fill_invD(6) [OF give_up(3,1)]
    by (intro fill_inv_phase' [OF give_up(3,1)]) (simp_all add: worker_ok_def)
next
  case (open_ok s i w st)
  then show ?case
    by (intro fill_inv_phase' [OF open_ok(5,1)]) (simp_all add: body_base_def)
next
  case (open_fails s i w e)
  then show ?case using fill_invD(6) [OF open_fails(3,1)]
    by (intro fill_inv_phase' [OF open_fails(3,1)]) (simp_all add: worker_ok_def returning_def)
next
  case (read s i w f bs c rerr wr f' w')
  note ok = fill_invD(2,3) [OF read(7,3)] and wok = fill_invD(6) [OF read(7,1)]
  have "iv_end (w_iv w) \<le> sf_size f" "0 \<le> w_pos w" "w_pos w \<le> iv_end (w_iv w)"
    using wok read(3) by (auto simp: worker_ok_def iv_range_def)
  then obtain m where "read_effect f w bs m f' w'"
    using readTurn_effect [OF ok(1) _ _ _ read(4) ok(2) read(6)] by blast
  with read show ?case by (intro fill_inv_read) auto
next
  case (free_slot s i w)
  have "i \<in> holders s" using free_slot by (simp add: holder_iff)
  then have "fs_slots s - 1 = card (holders (put_worker i (w\<lparr>w_phase := Leaving\<rparr>) s))"
    using fill_invD(8) [OF free_slot(3)] holders_finite [OF free_slot(3)] by (simp add: holders_put)
  then show ?case
    using free_slot fill_invD(6,9) [OF free_slot(3)]
    by (intro fill_inv_phase [OF free_slot(3,1)]) (simp_all add: worker_ok_def)
next
  case (leave s i w f)
  then show ?case by (blast intro: fill_inv_leave)
next
  case (close_file s j f e)
  then show ?case
    using fill_invD(2) [OF close_file(2,1)] by (intro fill_inv_file) (auto simp: frame_simps)
next
  case (end_job s j f e)
  then show ?case
    using fill_invD(2) [OF end_job(2,1)] by (intro fill_inv_file) (auto simp: frame_simps)
qed

interpretation fills: safe_machine "\<lambda>s. s = init_fill" "fill_step U honest" "fill_inv U honest" for U honest
  by unfold_locales (use fill_inv_init fill_step_inv in blast)+

lemma fill_reach_steps: "fill_reach U honest s \<Longrightarrow> (fill_step U honest)\<^sup>*\<^sup>* init_fill s"
  by (induction rule: fill_reach.induct) (auto intro: rtranclp.rtrancl_into_rtrancl)

lemma fill_reach_inv: "fill_reach U honest s \<Longrightarrow> fill_inv U honest s"
  by (rule fills.reachable_inv [OF refl fill_reach_steps])

text \<open>A step keeps the files, their sizes and the bytes that are present.\<close>

lemma fill_step_keeps:
  assumes "fill_inv U honest s" and "fill_step U honest s t" and "fs_files s j = Some f"
  shows "\<exists>g. fs_files t j = Some g \<and> sf_size g = sf_size f \<and>
           (\<forall>off\<in>sf_have f. off \<in> sf_have g \<and> sf_data g off = sf_data f off)"
  using assms(2,1,3)
proof (induction rule: fill_step.induct)
  case (read s i w f' bs c rerr wr f'' w')
  note wok = fill_invD(6) [OF read(7,1)] and ok = fill_invD(2,3) [OF read(7,3)]
  have "iv_end (w_iv w) \<le> sf_size f'" "0 \<le> w_pos w" "w_pos w \<le> iv_end (w_iv w)"
    using wok read(3) by (auto simp: worker_ok_def iv_range_def)
  then obtain m where eff: "read_effect f' w bs m f'' w'"
    using readTurn_effect [OF ok(1) _ _ _ read(4) ok(2) read(6)] by blast
  have "{w_pos w..<iv_end (w_iv w)} \<inter> sf_have f' = {}" using wok read(3) by (simp add: worker_ok_def)
  then have "off \<in> sf_have f' \<Longrightarrow> off < w_pos w \<or> iv_end (w_iv w) \<le> off" for off
    by (rule range_disjointD)
  with eff read show ?case by (cases "j = w_job w") (auto simp: read_effect_def)
next
  case (seek j' o' s t)
  from seek show ?case
    by (auto simp: requestFillAt_def spawn_def reserve_frame split: option.splits)
next
  case (drive s j' f' c t)
  obtain g it where "reserveLowest f' = (g, Some it)" "t = spawn j' True [it] (put_file j' g s)"
    using drive(3) by (auto simp: driverTurn_def split: if_splits prod.splits option.splits)
  with drive reserveLowest_Some(1) [OF fill_invD(2) [OF drive(4,1)]] show ?case
    by (auto simp: spawn_def)
qed (auto simp: frame_simps releaseInflight_def)

section \<open>An executable scheduler\<close>

text \<open>
  Chosen steps of the system as a function, so that concrete runs can be evaluated: every
  action it accepts is a step. A read delivers \<open>n\<close> bytes of the body and no error.
\<close>

datatype fill_action =
    Begin nat int int
  | Seek nat int
  | Drive nat
  | Acquire nat
  | Open nat int
  | Read nat nat
  | Free nat
  | Leave nat

definition body_bytes :: "(nat \<Rightarrow> int \<Rightarrow> byte) \<Rightarrow> worker \<Rightarrow> nat \<Rightarrow> byte list" where
  "body_bytes U w n =
     map (\<lambda>k. U (w_job w) (w_base w + (w_pos w - iv_start (w_iv w)) + int k)) [0..<n]"

definition in_phase :: "fill_sys \<Rightarrow> nat \<Rightarrow> phase \<Rightarrow> worker option" where
  "in_phase s i ph =
     (case fs_workers s i of None \<Rightarrow> None | Some w \<Rightarrow> if w_phase w = ph then Some w else None)"

fun fill_exec :: "(nat \<Rightarrow> int \<Rightarrow> byte) \<Rightarrow> bool \<Rightarrow> fill_action \<Rightarrow> fill_sys \<Rightarrow> fill_sys option" where
  "fill_exec U honest (Begin j sz ch) s =
     (case newSparseFile None None sz ch of
        Inl e \<Rightarrow> None
      | Inr f \<Rightarrow> if fs_files s j = None \<and> 0 < sz \<and> sz + sf_chunk f \<le> max_i64
                    \<and> sz + downloadChunkSize \<le> max_i64
                 then Some (put_file j f s) else None)"
| "fill_exec U honest (Seek j off) s = requestFillAt j off s"
| "fill_exec U honest (Drive j) s =
     (case fs_files s j of
        None \<Rightarrow> None
      | Some f \<Rightarrow>
          if list_all (\<lambda>i. case fs_workers s i of None \<Rightarrow> True
                           | Some w \<Rightarrow> w_job w = j \<longrightarrow> \<not> w_driver w) [0..<fs_next s]
          then (case driverTurn j None f s of Fill t \<Rightarrow> Some t | _ \<Rightarrow> None) else None)"
| "fill_exec U honest (Acquire i) s =
     (case in_phase s i Queued of
        None \<Rightarrow> None
      | Some w \<Rightarrow>
          if fs_slots s < maxConcurrentFills
          then Some ((put_worker i (w\<lparr>w_phase := Opening\<rparr>) s)\<lparr>fs_slots := Suc (fs_slots s)\<rparr>)
          else None)"
| "fill_exec U honest (Open i st) s =
     (case in_phase s i Opening of
        None \<Rightarrow> None
      | Some w \<Rightarrow>
          if fetch_status_ok st \<and> (honest \<longrightarrow> st = 206)
          then Some (put_worker i
                 (w\<lparr>w_phase := Copying, w_base := body_base st (iv_start (w_iv w))\<rparr>) s)
          else None)"
| "fill_exec U honest (Read i n) s =
     (case in_phase s i Copying of
        None \<Rightarrow> None
      | Some w \<Rightarrow>
          (case fs_files s (w_job w) of
             None \<Rightarrow> None
           | Some f \<Rightarrow>
               if int n \<le> downloadChunkSize
               then (let (f', w') = readTurn f w None (body_bytes U w n) None WroteAll
                     in Some (put_worker i w' (put_file (w_job w) f' s)))
               else None))"
| "fill_exec U honest (Free i) s =
     (case in_phase s i Closing of
        None \<Rightarrow> None
      | Some w \<Rightarrow>
          Some ((put_worker i (w\<lparr>w_phase := Leaving\<rparr>) s)\<lparr>fs_slots := fs_slots s - 1\<rparr>))"
| "fill_exec U honest (Leave i) s =
     (case in_phase s i Leaving of
        None \<Rightarrow> None
      | Some w \<Rightarrow>
          (case fs_files s (w_job w) of
             None \<Rightarrow> None
           | Some f \<Rightarrow>
               Some ((put_file (w_job w) (releaseInflight f (w_iv w)) s)
                       \<lparr>fs_workers := (fs_workers s)(i := None)\<rparr>)))"

fun fill_run ::
  "(nat \<Rightarrow> int \<Rightarrow> byte) \<Rightarrow> bool \<Rightarrow> fill_action list \<Rightarrow> fill_sys \<Rightarrow> fill_sys option" where
  "fill_run U honest [] s = Some s"
| "fill_run U honest (a # as) s =
     (case fill_exec U honest a s of None \<Rightarrow> None | Some t \<Rightarrow> fill_run U honest as t)"

lemma in_phase_Some: "in_phase s i ph = Some w \<longleftrightarrow> fs_workers s i = Some w \<and> w_phase w = ph"
  by (auto simp: in_phase_def split: option.splits)

lemma fill_exec_step:
  assumes inv: "fill_inv U honest s" and run: "fill_exec U honest a s = Some t"
  shows "fill_step U honest s t"
proof (cases a)
  case (Begin j sz ch)
  with run show ?thesis by (auto split: sum.splits if_splits intro: fill_step.begin_job)
next
  case (Seek j off)
  with run show ?thesis by (auto intro: fill_step.seek)
next
  case (Drive j)
  let ?idle = "list_all (\<lambda>i. case fs_workers s i of None \<Rightarrow> True
                           | Some w \<Rightarrow> w_job w = j \<longrightarrow> \<not> w_driver w) [0..<fs_next s]"
  from Drive run obtain f where "fs_files s j = Some f" by (cases "fs_files s j") auto
  moreover from this Drive run have ?idle by (cases ?idle) simp_all
  moreover from calculation Drive run have "driverTurn j None f s = Fill t"
    by (simp split: driver_turn.splits)
  ultimately have f: "fs_files s j = Some f" "driverTurn j None f s = Fill t" ?idle by simp_all
  have "\<not> w_driver w" if w: "fs_workers s i = Some w" "w_job w = j" for i w
  proof -
    have "i < fs_next s" using fill_invD(1) [OF inv, of i] w(1) by force
    then have "i \<in> set [0..<fs_next s]" by simp
    from f(3) [unfolded list_all_iff, rule_format, OF this] w show ?thesis by simp
  qed
  then show ?thesis by (rule fill_step.drive [OF f(1) _ f(2)])
next
  case (Acquire i)
  with run show ?thesis
    by (auto simp: in_phase_Some split: option.splits if_splits intro: fill_step.acquire)
next
  case (Open i st)
  with run show ?thesis
    by (auto simp: in_phase_Some split: option.splits if_splits intro: fill_step.open_ok)
next
  case (Read i n)
  with run obtain w f where w: "fs_workers s i = Some w" "w_phase w = Copying"
      and f: "fs_files s (w_job w) = Some f" and n: "int n \<le> downloadChunkSize"
    by (auto simp: in_phase_Some split: option.splits if_splits)
  obtain f' w' where r: "readTurn f w None (body_bytes U w n) None WroteAll = (f', w')" by force
  with Read run w f n have "t = put_worker i w' (put_file (w_job w) f' s)"
    by (simp add: in_phase_def)
  moreover have "fill_step U honest s (put_worker i w' (put_file (w_job w) f' s))"
    by (rule fill_step.read [OF w f _ _ r]) (use n in \<open>auto simp: body_bytes_def\<close>)
  ultimately show ?thesis by simp
next
  case (Free i)
  with run obtain w where w: "fs_workers s i = Some w" "w_phase w = Closing"
    and t: "t = (put_worker i (w\<lparr>w_phase := Leaving\<rparr>) s)\<lparr>fs_slots := fs_slots s - 1\<rparr>"
    by (auto simp: in_phase_Some split: option.splits)
  show ?thesis unfolding t by (rule fill_step.free_slot [OF w])
next
  case (Leave i)
  with run show ?thesis
    by (auto simp: in_phase_Some split: option.splits intro: fill_step.leave)
qed

lemma fill_run_steps:
  "fill_reach U honest s \<Longrightarrow> fill_run U honest as s = Some t \<Longrightarrow>
   fill_reach U honest t \<and> (fill_step U honest)\<^sup>*\<^sup>* s t"
proof (induction as arbitrary: s)
  case Nil
  then show ?case by simp
next
  case (Cons a as)
  then obtain u where "fill_exec U honest a s = Some u" and run: "fill_run U honest as u = Some t"
    by (auto split: option.splits)
  then have step: "fill_step U honest s u" using Cons.prems(1) by (blast intro: fill_exec_step fill_reach_inv)
  from Cons.IH [OF fill_next [OF Cons.prems(1) step] run] step show ?case
    by (blast intro: converse_rtranclp_into_rtranclp)
qed

lemmas fill_run_reach = fill_run_steps [THEN conjunct1]

section \<open>Properties\<close>

text \<open>The upstream of the examples: byte \<open>x\<close> of every job is \<open>x\<close>.\<close>

definition demo_up :: "nat \<Rightarrow> int \<Rightarrow> byte" where
  "demo_up j x = word_of_int x"

lemma finished_data:
  assumes "fill_reach U True s" and "fs_files s j = Some f"
    and "sparseResult first_err ctx_err (fst (closeWriter f e)) = None"
    and "0 \<le> off" and "off < sf_size f"
  shows "sf_data (fst (closeWriter f e)) off = U j off"
proof -
  note inv = fill_reach_inv [OF assms(1)]
  have "complete (fst (closeWriter f e))"
    using assms(3) by (auto simp: sparseResult_def split: option.splits if_splits)
  then have "sf_have f = {0..<sf_size f}"
    using complete_iff [of "fst (closeWriter f e)"] fill_invD(2) [OF inv assms(2)]
    by (simp add: frame_simps)
  then have "off \<in> sf_have f" using assms(4,5) by simp
  with fill_invD(5) [OF inv assms(2)] show ?thesis by (simp add: frame_simps)
qed


definition demo_run :: "fill_action list" where
  "demo_run =
     [Begin 0 4 2, Drive 0, Seek 0 2, Acquire 1, Open 1 206, Acquire 0, Open 0 206,
      Read 1 1, Read 0 2, Read 1 5, Read 0 0, Free 0, Leave 0]"

definition demo_result :: "fill_sys option \<Rightarrow> nat \<Rightarrow> bool" where
  "demo_result r n =
     (case r of None \<Rightarrow> False
      | Some t \<Rightarrow>
          (case fs_files t 0 of None \<Rightarrow> False
           | Some f \<Rightarrow> sf_size f = 4 \<and> complete f \<and> fs_slots t = n))"

lemma demo_run_result: "demo_result (fill_run demo_up True demo_run init_fill) 1"
  by code_simp

lemma demo_resultE:
  assumes "demo_result (fill_run U honest as init_fill) n"
  obtains t f where "fill_reach U honest t" "fs_files t 0 = Some f" "sf_size f = 4"
    "complete f" "fs_slots t = n"
proof -
  from assms(1) obtain t f where "fill_run U honest as init_fill = Some t" "fs_files t 0 = Some f"
      "sf_size f = 4" "complete f" "fs_slots t = n"
    by (auto simp: demo_result_def split: option.splits)
  with that fill_run_reach [OF fill_init] show thesis by blast
qed


text \<open>
  C20. No two fetches overlap and at most three are in progress: in every reachable state,
  two goroutines filling the same file hold ranges that are apart, and over all jobs at
  most \<open>maxConcurrentFills\<close> goroutines hold a slot, that is an upstream connection.
\<close>

theorem fills_apart_and_capped:
  assumes "fill_reach U honest s"
  shows "(\<forall>i k w v. i \<noteq> k \<and> fs_workers s i = Some w \<and> fs_workers s k = Some v \<and> w_job w = w_job v
            \<longrightarrow> iv_range (w_iv w) \<inter> iv_range (w_iv v) = {}) \<and>
         card {i. \<exists>w. fs_workers s i = Some w \<and> w_phase w \<in> {Opening, Copying, Closing}} \<le> 3"
proof
  note inv = fill_reach_inv [OF assms]
  show "\<forall>i k w v. i \<noteq> k \<and> fs_workers s i = Some w \<and> fs_workers s k = Some v \<and> w_job w = w_job v
            \<longrightarrow> iv_range (w_iv w) \<inter> iv_range (w_iv v) = {}"
  proof (intro allI impI, elim conjE)
    fix i k w v
    assume "i \<noteq> k" "fs_workers s i = Some w" "fs_workers s k = Some v" "w_job w = w_job v"
    with fill_invD(7) [OF inv \<open>i \<noteq> k\<close>, of "w_job w"]
    show "iv_range (w_iv w) \<inter> iv_range (w_iv v) = {}" by (simp add: claim_def)
  qed
  show "card {i. \<exists>w. fs_workers s i = Some w \<and> w_phase w \<in> {Opening, Copying, Closing}} \<le> 3"
    using fill_invD(8,9) [OF inv] by (simp add: holders_def maxConcurrentFills_def)
qed

theorem fills_apart_and_capped_witness:
  "\<exists>t. fill_reach demo_up True t \<and> fs_slots t = 1 \<and>
     card {i. \<exists>w. fs_workers t i = Some w \<and> w_phase w \<in> {Opening, Copying, Closing}} \<le> 3"
proof -
  obtain t f where t: "fill_reach demo_up True t" "fs_files t 0 = Some f" "sf_size f = 4"
    "complete f" "fs_slots t = 1"
    by (rule demo_resultE [OF demo_run_result])
  from fills_apart_and_capped [OF t(1)] t show ?thesis by blast
qed

text \<open>The byte \<open>b\<close> at an offset of a file, as an invariant of the system.\<close>

definition has_byte :: "nat \<Rightarrow> int \<Rightarrow> byte \<Rightarrow> fill_sys \<Rightarrow> bool" where
  "has_byte j off b s \<longleftrightarrow> (\<exists>f. fs_files s j = Some f \<and> off \<in> sf_have f \<and> sf_data f off = b)"

interpretation stored: safe_machine "\<lambda>s. fill_inv U honest s \<and> has_byte j off b s" "fill_step U honest"
  "\<lambda>s. fill_inv U honest s \<and> has_byte j off b s" for U honest j off b
proof
  show "fill_inv U honest t \<and> has_byte j off b t" if "fill_inv U honest s \<and> has_byte j off b s" "fill_step U honest s t" for s t
    using that fill_step_keeps fills.keeps unfolding has_byte_def by metis
qed

text \<open>
  What is present stays: no run of the goroutines takes a present byte out of the
  file's map or changes its value on disk, even when the upstream misbehaves, so a reader
  that has waited for a byte may read it at any later time.
\<close>

theorem present_bytes_stable:
  assumes "fill_reach U honest s" and "(fill_step U honest)\<^sup>*\<^sup>* s t"
    and "fs_files s j = Some f" and "off \<in> sf_have f"
  shows "\<exists>g. fs_files t j = Some g \<and> off \<in> sf_have g \<and> sf_data g off = sf_data f off"
  using stored.reachable_inv [OF _ assms(2), of j off "sf_data f off"] fill_reach_inv [OF assms(1)] assms(3,4)
  by (auto simp: has_byte_def)

theorem present_bytes_stable_witness:
  "\<exists>s f g. fill_reach demo_up True s \<and> fs_files s 0 = Some f \<and> 3 \<in> sf_have f \<and>
     fs_files (put_file 0 (markDone f None) s) 0 = Some g \<and> 3 \<in> sf_have g \<and>
     sf_data g 3 = sf_data f 3"
proof -
  obtain t f where t: "fill_reach demo_up True t" "fs_files t 0 = Some f" "sf_size f = 4"
    "complete f" "fs_slots t = 1"
    by (rule demo_resultE [OF demo_run_result])
  have "sf_have f = {0..<4}"
    using t(3,4) complete_iff fill_invD(2) [OF fill_reach_inv [OF t(1)] t(2)] by auto
  then have "3 \<in> sf_have f" by simp
  moreover have "(fill_step demo_up True)\<^sup>*\<^sup>* t (put_file 0 (markDone f None) t)"
    by (rule r_into_rtranclp, rule fill_step.end_job [OF t(2)])
  ultimately show ?thesis using present_bytes_stable [OF t(1) _ t(2)] t by blast
qed

text \<open>
  The sequential filler does not sleep for ever: when it finds nothing to reserve and
  waits for progress, some fetch of its file is in flight, and its release wakes the
  filler; that fetch can itself wait for a slot only while other fetches hold the slots.
\<close>

theorem filler_waits_on_a_fetch:
  assumes "fill_reach U honest s" and "fs_files s j = Some f"
    and "driverTurn j ctx_err f s = Wait"
  shows "\<exists>i w. fs_workers s i = Some w \<and> w_job w = j \<and>
           (fs_slots s < maxConcurrentFills \<or>
            (\<exists>k v. fs_workers s k = Some v \<and> w_phase v \<in> {Opening, Copying, Closing}))"
proof -
  note inv = fill_reach_inv [OF assms(1)]
  note ok = fill_invD(2) [OF inv assms(2)]
  have "snd (reserveLowest f) = None" and nc: "\<not> complete f"
    using assms(3) by (auto simp: driverTurn_def split: if_splits prod.splits option.splits)
  then have "sf_free f = {}" by (simp add: reserveLowest_None [OF ok])
  moreover obtain x where "x \<in> {0..<sf_size f} - sf_have f"
    using nc complete_iff [OF ok] sf_okD(2) [OF ok] by blast
  ultimately have "x \<in> sf_busy f" by (auto simp: sf_free_def)
  then obtain i where "x \<in> claim s j i" using fill_invD(4) [OF inv assms(2)] by auto
  then obtain w where "fs_workers s i = Some w" "w_job w = j"
    by (auto simp: claim_def split: option.splits if_splits)
  moreover have "fs_slots s < maxConcurrentFills \<or> holders s \<noteq> {}"
    using fill_invD(8) [OF inv] by (auto simp: maxConcurrentFills_def)
  ultimately show ?thesis by (auto simp: holders_def)
qed

definition wait_result_ok :: "fill_sys option \<Rightarrow> bool" where
  "wait_result_ok r =
     (case r of None \<Rightarrow> False
      | Some t \<Rightarrow>
          (case fs_files t 0 of None \<Rightarrow> False
           | Some f \<Rightarrow> (case driverTurn 0 None f t of Wait \<Rightarrow> True | _ \<Rightarrow> False)))"

theorem filler_waits_on_a_fetch_witness:
  "\<exists>t f i w. fill_reach demo_up True t \<and> fs_files t 0 = Some f \<and>
     driverTurn 0 None f t = Wait \<and> fs_workers t i = Some w \<and> w_job w = 0"
proof -
  have "wait_result_ok (fill_run demo_up True [Begin 0 4 2, Seek 0 0, Seek 0 2] init_fill)"
    by code_simp
  then obtain t f where "fill_run demo_up True [Begin 0 4 2, Seek 0 0, Seek 0 2] init_fill = Some t"
      and t: "fs_files t 0 = Some f" "driverTurn 0 None f t = Wait"
    by (auto simp only: wait_result_ok_def split: option.splits driver_turn.splits)
  from fill_run_reach [OF fill_init this(1)] filler_waits_on_a_fetch [OF _ t] t show ?thesis by blast
qed

text \<open>
  The status of a fetch matters and is not checked: \<open>httpFetchRange\<close> accepts a 200
  for a range request, whose body starts at byte 0. There is a run in which one such answer
  is stored at the offset of the requested range, after which the download completes
  without an error and with a byte that is not the upstream's.
\<close>

theorem status_200_corrupts:
  "\<exists>s f. fill_reach demo_up False s \<and> fs_files s 0 = Some f \<and>
     sparseResult None None (fst (closeWriter f None)) = None \<and> sf_data f 2 \<noteq> demo_up 0 2"
proof -
  let ?r = "fill_run demo_up False
    [Begin 0 4 2, Drive 0, Seek 0 2, Acquire 1, Open 1 200, Read 1 2, Acquire 0, Open 0 206, Read 0 2]
    init_fill"
  have "(case ?r of None \<Rightarrow> False
      | Some t \<Rightarrow> (case fs_files t 0 of None \<Rightarrow> False | Some f \<Rightarrow> complete f \<and> sf_data f 2 = 0))"
    by code_simp
  then obtain t f where "?r = Some t" and t: "fs_files t 0 = Some f" "complete f" "sf_data f 2 = 0"
    by (auto simp only: split: option.splits)
  from fill_run_reach [OF fill_init this(1)] have "fill_reach demo_up False t" .
  moreover have "sparseResult None None (fst (closeWriter f None)) = None"
    using t(2) by (simp add: sparseResult_def complete_def closeWriter_def)
  moreover have "sf_data f 2 \<noteq> demo_up 0 2" by (simp add: t(3) demo_up_def)
  ultimately show ?thesis using t(1) by blast
qed

end
