(* ===== verification/Go_Strings.thy ===== *)
theory Go_Strings
  imports Interfaces "HOL-Library.Sublist"
begin

text \<open>
  The functions of Go's \<open>strings\<close>, \<open>bytes\<close> and \<open>strconv\<close> packages that the program
  uses, on byte strings: a Go string is a sequence of bytes and a \<open>char\<close> is a byte.

  \<open>TrimSpace\<close> is exact, for the multi-byte spaces of Unicode too. \<open>ToLower\<close> and
  \<open>ToUpper\<close> are exact on ASCII and on the few other characters whose image is ASCII; every
  other character is left as it is, where Go may map it to another character outside ASCII.
  The program only compares the result with ASCII texts, for which the two agree.
\<close>

section \<open>Prefixes, suffixes, cuts\<close>

definition HasPrefix :: "string \<Rightarrow> string \<Rightarrow> bool" where
  "HasPrefix s p = prefix p s"

definition HasSuffix :: "string \<Rightarrow> string \<Rightarrow> bool" where
  "HasSuffix s p = suffix p s"

definition Contains :: "string \<Rightarrow> string \<Rightarrow> bool" where
  "Contains s p = sublist p s"

definition CutPrefix :: "string \<Rightarrow> string \<Rightarrow> string option" where
  "CutPrefix s p = (if prefix p s then Some (drop (length p) s) else None)"

definition CutSuffix :: "string \<Rightarrow> string \<Rightarrow> string option" where
  "CutSuffix s p = (if suffix p s then Some (take (length s - length p) s) else None)"

text \<open>\<open>Cut\<close> with a separator of one byte: the parts before and after its first occurrence.\<close>

fun Cut :: "string \<Rightarrow> char \<Rightarrow> (string \<times> string) option" where
  "Cut [] c = None"
| "Cut (x # xs) c =
     (if x = c then Some ([], xs)
      else case Cut xs c of None \<Rightarrow> None | Some (a, b) \<Rightarrow> Some (x # a, b))"

text \<open>The bytes after the last occurrence, as found with \<open>LastIndexByte\<close>.\<close>

fun after_last :: "string \<Rightarrow> char \<Rightarrow> string option" where
  "after_last [] c = None"
| "after_last (x # xs) c =
     (case after_last xs c of
        Some r \<Rightarrow> Some r
      | None \<Rightarrow> if x = c then Some xs else None)"

lemma Cut_append:
  "c \<notin> set a \<Longrightarrow> Cut (a @ c # b) c = Some (a, b)"
  by (induction a) auto

lemma Cut_None: "Cut s c = None \<longleftrightarrow> c \<notin> set s"
  by (induction s) (auto split: option.splits)

lemma Cut_Some: "Cut s c = Some (a, b) \<Longrightarrow> s = a @ c # b \<and> c \<notin> set a"
  by (induction s arbitrary: a) (auto split: option.splits if_splits)

lemma after_last_append: "c \<notin> set b \<Longrightarrow> after_last (a @ c # b) c = Some b"
proof -
  assume c: "c \<notin> set b"
  then have "after_last b c = None" by (induction b) (auto split: option.splits)
  then show ?thesis by (induction a) auto
qed

lemma CutPrefix_append [simp]: "CutPrefix (p @ s) p = Some s"
  by (simp add: CutPrefix_def)

lemma CutPrefix_Some: "CutPrefix s p = Some r \<longleftrightarrow> s = p @ r"
  by (auto simp: CutPrefix_def prefix_def split: if_splits)

lemma CutSuffix_append [simp]: "CutSuffix (s @ p) p = Some s"
  by (simp add: CutSuffix_def suffix_def)

lemma CutSuffix_Some: "CutSuffix s p = Some r \<longleftrightarrow> s = r @ p"
  by (auto simp: CutSuffix_def suffix_def split: if_splits)

section \<open>Spaces\<close>

text \<open>The UTF-8 encodings of the characters for which \<open>unicode.IsSpace\<close> holds.\<close>

definition space_encodings :: "string list" where
  "space_encodings =
     [[CHR 0x09], [CHR 0x0A], [CHR 0x0B], [CHR 0x0C], [CHR 0x0D], [CHR 0x20],
      [CHR 0xC2, CHR 0x85], [CHR 0xC2, CHR 0xA0], [CHR 0xE1, CHR 0x9A, CHR 0x80],
      [CHR 0xE2, CHR 0x80, CHR 0x80], [CHR 0xE2, CHR 0x80, CHR 0x81], [CHR 0xE2, CHR 0x80, CHR 0x82],
      [CHR 0xE2, CHR 0x80, CHR 0x83], [CHR 0xE2, CHR 0x80, CHR 0x84], [CHR 0xE2, CHR 0x80, CHR 0x85],
      [CHR 0xE2, CHR 0x80, CHR 0x86], [CHR 0xE2, CHR 0x80, CHR 0x87], [CHR 0xE2, CHR 0x80, CHR 0x88],
      [CHR 0xE2, CHR 0x80, CHR 0x89], [CHR 0xE2, CHR 0x80, CHR 0x8A], [CHR 0xE2, CHR 0x80, CHR 0xA8],
      [CHR 0xE2, CHR 0x80, CHR 0xA9], [CHR 0xE2, CHR 0x80, CHR 0xAF], [CHR 0xE2, CHR 0x81, CHR 0x9F],
      [CHR 0xE3, CHR 0x80, CHR 0x80]]"

text \<open>Remove encodings of the list from the front while one is there.\<close>

function strip_front :: "string list \<Rightarrow> string \<Rightarrow> string" where
  "strip_front es s =
     (case List.find (\<lambda>e. e \<noteq> [] \<and> prefix e s) es of
        None \<Rightarrow> s
      | Some e \<Rightarrow> strip_front es (drop (length e) s))"
  by pat_completeness auto
termination
proof (relation "measure (\<lambda>(es, s). length s)")
  fix es s e
  assume "List.find (\<lambda>e. e \<noteq> [] \<and> prefix e s) es = Some e"
  then have "e \<noteq> []" "prefix e s" by (auto simp: find_Some_iff)
  then show "((es, drop (length e) s), (es, s)) \<in> measure (\<lambda>(es, s). length s)"
    by (cases s) auto
qed simp

declare strip_front.simps [simp del]

definition TrimSpace :: "string \<Rightarrow> string" where
  "TrimSpace s =
     rev (strip_front (map rev space_encodings) (rev (strip_front space_encodings s)))"

lemma strip_front_suffix: "suffix (strip_front es s) s"
proof (induction es s rule: strip_front.induct)
  case (1 es s)
  show ?case
  proof (cases "List.find (\<lambda>e. e \<noteq> [] \<and> prefix e s) es")
    case None
    then show ?thesis by (simp add: strip_front.simps [of es s])
  next
    case (Some e)
    then have "suffix (strip_front es (drop (length e) s)) (drop (length e) s)" by (rule "1.IH")
    then have "suffix (strip_front es (drop (length e) s)) s"
      using suffix_drop suffix_order.trans by blast
    with Some show ?thesis by (simp add: strip_front.simps [of es s])
  qed
qed

lemma strip_front_id:
  assumes "\<forall>e\<in>set es. e \<noteq> [] \<longrightarrow> \<not> prefix e s"
  shows "strip_front es s = s"
proof -
  have "List.find (\<lambda>e. e \<noteq> [] \<and> prefix e s) es = None"
    using assms by (auto simp: find_None_iff)
  then show ?thesis by (simp add: strip_front.simps [of es s])
qed

text \<open>A byte that is the first or the last of no space encoding stops the trimming.\<close>

definition solid :: "char \<Rightarrow> bool" where
  "solid c \<longleftrightarrow> list_all (\<lambda>e. hd e \<noteq> c \<and> last e \<noteq> c) space_encodings"

lemma TrimSpace_solid:
  assumes "s = [] \<or> solid (hd s) \<and> solid (last s)"
  shows "TrimSpace s = s"
proof (cases "s = []")
  case True
  have "strip_front es [] = []" for es by (rule strip_front_id) auto
  with True show ?thesis by (simp add: TrimSpace_def)
next
  case False
  have ne: "e \<noteq> []" if "e \<in> set space_encodings" for e
    using that by (auto simp: space_encodings_def)
  have "\<not> prefix e s" if "e \<in> set space_encodings" for e
    using assms False that ne [OF that]
    by (cases e; cases s) (auto simp: solid_def list_all_iff)
  then have front: "strip_front space_encodings s = s" by (intro strip_front_id) blast
  have "\<not> prefix e (rev s)" if "e \<in> set (map rev space_encodings)" for e
  proof
    assume p: "prefix e (rev s)"
    from that obtain d where d: "d \<in> set space_encodings" "e = rev d" by auto
    then have "hd e = last d" "e \<noteq> []" using ne [OF d(1)] by (simp_all add: hd_rev)
    moreover have "hd e = hd (rev s)" using p \<open>e \<noteq> []\<close> by (auto simp: prefix_def)
    ultimately have "last s = last d" by (simp add: hd_rev)
    with assms False d(1) show False by (auto simp: solid_def list_all_iff)
  qed
  then have "strip_front (map rev space_encodings) (rev s) = rev s"
    by (intro strip_front_id) blast
  with front show ?thesis by (simp add: TrimSpace_def)
qed

lemma TrimSpace_set: "set (TrimSpace s) \<subseteq> set s"
proof -
  have a: "set (strip_front es t) \<subseteq> set t" for es t
    using strip_front_suffix set_mono_suffix by blast
  show ?thesis unfolding TrimSpace_def using a [of space_encodings s]
      a [of "map rev space_encodings" "rev (strip_front space_encodings s)"] by auto
qed

section \<open>Case\<close>

definition lower_char :: "char \<Rightarrow> char" where
  "lower_char c = (let n = (of_char c :: nat) in if 65 \<le> n \<and> n \<le> 90 then char_of (n + 32) else c)"

definition upper_char :: "char \<Rightarrow> char" where
  "upper_char c = (let n = (of_char c :: nat) in if 97 \<le> n \<and> n \<le> 122 then char_of (n - 32) else c)"

text \<open>
  Outside ASCII only the Kelvin sign (E2 84 AA) and the dotted capital I (C4 B0) have an
  ASCII lower case, and only the dotless i (C4 B1) and the long s (C5 BF) an ASCII upper
  case; \<open>EqualFold\<close> identifies the Kelvin sign with k and the long s with s.
\<close>

fun ToLower :: "string \<Rightarrow> string" where
  "ToLower [] = []"
| "ToLower (c # s) =
     (if c = CHR 0xE2 \<and> take 2 s = [CHR 0x84, CHR 0xAA] then CHR ''k'' # ToLower (drop 2 s)
      else if c = CHR 0xC4 \<and> take 1 s = [CHR 0xB0] then CHR ''i'' # ToLower (drop 1 s)
      else lower_char c # ToLower s)"

fun ToUpper :: "string \<Rightarrow> string" where
  "ToUpper [] = []"
| "ToUpper (c # s) =
     (if c = CHR 0xC4 \<and> take 1 s = [CHR 0xB1] then CHR ''I'' # ToUpper (drop 1 s)
      else if c = CHR 0xC5 \<and> take 1 s = [CHR 0xBF] then CHR ''S'' # ToUpper (drop 1 s)
      else upper_char c # ToUpper s)"

fun fold_case :: "string \<Rightarrow> string" where
  "fold_case [] = []"
| "fold_case (c # s) =
     (if c = CHR 0xE2 \<and> take 2 s = [CHR 0x84, CHR 0xAA] then CHR ''k'' # fold_case (drop 2 s)
      else if c = CHR 0xC5 \<and> take 1 s = [CHR 0xBF] then CHR ''s'' # fold_case (drop 1 s)
      else lower_char c # fold_case s)"

definition EqualFold :: "string \<Rightarrow> string \<Rightarrow> bool" where
  "EqualFold s t = (fold_case s = fold_case t)"

section \<open>Decimal numbers\<close>

definition digit_val :: "char \<Rightarrow> nat option" where
  "digit_val c = (let n = (of_char c :: nat) in if 48 \<le> n \<and> n \<le> 57 then Some (n - 48) else None)"

definition digit_char :: "nat \<Rightarrow> char" where
  "digit_char n = char_of (n + 48)"

fun parse_digits :: "nat \<Rightarrow> string \<Rightarrow> nat option" where
  "parse_digits a [] = Some a"
| "parse_digits a (c # s) =
     (case digit_val c of None \<Rightarrow> None | Some d \<Rightarrow> parse_digits (10 * a + d) s)"

text \<open>
  \<open>ParseUint\<close>, \<open>ParseInt\<close> and \<open>Atoi\<close> with base 10 and 64 bits. None is any error, of the
  syntax or of the range: no caller looks at the number returned with an error.
\<close>

definition ParseUint :: "string \<Rightarrow> int option" where
  "ParseUint s =
     (if s = [] then None
      else case parse_digits 0 s of
             None \<Rightarrow> None
           | Some n \<Rightarrow> if int n < 2 ^ 64 then Some (int n) else None)"

definition ParseInt :: "string \<Rightarrow> int option" where
  "ParseInt s =
     (case s of
        [] \<Rightarrow> None
      | c # r \<Rightarrow>
          (let neg = (c = CHR ''-'');
               digits = (if c = CHR ''+'' \<or> c = CHR ''-'' then r else s)
           in case ParseUint digits of
                None \<Rightarrow> None
              | Some un \<Rightarrow>
                  if \<not> neg \<and> un \<ge> 2 ^ 63 then None
                  else if neg \<and> un > 2 ^ 63 then None
                  else Some (if neg then - un else un)))"

fun format_nat :: "nat \<Rightarrow> string" where
  "format_nat n =
     (if n < 10 then [digit_char n] else format_nat (n div 10) @ [digit_char (n mod 10)])"

declare format_nat.simps [simp del]

definition FormatInt :: "int \<Rightarrow> string" where
  "FormatInt i = (if i < 0 then CHR ''-'' # format_nat (nat (- i)) else format_nat (nat i))"

definition is_digit :: "char \<Rightarrow> bool" where
  "is_digit c \<longleftrightarrow> digit_val c \<noteq> None"

lemma digit_val_char [simp]: "d < 10 \<Longrightarrow> digit_val (digit_char d) = Some d"
  by (simp add: digit_val_def digit_char_def)

lemma is_digit_char [simp]: "d < 10 \<Longrightarrow> is_digit (digit_char d)"
  by (simp add: is_digit_def)

lemma not_digit [simp]:
  "\<not> is_digit (CHR ''-'')" "\<not> is_digit (CHR ''+'')" "\<not> is_digit (CHR '','')"
  "\<not> is_digit (CHR ''/'')" "\<not> is_digit (CHR ''='')" "\<not> is_digit (CHR ''*'')"
  by (simp_all add: is_digit_def digit_val_def)

lemma parse_digits_snoc:
  "parse_digits a (s @ [c]) =
     (case parse_digits a s of None \<Rightarrow> None
      | Some v \<Rightarrow> (case digit_val c of None \<Rightarrow> None | Some d \<Rightarrow> Some (10 * v + d)))"
  by (induction s arbitrary: a) (auto split: option.splits)

lemma parse_digits_all: "parse_digits a s = Some n \<Longrightarrow> list_all is_digit s"
  by (induction s arbitrary: a) (auto simp: is_digit_def split: option.splits)

lemma format_nat_digits: "list_all is_digit (format_nat n)"
proof (induction n rule: format_nat.induct)
  case (1 n)
  then show ?case by (cases "n < 10") (simp_all add: format_nat.simps [of n])
qed

lemma format_nat_nonempty [simp]: "format_nat n \<noteq> []"
  by (simp add: format_nat.simps [of n])

lemma parse_format_nat: "parse_digits 0 (format_nat n) = Some n"
proof (induction n rule: format_nat.induct)
  case (1 n)
  then show ?case
    by (cases "n < 10") (simp_all add: format_nat.simps [of n] parse_digits_snoc)
qed

lemma format_nat_no_sign: "c \<in> set (format_nat n) \<Longrightarrow> is_digit c"
  using format_nat_digits by (auto simp: list_all_iff)

lemma ParseUint_format [simp]: "int n < 2 ^ 64 \<Longrightarrow> ParseUint (format_nat n) = Some (int n)"
  by (simp add: ParseUint_def parse_format_nat)

lemma ParseInt_no_sign:
  assumes "s \<noteq> []" and "hd s \<noteq> CHR ''-''" and "hd s \<noteq> CHR ''+''"
  shows "ParseInt s =
     (case ParseUint s of None \<Rightarrow> None | Some n \<Rightarrow> if n \<ge> 2 ^ 63 then None else Some n)"
  using assms by (cases s) (simp_all add: ParseInt_def Let_def split: option.split)

text \<open>Printing and parsing are inverse on the numbers of 64 bits.\<close>

lemma hd_format_nat: "is_digit (hd (format_nat n))"
  using format_nat_no_sign [of "hd (format_nat n)" n] by simp

lemma ParseInt_FormatInt:
  assumes "in_i64 i"
  shows "ParseInt (FormatInt i) = Some i"
proof (cases "i < 0")
  case True
  with assms show ?thesis
    by (simp add: FormatInt_def ParseInt_def i64_bounds Let_def)
next
  case False
  have "hd (format_nat (nat i)) \<noteq> CHR ''-''" "hd (format_nat (nat i)) \<noteq> CHR ''+''"
    using hd_format_nat [of "nat i"] not_digit by metis+
  with False assms show ?thesis
    by (simp add: FormatInt_def ParseInt_no_sign i64_bounds)
qed

lemma ParseInt_range: "ParseInt s = Some i \<Longrightarrow> in_i64 i"
  by (auto simp: ParseInt_def ParseUint_def i64_bounds Let_def split: list.splits option.splits if_splits)

lemma ParseInt_digits:
  assumes "ParseInt s = Some i" and "i \<ge> 0"
  shows "0 \<le> i \<and> i \<le> max_i64"
  using ParseInt_range [OF assms(1)] assms(2) by (simp add: i64_bounds)

interpretation decimal: codec in_i64 FormatInt ParseInt
  by unfold_locales (rule ParseInt_FormatInt)

lemma FormatInt_nonneg: "0 \<le> i \<Longrightarrow> FormatInt i = format_nat (nat i)"
  by (simp add: FormatInt_def)

lemma FormatInt_nonempty [simp]: "FormatInt i \<noteq> []"
  by (simp add: FormatInt_def)

lemma solid_digit: "is_digit c \<Longrightarrow> solid c"
  by (auto simp: is_digit_def digit_val_def solid_def space_encodings_def Let_def split: if_splits)

lemma TrimSpace_digits:
  assumes "list_all is_digit s"
  shows "TrimSpace s = s"
proof (rule TrimSpace_solid)
  show "s = [] \<or> solid (hd s) \<and> solid (last s)"
    using assms by (cases s) (auto simp: list_all_iff solid_digit)
qed

end
