(* ===== verification/Http_Range.thy ===== *)
theory Http_Range
  imports Go_Strings
begin

text \<open>
  HTTP byte ranges on both sides of the proxy: the \<open>Range\<close> header a player sends
  (\<open>parseSingleRange\<close> of serve.go), the reply head of \<open>serveSparse\<close>, and towards the
  upstream the \<open>Range\<close> header of \<open>httpFetchRange\<close> and the probe of \<open>httpProbe\<close> with
  \<open>parseContentRangeTotal\<close> (jobs.go).
\<close>

section \<open>The range of a request\<close>

text \<open>The results are those of the code: start, end, ok, satisfiable.\<close>

definition parseSingleRange :: "string \<Rightarrow> int \<Rightarrow> int \<times> int \<times> bool \<times> bool" where
  "parseSingleRange header size' =
     (case CutPrefix header ''bytes='' of
        None \<Rightarrow> (0, 0, False, True)
      | Some afterPrefix \<Rightarrow>
          (let spec = TrimSpace afterPrefix
           in if spec = '''' \<or> Contains spec '','' then (0, 0, False, True)
              else case Cut spec (CHR ''-'') of
                None \<Rightarrow> (0, 0, False, True)
              | Some (before, after) \<Rightarrow>
                  (let startStr = TrimSpace before; endStr = TrimSpace after
                   in if startStr = '''' then
                        (if endStr = '''' then (0, 0, False, True)
                         else case ParseInt endStr of
                           None \<Rightarrow> (0, 0, False, False)
                         | Some n \<Rightarrow>
                             if n \<le> 0 then (0, 0, False, False)
                             else (let n = (if n > size' then size' else n)
                                   in (sub64 size' n, sub64 size' 1, True, True)))
                      else case ParseInt startStr of
                        None \<Rightarrow> (0, 0, False, False)
                      | Some s \<Rightarrow>
                          if s < 0 then (0, 0, False, False)
                          else if s \<ge> size' then (0, 0, False, False)
                          else if endStr = '''' then (s, sub64 size' 1, True, True)
                          else case ParseInt endStr of
                            None \<Rightarrow> (0, 0, False, False)
                          | Some e \<Rightarrow>
                              if e < s then (0, 0, False, False)
                              else if e \<ge> size' then (s, sub64 size' 1, True, True)
                              else (s, e, True, True))))"

section \<open>The head of a reply\<close>

text \<open>
  The reply of \<open>serveSparse\<close> before any byte of the body: status and headers, and the
  range of the body when one follows (none for an error or a HEAD request).
\<close>

record reply =
  rp_status :: int
  rp_headers :: "string \<Rightarrow> string option"
  rp_range :: "(int \<times> int) option"

definition contentRange :: "int \<Rightarrow> int \<Rightarrow> int \<Rightarrow> string" where
  "contentRange s e n = ''bytes '' @ FormatInt s @ ''-'' @ FormatInt e @ ''/'' @ FormatInt n"

definition sparseHead :: "string \<Rightarrow> string \<Rightarrow> int \<Rightarrow> reply" where
  "sparseHead meth rangeHeader size' =
     (let h = [''Content-Type'' \<mapsto> ''video/mp4'', ''Accept-Ranges'' \<mapsto> ''bytes''];
          finish = (\<lambda>h st s e.
             \<lparr>rp_status = st,
              rp_headers = h(''Content-Length'' \<mapsto> FormatInt (add64 (sub64 e s) 1)),
              rp_range = (if meth = ''HEAD'' then None else Some (s, e))\<rparr>)
      in if rangeHeader = '''' then finish h 200 0 (sub64 size' 1)
         else case parseSingleRange rangeHeader size' of (s, e, ok, satisfiable) \<Rightarrow>
           if \<not> satisfiable then
             \<lparr>rp_status = 416,
              rp_headers = h(''Content-Range'' \<mapsto> ''bytes */'' @ FormatInt size',
                             ''Content-Type'' \<mapsto> ''text/plain; charset=utf-8'',
                             ''X-Content-Type-Options'' \<mapsto> ''nosniff''),
              rp_range = None\<rparr>
           else if ok then finish (h(''Content-Range'' \<mapsto> contentRange s e size')) 206 s e
           else finish h 200 0 (sub64 size' 1))"

section \<open>Towards the upstream\<close>

definition fetchRangeHeader :: "int \<Rightarrow> int \<Rightarrow> string option" where
  "fetchRangeHeader start end' =
     (if \<not> (start = 0 \<and> end' < 0) then
        (if end' < 0 then Some (''bytes='' @ FormatInt start @ ''-'')
         else Some (''bytes='' @ FormatInt start @ ''-'' @ FormatInt end'))
      else None)"

definition parseContentRangeTotal :: "string \<Rightarrow> int" where
  "parseContentRangeTotal header =
     (case after_last header (CHR ''/'') of
        None \<Rightarrow> -1
      | Some rest \<Rightarrow> (case ParseInt (TrimSpace rest) of None \<Rightarrow> -1 | Some tot \<Rightarrow> tot))"

text \<open>
  What \<open>httpProbe\<close> makes of an answer: the size (-1 when unknown), whether ranges work,
  and an error. The answer to a request the client could not send is \<open>Inl\<close>.
\<close>

definition httpProbe :: "go_error + (int \<times> string \<times> int) \<Rightarrow> int \<times> bool \<times> go_error option" where
  "httpProbe answer =
     (case answer of
        Inl e \<Rightarrow> (0, False, Some e)
      | Inr (st, contentRangeHdr, contentLength) \<Rightarrow>
          if st = 206 then
            (let tot = parseContentRangeTotal contentRangeHdr
             in if tot > 0 then (tot, True, None) else (-1, False, None))
          else if st = 200 then (contentLength, False, None)
          else (0, False, Some (Msg (''upstream returned status '' @ FormatInt st))))"

section \<open>Lemmas\<close>

lemma Contains_char: "Contains s [c] \<longleftrightarrow> c \<in> set s"
  by (auto simp: Contains_def sublist_def in_set_conv_decomp)

lemma digits_no: "list_all is_digit s \<Longrightarrow> \<not> is_digit c \<Longrightarrow> c \<notin> set s"
  by (auto simp: list_all_iff)

lemma solid_minus [simp]: "solid (CHR ''-'')"
  by (simp add: solid_def space_encodings_def)

lemma TrimSpace_empty [simp]: "TrimSpace '''' = ''''"
  by (rule TrimSpace_solid) simp

lemma TrimSpace_spec:
  assumes "list_all is_digit a" and "list_all is_digit b"
  shows "TrimSpace (a @ CHR ''-'' # b) = a @ CHR ''-'' # b"
proof (rule TrimSpace_solid, rule disjI2, rule conjI)
  show "solid (hd (a @ CHR ''-'' # b))"
    using assms by (cases a) (auto intro: solid_digit)
  show "solid (last (a @ CHR ''-'' # b))"
    using assms by (cases b rule: rev_cases) (auto intro: solid_digit)
qed

text \<open>The parse of a header with digits on both sides of the dash, either side empty.\<close>

lemma parseSingleRange_digits:
  assumes "list_all is_digit a" and "list_all is_digit b"
  shows "parseSingleRange (''bytes='' @ a @ CHR ''-'' # b) size' =
     (if a = '''' then
        (if b = '''' then (0, 0, False, True)
         else case ParseInt b of
           None \<Rightarrow> (0, 0, False, False)
         | Some n \<Rightarrow>
             if n \<le> 0 then (0, 0, False, False)
             else (sub64 size' (min n size'), sub64 size' 1, True, True))
      else case ParseInt a of
        None \<Rightarrow> (0, 0, False, False)
      | Some s \<Rightarrow>
          if s < 0 \<or> s \<ge> size' then (0, 0, False, False)
          else if b = '''' then (s, sub64 size' 1, True, True)
          else case ParseInt b of
            None \<Rightarrow> (0, 0, False, False)
          | Some e \<Rightarrow>
              if e < s then (0, 0, False, False)
              else (s, if e \<ge> size' then sub64 size' 1 else e, True, True))"
proof -
  have m: "CHR ''-'' \<notin> set a" using digits_no [OF assms(1)] by simp
  have c: "\<not> Contains (a @ CHR ''-'' # b) '',''"
    using digits_no [OF assms(1)] digits_no [OF assms(2)] by (simp add: Contains_char)
  show ?thesis
    unfolding parseSingleRange_def CutPrefix_append TrimSpace_spec [OF assms]
      Cut_append [OF m] option.case prod.case Let_def
      TrimSpace_digits [OF assms(1)] TrimSpace_digits [OF assms(2)]
    using c by (auto simp: min_def split: option.splits)
qed

lemma FormatInt_digits: "0 \<le> i \<Longrightarrow> list_all is_digit (FormatInt i)"
  by (simp add: FormatInt_nonneg format_nat_digits)

lemma ParseInt_Format: "0 \<le> i \<Longrightarrow> i \<le> max_i64 \<Longrightarrow> ParseInt (FormatInt i) = Some i"
  by (rule decimal.dec_enc) (simp add: i64_bounds)

lemma parseSingleRange_bounds:
  assumes "0 < size'" and "size' \<le> max_i64" and "parseSingleRange h size' = (s, e, True, sat)"
  shows "sat \<and> 0 \<le> s \<and> s \<le> e \<and> e < size'"
proof -
  have one: "sub64 size' 1 = size' - 1"
    using assms by (intro sub64_nonneg) (auto simp: max_i64_def)
  have m: "sub64 size' n = size' - n" if "0 < n" "n \<le> size'" for n
    using assms that by (intro sub64_nonneg) auto
  show ?thesis
    using assms(1,3) one m
    by (auto simp: parseSingleRange_def Let_def split: option.splits if_splits prod.splits)
qed

lemma parseContentRangeTotal_format:
  assumes "0 \<le> n" and "n \<le> max_i64"
  shows "parseContentRangeTotal (contentRange s e n) = n"
proof -
  have d: "list_all is_digit (FormatInt n)" using assms(1) by (rule FormatInt_digits)
  have "after_last ((''bytes '' @ FormatInt s @ ''-'' @ FormatInt e) @ CHR ''/'' # FormatInt n) (CHR ''/'')
     = Some (FormatInt n)"
    using digits_no [OF d] by (intro after_last_append) simp
  then show ?thesis
    using assms d by (simp add: parseContentRangeTotal_def contentRange_def TrimSpace_digits ParseInt_Format)
qed

lemma sparseHead_range:
  assumes "0 < size'" and "size' \<le> max_i64" and "rp_range (sparseHead meth h size') = Some (s, e)"
  shows "0 \<le> s \<and> s \<le> e \<and> e < size'"
proof -
  have "sub64 size' 1 = size' - 1" using assms by (intro sub64_nonneg) (auto simp: max_i64_def)
  then show ?thesis
    using assms parseSingleRange_bounds [OF assms(1,2)]
    by (auto simp: sparseHead_def Let_def split: if_splits prod.splits)
qed

section \<open>Properties\<close>

text \<open>
  The ranges of RFC 9110 are read as they mean: for a size and bounds that fit an
  \<open>int64\<close>, \<open>bytes=a-b\<close> is the bytes from \<open>a\<close> to the smaller of \<open>b\<close> and the last one,
  \<open>bytes=a-\<close> those from \<open>a\<close> on, \<open>bytes=-n\<close> the last \<open>n\<close> (the whole file when it is
  shorter); a first byte past the end, a last byte before the first and an empty suffix are
  not satisfiable.
\<close>

theorem parseSingleRange_meaning:
  assumes "0 < size'" and "size' \<le> max_i64"
    and "0 \<le> a" and "a \<le> max_i64" and "0 \<le> b" and "b \<le> max_i64"
  shows "parseSingleRange (''bytes='' @ FormatInt a @ ''-'' @ FormatInt b) size' =
           (if a < size' \<and> a \<le> b then (a, min b (size' - 1), True, True) else (0, 0, False, False)) \<and>
         parseSingleRange (''bytes='' @ FormatInt a @ ''-'') size' =
           (if a < size' then (a, size' - 1, True, True) else (0, 0, False, False)) \<and>
         parseSingleRange (''bytes=-'' @ FormatInt b) size' =
           (if 0 < b then (size' - min b size', size' - 1, True, True) else (0, 0, False, False))"
proof (intro conjI)
  have one: "sub64 size' 1 = size' - 1" and suf: "0 < b \<Longrightarrow> sub64 size' (min b size') = size' - min b size'"
    using assms by (auto intro!: sub64_nonneg simp: max_i64_def)
  note d = FormatInt_digits [OF assms(3)] FormatInt_digits [OF assms(5)]
  note v = ParseInt_Format [OF assms(3,4)] ParseInt_Format [OF assms(5,6)]
  show "parseSingleRange (''bytes='' @ FormatInt a @ ''-'' @ FormatInt b) size' =
           (if a < size' \<and> a \<le> b then (a, min b (size' - 1), True, True) else (0, 0, False, False))"
    using assms parseSingleRange_digits [OF d] one by (simp add: v min_def)
  show "parseSingleRange (''bytes='' @ FormatInt a @ ''-'') size' =
           (if a < size' then (a, size' - 1, True, True) else (0, 0, False, False))"
    using assms parseSingleRange_digits [OF d(1), of "''''"] one by (simp add: v)
  show "parseSingleRange (''bytes=-'' @ FormatInt b) size' =
           (if 0 < b then (size' - min b size', size' - 1, True, True) else (0, 0, False, False))"
    using assms parseSingleRange_digits [of "''''", OF _ d(2)] suf one by (simp add: v)
qed

theorem parseSingleRange_meaning_witness:
  "parseSingleRange (''bytes='' @ FormatInt 2 @ ''-'' @ FormatInt 9) 7 = (2, 6, True, True) \<and>
   parseSingleRange (''bytes='' @ FormatInt 2 @ ''-'') 7 = (2, 6, True, True) \<and>
   parseSingleRange (''bytes=-'' @ FormatInt 9) 7 = (0, 6, True, True)"
  using parseSingleRange_meaning [of 7 2 9] by (simp add: max_i64_def)

text \<open>
  The head of a range reply is consistent, whatever the \<open>Range\<close> header: it is a 416
  without a body, or it announces exactly the bytes from \<open>s\<close> to \<open>e\<close> of the file, with
  \<open>Content-Length\<close> their number, all of them for a 200 and for a 206 the \<open>Content-Range\<close>
  with the same bounds and the size of the file; a HEAD request has the same headers and no
  body.
\<close>

theorem sparseHead_consistent:
  assumes "0 < size'" and "size' \<le> max_i64"
  shows "rp_status (sparseHead meth h size') = 416 \<and> rp_range (sparseHead meth h size') = None \<and>
           rp_headers (sparseHead meth h size') ''Content-Range'' = Some (''bytes */'' @ FormatInt size')
       \<or> (\<exists>s e. 0 \<le> s \<and> s \<le> e \<and> e < size' \<and>
           rp_headers (sparseHead meth h size') ''Content-Length'' = Some (FormatInt (e - s + 1)) \<and>
           rp_range (sparseHead meth h size') = (if meth = ''HEAD'' then None else Some (s, e)) \<and>
           (rp_status (sparseHead meth h size') = 200 \<and> s = 0 \<and> e = size' - 1 \<and>
              rp_headers (sparseHead meth h size') ''Content-Range'' = None
            \<or> rp_status (sparseHead meth h size') = 206 \<and>
              rp_headers (sparseHead meth h size') ''Content-Range'' = Some (contentRange s e size')))"
proof -
  have one: "sub64 size' 1 = size' - 1" using assms by (intro sub64_nonneg) (auto simp: max_i64_def)
  have len: "add64 (sub64 e s) 1 = e - s + 1" if "0 \<le> s" "s \<le> e" "e < size'" for s e
  proof -
    have "sub64 e s = e - s" using that assms by (intro sub64_nonneg) auto
    then show ?thesis using that assms by (simp add: add64_nonneg)
  qed
  obtain s e ok sat where p: "parseSingleRange h size' = (s, e, ok, sat)"
    by (cases "parseSingleRange h size'") auto
  have full: "sparseHead meth h size' =
      \<lparr>rp_status = 200,
       rp_headers = [''Content-Type'' \<mapsto> ''video/mp4'', ''Accept-Ranges'' \<mapsto> ''bytes'',
         ''Content-Length'' \<mapsto> FormatInt size'],
       rp_range = (if meth = ''HEAD'' then None else Some (0, size' - 1))\<rparr>"
    if "h = '''' \<or> sat \<and> \<not> ok"
    using that p one len [of 0 "size' - 1"] assms by (auto simp: sparseHead_def Let_def)
  consider (whole) "h = '''' \<or> sat \<and> \<not> ok" | (unsat) "h \<noteq> ''''" "\<not> sat" | (part) "h \<noteq> ''''" "sat" "ok"
    by blast
  then show ?thesis
  proof cases
    case whole
    show ?thesis unfolding full [OF whole] using assms
      by (intro disjI2 exI [of _ 0] exI [of _ "size' - 1"]) simp
  next
    case unsat
    then show ?thesis using p by (simp add: sparseHead_def Let_def)
  next
    case part
    then have b: "0 \<le> s" "s \<le> e" "e < size'"
      using parseSingleRange_bounds [OF assms] p by simp_all
    from part show ?thesis using p b
      by (intro disjI2 exI [of _ s] exI [of _ e]) (simp add: sparseHead_def Let_def len)
  qed
qed

theorem sparseHead_consistent_witness:
  "rp_status (sparseHead ''GET'' ''bytes=9-'' 7) = 416 \<or>
   (\<exists>s e. 0 \<le> s \<and> s \<le> e \<and> e < (7::int) \<and>
     rp_headers (sparseHead ''GET'' ''bytes=9-'' 7) ''Content-Length'' = Some (FormatInt (e - s + 1)))"
  using sparseHead_consistent [of 7 "''GET''" "''bytes=9-''"] by (auto simp: max_i64_def)

text \<open>
  The two sides of the proxy fit together: the \<open>Range\<close> header \<open>httpFetchRange\<close> sends
  for a reserved range is read back by \<open>parseSingleRange\<close> as that range, and the head
  \<open>serveSparse\<close> gives to the probe request \<open>bytes=0-0\<close> makes \<open>httpProbe\<close> find the size
  and the support of ranges.
\<close>

theorem range_headers_roundtrip:
  assumes "0 \<le> s" and "s \<le> e" and "e < size'" and "size' \<le> max_i64"
  shows "map_option (\<lambda>h. parseSingleRange h size') (fetchRangeHeader s e) = Some (s, e, True, True) \<and>
         httpProbe (Inr (rp_status (sparseHead ''GET'' ''bytes=0-0'' size'),
           the (rp_headers (sparseHead ''GET'' ''bytes=0-0'' size') ''Content-Range''), 1)) =
         (size', True, None)"
proof (rule conjI)
  show "map_option (\<lambda>h. parseSingleRange h size') (fetchRangeHeader s e) = Some (s, e, True, True)"
    using assms parseSingleRange_digits [of "FormatInt s" "FormatInt e" size']
    by (simp add: fetchRangeHeader_def FormatInt_digits ParseInt_Format)
  have "sub64 size' 1 = size' - 1" using assms by (intro sub64_nonneg) (auto simp: max_i64_def)
  moreover have z: "FormatInt 0 = ''0''" by code_simp
  moreover have "ParseInt ''0'' = Some 0" using ParseInt_Format [of 0] by (simp add: z max_i64_def)
  moreover have "list_all is_digit ''0''" using FormatInt_digits [of 0] by (simp add: z)
  ultimately have "parseSingleRange ''bytes=0-0'' size' = (0, 0, True, True)"
    using assms parseSingleRange_digits [of "''0''" "''0''" size'] by simp
  then have "rp_status (sparseHead ''GET'' ''bytes=0-0'' size') = 206"
    and "rp_headers (sparseHead ''GET'' ''bytes=0-0'' size') ''Content-Range'' = Some (contentRange 0 0 size')"
    by (simp_all add: sparseHead_def Let_def)
  then show "httpProbe (Inr (rp_status (sparseHead ''GET'' ''bytes=0-0'' size'),
           the (rp_headers (sparseHead ''GET'' ''bytes=0-0'' size') ''Content-Range''), 1)) =
         (size', True, None)"
    using assms by (simp add: httpProbe_def parseContentRangeTotal_format)
qed

theorem range_headers_roundtrip_witness:
  "map_option (\<lambda>h. parseSingleRange h 7) (fetchRangeHeader 2 4) = Some (2, 4, True, True) \<and>
   httpProbe (Inr (rp_status (sparseHead ''GET'' ''bytes=0-0'' 7),
     the (rp_headers (sparseHead ''GET'' ''bytes=0-0'' 7) ''Content-Range''), 1)) = (7, True, None)"
  using range_headers_roundtrip [of 2 4 7] by (simp add: max_i64_def)

end
