(* ===== verification/Serve_Sparse.thy ===== *)
theory Serve_Sparse
  imports Fill_Jobs Http_Range
begin

text \<open>
  \<open>serveSparse\<close> of serve.go: a client that reads a sparse file while it is being filled.
  The head of the reply is \<open>sparseHead\<close>; here are the loops that send the body, as the
  turns of a client that runs beside the fill system.
\<close>

section \<open>The client\<close>

text \<open>
  The places of the loop: at the test of the outer loop, in \<open>waitByte\<close>, before the second
  \<open>availableEnd\<close>, at the test of the inner loop, after the loop, and returned early.
\<close>

datatype place = Asking | Waiting | Measuring | Sending | Served | Gone

record client =
  cl_job :: nat
  cl_start :: int
  cl_end :: int
  cl_pos :: int
  cl_limit :: int
  cl_place :: place
  cl_out :: "byte list"

definition serveStart :: "nat \<Rightarrow> string \<Rightarrow> string \<Rightarrow> int \<Rightarrow> go_error option \<Rightarrow> client option" where
  "serveStart j meth rangeHeader size' open_err =
     (case rp_range (sparseHead meth rangeHeader size') of
        None \<Rightarrow> None
      | Some (s, e) \<Rightarrow>
          (case open_err of
             Some _ \<Rightarrow> None
           | None \<Rightarrow> Some \<lparr>cl_job = j, cl_start = s, cl_end = e, cl_pos = s, cl_limit = s,
                            cl_place = Asking, cl_out = []\<rparr>))"

text \<open>
  What the calls of a turn answer: the context, how many bytes \<open>ReadAt\<close> delivers of those
  asked for and its error, how many bytes of them reach the client and the error of the
  write.
\<close>

record env =
  e_ctx :: "go_error option"
  e_read :: nat
  e_rerr :: "go_error option"
  e_sent :: nat
  e_werr :: "go_error option"

definition file_bytes :: "sparse_file \<Rightarrow> int \<Rightarrow> nat \<Rightarrow> byte list" where
  "file_bytes f off n = map (\<lambda>k. sf_data f (off + int k)) [0..<n]"

text \<open>One iteration of the inner loop.\<close>

definition sendTurn :: "sparse_file \<Rightarrow> env \<Rightarrow> client \<Rightarrow> client" where
  "sendTurn f v c =
     (if \<not> cl_pos c < cl_limit c then c\<lparr>cl_place := Asking\<rparr>
      else
        (let n = min (sub64 (cl_limit c) (cl_pos c)) downloadChunkSize;
             rn = min (e_read v) (nat n);
             bs = file_bytes f (cl_pos c) rn
         in if rn > 0 \<and> e_werr v \<noteq> None
            then c\<lparr>cl_out := cl_out c @ take (e_sent v) bs, cl_place := Gone\<rparr>
            else c\<lparr>cl_out := cl_out c @ bs, cl_pos := add64 (cl_pos c) (int rn),
                   cl_place := (if e_rerr v \<noteq> None then Asking else Sending)\<rparr>))"

text \<open>A turn of the client on the state of the fill system. None: it cannot run, or not yet.\<close>

fun serveTurn :: "env \<Rightarrow> fill_sys \<times> client \<Rightarrow> (fill_sys \<times> client) option" where
  "serveTurn v (s, c) =
     (case fs_files s (cl_job c) of
        None \<Rightarrow> None
      | Some f \<Rightarrow>
          (case cl_place c of
             Asking \<Rightarrow>
               if cl_pos c \<le> cl_end c
               then map_option (\<lambda>t. (t, c\<lparr>cl_place := Waiting\<rparr>)) (requestFillAt (cl_job c) (cl_pos c) s)
               else Some (s, c\<lparr>cl_place := Served\<rparr>)
           | Waiting \<Rightarrow>
               (case waitByte f (e_ctx v) (cl_pos c) of
                  Ready \<Rightarrow> Some (s, c\<lparr>cl_place := Measuring\<rparr>)
                | Failed _ \<Rightarrow> Some (s, c\<lparr>cl_place := Gone\<rparr>)
                | Blocked \<Rightarrow> None)
           | Measuring \<Rightarrow>
               Some (s, c\<lparr>cl_limit := min (availableEnd f (cl_pos c)) (add64 (cl_end c) 1),
                          cl_place := Sending\<rparr>)
           | Sending \<Rightarrow> Some (s, sendTurn f v c)
           | Served \<Rightarrow> None
           | Gone \<Rightarrow> None))"

text \<open>The client and the goroutines of the fill system in any interleaving.\<close>

inductive serve_step ::
  "(nat \<Rightarrow> int \<Rightarrow> byte) \<Rightarrow> bool \<Rightarrow> fill_sys \<times> client \<Rightarrow> fill_sys \<times> client \<Rightarrow> bool"
  for U :: "nat \<Rightarrow> int \<Rightarrow> byte" and honest :: bool
where
  others: "fill_step U honest s t \<Longrightarrow> serve_step U honest (s, c) (t, c)"
| turn: "serveTurn v (s, c) = Some (t, d) \<Longrightarrow> serve_step U honest (s, c) (t, d)"

text \<open>The runs that start when a request is accepted in a reachable state.\<close>

inductive serve_reach ::
  "(nat \<Rightarrow> int \<Rightarrow> byte) \<Rightarrow> bool \<Rightarrow> fill_sys \<times> client \<Rightarrow> bool"
  for U :: "nat \<Rightarrow> int \<Rightarrow> byte" and honest :: bool
where
  accept:
    "fill_reach U honest s \<Longrightarrow> fs_files s j = Some f \<Longrightarrow> 0 < sf_size f \<Longrightarrow>
     serveStart j meth hdr (sf_size f) None = Some c \<Longrightarrow> serve_reach U honest (s, c)"
| go_on: "serve_reach U honest x \<Longrightarrow> serve_step U honest x y \<Longrightarrow> serve_reach U honest y"

section \<open>The invariant of the client\<close>

definition up_bytes :: "(nat \<Rightarrow> int \<Rightarrow> byte) \<Rightarrow> nat \<Rightarrow> int \<Rightarrow> int \<Rightarrow> byte list" where
  "up_bytes U j a b = map (\<lambda>k. U j (a + int k)) [0..<nat (b - a)]"

definition client_ok :: "(nat \<Rightarrow> int \<Rightarrow> byte) \<Rightarrow> sparse_file \<Rightarrow> client \<Rightarrow> bool" where
  "client_ok U f c \<longleftrightarrow>
     0 \<le> cl_start c \<and> cl_start c \<le> cl_pos c \<and> cl_pos c \<le> cl_end c + 1 \<and> cl_end c < sf_size f \<and>
     (cl_place c = Waiting \<or> cl_place c = Measuring \<longrightarrow> cl_pos c \<le> cl_end c) \<and>
     (cl_place c = Sending \<longrightarrow>
        cl_limit c \<le> cl_end c + 1 \<and> {cl_pos c..<cl_limit c} \<subseteq> sf_have f) \<and>
     (cl_place c = Served \<longrightarrow> cl_pos c = cl_end c + 1) \<and>
     (if cl_place c = Gone
      then prefix (cl_out c) (up_bytes U (cl_job c) (cl_start c) (cl_end c + 1))
      else cl_out c = up_bytes U (cl_job c) (cl_start c) (cl_pos c))"

lemma up_bytes_append:
  assumes "a \<le> b" and "b \<le> c"
  shows "up_bytes U j a c = up_bytes U j a b @ up_bytes U j b c"
proof -
  obtain m n where m: "b = a + int m" and n: "c = b + int n"
    using assms by (metis zle_iff_zadd)
  have "[0..<m + n] = [0..<m] @ map (\<lambda>k. k + m) [0..<n]"
    by (subst upt_add_eq_append) (simp_all only: map_add_upt add.commute [of n m] le0)
  then have "map (\<lambda>k. U j (a + int k)) [0..<m + n] =
      map (\<lambda>k. U j (a + int k)) [0..<m] @ map (\<lambda>k. U j (a + int m + int k)) [0..<n]"
    by (simp add: add.assoc add.commute [of "int m"])
  moreover have "nat (c - a) = m + n" "nat (b - a) = m" "nat (c - b) = n" by (simp_all add: m n)
  ultimately show ?thesis by (simp add: up_bytes_def m)
qed

lemma up_bytes_prefix: "a \<le> b \<Longrightarrow> b \<le> c \<Longrightarrow> prefix (up_bytes U j a b) (up_bytes U j a c)"
  by (simp add: up_bytes_append [of a b c])

lemma up_bytes_empty [simp]: "up_bytes U j a a = []"
  by (simp add: up_bytes_def)

lemma length_up_bytes: "length (up_bytes U j a b) = nat (b - a)"
  by (simp add: up_bytes_def)

lemma file_bytes_up:
  assumes "\<And>x. a \<le> x \<Longrightarrow> x < a + int n \<Longrightarrow> sf_data f x = U j x"
  shows "file_bytes f a n = up_bytes U j a (a + int n)"
  using assms by (simp add: file_bytes_def up_bytes_def)

lemma client_ok_keeps:
  assumes "client_ok U f c" and "sf_size g = sf_size f" and "sf_have f \<subseteq> sf_have g"
  shows "client_ok U g c"
  using assms by (auto simp: client_ok_def)

lemma sendTurn_ok:
  assumes ok: "client_ok U f c" and sz: "sf_size f + downloadChunkSize \<le> max_i64"
    and data: "\<forall>x\<in>sf_have f. sf_data f x = U (cl_job c) x" and pl: "cl_place c = Sending"
  shows "client_ok U f (sendTurn f v c)"
proof (cases "cl_pos c < cl_limit c")
  case False
  with ok pl show ?thesis by (simp add: client_ok_def sendTurn_def)
next
  case True
  let ?n = "min (sub64 (cl_limit c) (cl_pos c)) downloadChunkSize"
  let ?rn = "min (e_read v) (nat ?n)"
  let ?bs = "file_bytes f (cl_pos c) ?rn"
  have b: "0 \<le> cl_start c" "cl_start c \<le> cl_pos c" "cl_limit c \<le> cl_end c + 1" "cl_end c < sf_size f"
      and hv: "{cl_pos c..<cl_limit c} \<subseteq> sf_have f"
      and out: "cl_out c = up_bytes U (cl_job c) (cl_start c) (cl_pos c)"
    using ok pl by (simp_all add: client_ok_def)
  have d: "0 \<le> downloadChunkSize" by (simp add: downloadChunkSize_def)
  have "sub64 (cl_limit c) (cl_pos c) = cl_limit c - cl_pos c"
    using True b sz d by (intro sub64_nonneg) linarith+
  then have rn: "cl_pos c + int ?rn \<le> cl_limit c" using True by linarith
  have add: "add64 (cl_pos c) (int ?rn) = cl_pos c + int ?rn"
    using rn b sz d by (intro add64_nonneg) linarith+
  have bs: "?bs = up_bytes U (cl_job c) (cl_pos c) (cl_pos c + int ?rn)"
  proof (rule file_bytes_up)
    fix x assume "cl_pos c \<le> x" "x < cl_pos c + int ?rn"
    with rn have "x \<in> {cl_pos c..<cl_limit c}" by simp
    with hv data show "sf_data f x = U (cl_job c) x" by blast
  qed
  have all: "cl_out c @ ?bs = up_bytes U (cl_job c) (cl_start c) (cl_pos c + int ?rn)"
    unfolding out bs using b(2) by (intro up_bytes_append [symmetric]) simp_all
  show ?thesis
  proof (cases "?rn > 0 \<and> e_werr v \<noteq> None")
    case t: True
    have "prefix (cl_out c @ take (e_sent v) ?bs) (cl_out c @ ?bs)"
      by (simp add: take_is_prefix)
    moreover have "prefix (cl_out c @ ?bs) (up_bytes U (cl_job c) (cl_start c) (cl_end c + 1))"
      unfolding all using rn b by (intro up_bytes_prefix) linarith+
    ultimately have "prefix (cl_out c @ take (e_sent v) ?bs)
        (up_bytes U (cl_job c) (cl_start c) (cl_end c + 1))"
      by (rule prefix_order.trans)
    with t True ok pl show ?thesis by (simp add: sendTurn_def Let_def client_ok_def)
  next
    case f: False
    have "sendTurn f v c = c\<lparr>cl_out := cl_out c @ ?bs, cl_pos := cl_pos c + int ?rn,
        cl_place := (if e_rerr v \<noteq> None then Asking else Sending)\<rparr>"
      using True f unfolding sendTurn_def Let_def add by (simp only: simp_thms if_True if_False)
    moreover have "{cl_pos c + int ?rn..<cl_limit c} \<subseteq> sf_have f" using hv by auto
    ultimately show ?thesis using all rn b by (simp add: client_ok_def)
  qed
qed

lemma availableEnd_run:
  assumes "sf_ok f"
  shows "{off..<availableEnd f off} \<subseteq> sf_have f"
  using ivs.run_end_run [OF sf_okD(1) [OF assms]] by (simp add: availableEnd_def)

lemma serveTurn_ok:
  assumes t: "serveTurn v (s, c) = Some (t, d)" and inv: "fill_inv U True s"
    and f: "fs_files s (cl_job c) = Some f" and ok: "client_ok U f c"
  shows "fill_inv U True t \<and> cl_job d = cl_job c \<and>
         (\<exists>g. fs_files t (cl_job c) = Some g \<and> client_ok U g d)"
proof (cases "cl_place c")
  case Asking
  show ?thesis
  proof (cases "cl_pos c \<le> cl_end c")
    case True
    then have r: "requestFillAt (cl_job c) (cl_pos c) s = Some t" and d: "d = c\<lparr>cl_place := Waiting\<rparr>"
      using t f Asking by (auto split: option.splits)
    have step: "fill_step U True s t" using r by (rule fill_step.seek)
    obtain g where "fs_files t (cl_job c) = Some g" "sf_size g = sf_size f" "sf_have f \<subseteq> sf_have g"
      using fill_step_keeps [OF inv step f] by blast
    moreover have "client_ok U f d" using ok True Asking by (simp add: client_ok_def d)
    ultimately show ?thesis using fill_step_inv [OF step inv] client_ok_keeps d by auto
  next
    case False
    with t f Asking ok inv show ?thesis by (auto simp: client_ok_def)
  qed
next
  case Waiting
  with t f consider "t = s" "d = c\<lparr>cl_place := Measuring\<rparr>" | "t = s" "d = c\<lparr>cl_place := Gone\<rparr>"
    by (auto split: wait_result.splits)
  then show ?thesis using f inv ok Waiting
    by cases (auto simp: client_ok_def intro: up_bytes_prefix)
next
  case Measuring
  with t f have td: "t = s"
      "d = c\<lparr>cl_limit := min (availableEnd f (cl_pos c)) (add64 (cl_end c) 1), cl_place := Sending\<rparr>"
    by simp_all
  have "0 \<le> downloadChunkSize" by (simp add: downloadChunkSize_def)
  then have "add64 (cl_end c) 1 = cl_end c + 1"
    using ok Measuring fill_invD(3) [OF inv f] by (intro add64_nonneg) (auto simp: client_ok_def)
  moreover have "{cl_pos c..<min (availableEnd f (cl_pos c)) (cl_end c + 1)} \<subseteq> sf_have f"
    using availableEnd_run [OF fill_invD(2) [OF inv f], of "cl_pos c"] by auto
  ultimately show ?thesis using f inv ok Measuring by (simp add: td client_ok_def)
next
  case Sending
  have "client_ok U f (sendTurn f v c)"
    using fill_invD(5) [OF inv f] fill_invD(3) [OF inv f] Sending by (intro sendTurn_ok [OF ok]) auto
  moreover have "cl_job (sendTurn f v c) = cl_job c" by (simp add: sendTurn_def Let_def)
  ultimately show ?thesis using t f inv Sending by auto
qed (use t f in auto)

lemma serveStart_ok:
  assumes inv: "fill_inv U True s" and f: "fs_files s j = Some f" and pos: "0 < sf_size f"
    and c: "serveStart j meth hdr (sf_size f) None = Some c"
  shows "cl_job c = j \<and> client_ok U f c"
proof -
  have mx: "sf_size f \<le> max_i64"
    using fill_invD(3) [OF inv f] by (simp add: downloadChunkSize_def)
  obtain s e where r: "rp_range (sparseHead meth hdr (sf_size f)) = Some (s, e)"
      and c': "c = \<lparr>cl_job = j, cl_start = s, cl_end = e, cl_pos = s, cl_limit = s,
                    cl_place = Asking, cl_out = []\<rparr>"
    using c by (auto simp: serveStart_def split: option.splits)
  have "0 \<le> s \<and> s \<le> e \<and> e < sf_size f"
    using sparseHead_range [OF pos mx r] .
  then show ?thesis by (simp add: c' client_ok_def)
qed

lemma serve_reach_inv:
  "serve_reach U True (s, c) \<Longrightarrow>
   fill_inv U True s \<and> (\<exists>f. fs_files s (cl_job c) = Some f \<and> client_ok U f c)"
proof (induction "(s, c)" arbitrary: s c rule: serve_reach.induct)
  case (accept s j f meth hdr c)
  have inv: "fill_inv U True s" using accept(1) by (rule fill_reach_inv)
  from serveStart_ok [OF inv accept(2,3,4)] accept(2) inv show ?case by auto
next
  case (go_on x s c)
  obtain s0 c0 where x: "x = (s0, c0)" by (cases x)
  obtain f where inv: "fill_inv U True s0" and f: "fs_files s0 (cl_job c0) = Some f" and ok: "client_ok U f c0"
    using go_on(2) x by blast
  have "serve_step U True (s0, c0) (s, c)" using go_on(3) x by simp
  then consider "fill_step U True s0 s" "c = c0" | v where "serveTurn v (s0, c0) = Some (s, c)"
    by (cases rule: serve_step.cases) auto
  then show ?case
  proof cases
    case 1
    obtain g where "fs_files s (cl_job c0) = Some g" "sf_size g = sf_size f" "sf_have f \<subseteq> sf_have g"
      using fill_step_keeps [OF inv 1(1) f] by blast
    with 1 client_ok_keeps [OF ok] fill_step_inv [OF 1(1) inv] show ?thesis by auto
  next
    case 2
    from serveTurn_ok [OF 2 inv f ok] show ?thesis by auto
  qed
qed

text \<open>A request keeps its job and its range.\<close>

lemma serve_step_frame:
  "serve_step U honest (s, c) (t, d) \<Longrightarrow> cl_job d = cl_job c \<and> cl_start d = cl_start c \<and> cl_end d = cl_end c"
  by (cases rule: serve_step.cases [of U honest "(s, c)" "(t, d)"])
    (auto simp: sendTurn_def Let_def split: option.splits place.splits wait_result.splits if_splits)

lemma serve_steps_frame:
  assumes "(serve_step U honest)\<^sup>*\<^sup>* (s, c) (t, d)"
  shows "cl_job d = cl_job c \<and> cl_start d = cl_start c \<and> cl_end d = cl_end c"
  using assms by (induction rule: rtranclp_induct2) (auto dest: serve_step_frame)

lemma serve_steps_reach: "(serve_step U honest)\<^sup>*\<^sup>* x y \<Longrightarrow> serve_reach U honest x \<Longrightarrow> serve_reach U honest y"
  by (induction rule: rtranclp_induct) (auto intro: go_on)

section \<open>A run of the client\<close>

fun serve_run ::
  "(nat \<Rightarrow> int \<Rightarrow> byte) \<Rightarrow> (fill_action + env) list \<Rightarrow> fill_sys \<times> client \<Rightarrow> (fill_sys \<times> client) option"
where
  "serve_run U [] x = Some x"
| "serve_run U (Inl a # as) (s, c) =
     (case fill_exec U True a s of None \<Rightarrow> None | Some t \<Rightarrow> serve_run U as (t, c))"
| "serve_run U (Inr v # as) (s, c) =
     (case serveTurn v (s, c) of None \<Rightarrow> None | Some x \<Rightarrow> serve_run U as x)"

lemma serve_run_steps:
  "serve_reach U True x \<Longrightarrow> serve_run U as x = Some y \<Longrightarrow>
   serve_reach U True y \<and> (serve_step U True)\<^sup>*\<^sup>* x y"
proof (induction U as x rule: serve_run.induct)
  case (1 U x)
  then show ?case by simp
next
  case (2 U a as s c)
  then obtain t where t: "fill_exec U True a s = Some t" and run: "serve_run U as (t, c) = Some y"
    by (auto split: option.splits)
  have "fill_inv U True s" using 2(2) serve_reach_inv by blast
  then have step: "serve_step U True (s, c) (t, c)" using fill_exec_step t serve_step.others by blast
  from 2(1) [OF t go_on [OF 2(2) step] run] step show ?case by (blast intro: converse_rtranclp_into_rtranclp)
next
  case (3 U v as s c)
  then obtain x where x: "serveTurn v (s, c) = Some x" and run: "serve_run U as x = Some y"
    by (auto split: option.splits simp del: serveTurn.simps)
  have step: "serve_step U True (s, c) x" using serve_step.turn x by (cases x) blast
  from 3(1) [OF x go_on [OF 3(2) step] run] step show ?case by (blast intro: converse_rtranclp_into_rtranclp)
qed

lemmas serve_run_reach = serve_run_steps [THEN conjunct1]

section \<open>Properties\<close>


definition calm :: "nat \<Rightarrow> env" where
  "calm n = \<lparr>e_ctx = None, e_read = n, e_rerr = None, e_sent = 0, e_werr = None\<rparr>"

definition demo_served :: "(fill_sys \<times> client) option \<Rightarrow> bool" where
  "demo_served r =
     (case r of None \<Rightarrow> False
      | Some (s, c) \<Rightarrow> cl_place c = Served \<and> cl_start c = 1 \<and> cl_end c = 2 \<and> cl_out c = [1, 2])"

lemma demo_accept:
  "(case fill_run demo_up True [Begin 0 4 2, Drive 0, Acquire 0] init_fill of None \<Rightarrow> False
    | Some t \<Rightarrow>
        (case fs_files t 0 of None \<Rightarrow> False
         | Some f \<Rightarrow> 0 < sf_size f \<and>
             (case serveStart 0 ''GET'' ''bytes=1-2'' (sf_size f) None of None \<Rightarrow> False
              | Some c \<Rightarrow> demo_served (serve_run demo_up
                  [Inr (calm 0), Inl (Acquire 1), Inl (Open 1 206), Inl (Read 1 1),
                   Inl (Open 0 206), Inl (Read 0 2), Inr (calm 0), Inr (calm 0), Inr (calm 1),
                   Inr (calm 5), Inr (calm 0), Inr (calm 0)] (t, c)))))"
  by code_simp


text \<open>
  C21. A seek gets its bytes fetched at once: after \<open>requestFillAt\<close> at an offset of the file,
  every byte of the chunk from there on is present or in the range of a goroutine of this
  file, and the goroutines it started take only bytes that were neither.
\<close>

theorem seek_is_being_fetched:
  assumes "fill_reach U honest s" and "fs_files s j = Some f" and "0 \<le> off"
    and "off < sf_size f"
  shows "\<exists>t. requestFillAt j off s = Some t \<and>
     (\<forall>x. off \<le> x \<and> x < off + sf_chunk f \<and> x < sf_size f \<longrightarrow>
        x \<in> sf_have f \<or> (\<exists>i w. fs_workers t i = Some w \<and> w_job w = j \<and> x \<in> iv_range (w_iv w))) \<and>
     (\<forall>i w. fs_workers t i = Some w \<and> fs_workers s i = None \<longrightarrow>
        w_job w = j \<and> iv_range (w_iv w) \<inter> (sf_have f \<union> sf_busy f) = {})"
proof -
  note inv = fill_reach_inv [OF assms(1)]
  note ok = fill_invD(2) [OF inv assms(2)]
  obtain f' ivs where r: "reserve f off (add64 off (sf_chunk f)) = Some (f', ivs)"
    using reserve_reserved [OF ok] by blast
  let ?t = "spawn j False ivs (put_file j f' s)"
  have t: "requestFillAt j off s = Some ?t" using assms(2) r by (simp add: requestFillAt_def)
  have a: "add64 off (sf_chunk f) = off + sf_chunk f"
    using sf_okD(5,6,7) [OF ok] assms(3,4) by (intro add64_nonneg) simp_all
  note res = reserve_SomeD(2) [OF ok r, unfolded a]
  have ivs: "iset ivs = {off..<off + sf_chunk f} \<inter> sf_free f" using res by (simp add: reserved_def)
  have inv': "fill_inv U honest ?t" using inv t by (rule fill_inv_seek)
  have f': "fs_files ?t j = Some f'" by (simp add: spawn_def)
  have busy: "sf_busy f' = sf_busy f \<union> iset ivs" using res by (simp add: reserved_def)
  have new: "iv_range (w_iv w) \<subseteq> iset ivs \<and> w_job w = j"
    if w: "fs_workers ?t i = Some w" "fs_workers s i = None" for i w
  proof -
    have i: "fs_next s \<le> i \<and> i < fs_next s + length ivs"
      and w': "w = new_worker j False (ivs ! (i - fs_next s))"
      using w by (auto simp: spawn_def split: if_splits)
    show ?thesis using new_claim_sub [of "fs_next s" ivs i] i
      by (simp add: w' new_worker_def new_claim_def)
  qed
  have "x \<in> sf_have f \<or> (\<exists>i w. fs_workers ?t i = Some w \<and> w_job w = j \<and> x \<in> iv_range (w_iv w))"
    if x: "off \<le> x \<and> x < off + sf_chunk f \<and> x < sf_size f" for x
  proof (cases "x \<in> sf_have f")
    case False
    then have "x \<in> sf_busy f'" using x ivs busy assms(3) by (auto simp: sf_free_def)
    then obtain i where "x \<in> claim ?t j i" using fill_invD(4) [OF inv' f'] by blast
    then show ?thesis by (auto simp: claim_def split: option.splits if_splits)
  qed simp
  moreover have "iset ivs \<inter> (sf_have f \<union> sf_busy f) = {}" by (auto simp: ivs sf_free_def)
  ultimately show ?thesis using t new by blast
qed

theorem seek_is_being_fetched_witness:
  "\<exists>s f t. fill_reach demo_up True s \<and> fs_files s 0 = Some f \<and> requestFillAt 0 2 s = Some t \<and>
     (3 \<in> sf_have f \<or> (\<exists>i w. fs_workers t i = Some w \<and> w_job w = 0 \<and> 3 \<in> iv_range (w_iv w)))"
proof -
  have "(case fill_run demo_up True [Begin 0 4 2] init_fill of None \<Rightarrow> False
      | Some t \<Rightarrow> (case fs_files t 0 of None \<Rightarrow> False | Some f \<Rightarrow> sf_size f = 4 \<and> sf_chunk f = 2))"
    by code_simp
  then obtain s f where "fill_run demo_up True [Begin 0 4 2] init_fill = Some s"
      and f: "fs_files s 0 = Some f" "sf_size f = 4" "sf_chunk f = 2"
    by (auto simp only: split: option.splits)
  then have s: "fill_reach demo_up True s" using fill_run_reach [OF fill_init] by blast
  have "(0::int) \<le> 2" "2 < sf_size f" using f(2) by simp_all
  from seek_is_being_fetched [OF s f(1) this] obtain t where t: "requestFillAt 0 2 s = Some t"
      and h: "\<forall>x. 2 \<le> x \<and> x < 2 + sf_chunk f \<and> x < sf_size f \<longrightarrow>
        x \<in> sf_have f \<or> (\<exists>i w. fs_workers t i = Some w \<and> w_job w = 0 \<and> x \<in> iv_range (w_iv w))"
    by blast
  from h [rule_format, of 3]
  have "3 \<in> sf_have f \<or> (\<exists>i w. fs_workers t i = Some w \<and> w_job w = 0 \<and> 3 \<in> iv_range (w_iv w))"
    using f by simp
  with s f(1) t show ?thesis by blast
qed

definition broken_disk :: env where
  "broken_disk = \<lparr>e_ctx = Some Canceled, e_read = 0, e_rerr = Some (OsError ''input/output error''),
                  e_sent = 0, e_werr = None\<rparr>"

fun serve_turns :: "nat \<Rightarrow> env \<Rightarrow> fill_sys \<times> client \<Rightarrow> (fill_sys \<times> client) option" where
  "serve_turns 0 v x = Some x"
| "serve_turns (Suc n) v x =
     (case serveTurn v x of None \<Rightarrow> None | Some y \<Rightarrow> serve_turns n v y)"

lemma serve_turns_add:
  "serve_turns (m + n) v x = (case serve_turns m v x of None \<Rightarrow> None | Some y \<Rightarrow> serve_turns n v y)"
  by (induction m arbitrary: x) (auto split: option.splits simp del: serveTurn.simps)

definition full_file :: sparse_file where
  "full_file =
     \<lparr>sf_size = 4, sf_chunk = 4, sf_present = [iv 0 4], sf_inflight = [], sf_data = (\<lambda>_. 0),
      sf_closed = True, sf_done = True, sf_err = None\<rparr>"

definition full_sys :: fill_sys where
  "full_sys = put_file 0 full_file init_fill"

definition stuck_client :: client where
  "stuck_client =
     \<lparr>cl_job = 0, cl_start = 0, cl_end = 3, cl_pos = 0, cl_limit = 4, cl_place = Asking, cl_out = []\<rparr>"

lemma requestFillAt_full: "requestFillAt 0 0 full_sys = Some full_sys"
proof -
  have "reserve full_file 0 4 = Some (full_file, [])"
    by (simp add: reserve_def full_file_def is_missing_def missing_tail_def Let_def)
  moreover have "add64 0 (sf_chunk full_file) = 4" by code_simp
  ultimately have "requestFillAt 0 0 full_sys = Some (spawn 0 False [] (put_file 0 full_file full_sys))"
    by (simp add: requestFillAt_def full_sys_def)
  moreover have "spawn 0 False [] (put_file 0 full_file full_sys) = full_sys"
    by (simp add: spawn_def full_sys_def init_fill_def fun_eq_iff)
  ultimately show ?thesis by simp
qed

lemma stuck_round: "serve_turns 4 broken_disk (full_sys, stuck_client) = Some (full_sys, stuck_client)"
proof -
  have f: "fs_files full_sys 0 = Some full_file" by (simp add: full_sys_def)
  have w: "waitByte full_file (e_ctx broken_disk) 0 = Ready" by code_simp
  have a: "min (availableEnd full_file 0) (add64 3 1) = 4" by code_simp
  have s: "sendTurn full_file broken_disk (stuck_client\<lparr>cl_place := Sending\<rparr>) = stuck_client"
    by (simp add: sendTurn_def broken_disk_def stuck_client_def Let_def file_bytes_def add64_def i64_def)
  show ?thesis using s
    by (simp add: eval_nat_numeral f w a requestFillAt_full stuck_client_def)
qed

text \<open>
  A failing disk makes the loop of \<open>serveSparse\<close> spin: when every \<open>ReadAt\<close> on the
  temporary file fails without a byte, the inner loop is left with the error ignored, the
  outer loop finds the byte present and tries again, for ever, even when the client is gone:
  after any number of rounds of four turns the client is where it was, with nothing sent.
\<close>

theorem serve_spins_on_read_error:
  "serve_turns (4 * n) broken_disk (full_sys, stuck_client) = Some (full_sys, stuck_client)"
proof (induction n)
  case (Suc n)
  then show ?case using stuck_round serve_turns_add [of 4 "4 * n"] by (simp del: serve_turns.simps)
qed simp

end
