(* ===== verification/Tail_Reader.thy ===== *)
theory Tail_Reader
  imports Sparse_File "HOL-Library.Sublist"
begin

text \<open>
  The sequential downloads of jobs.go: \<open>copyTee\<close> appends the upstream body to the
  temporary file and publishes how much is written, and any number of \<open>tailReader\<close>s read
  the file from the start while it grows. A reader and the copier run interleaved; the
  mutex of the job makes the parts under it atomic.
\<close>

section \<open>The copier\<close>

text \<open>
  Where \<open>copyTee\<close> and the goroutine around it are: at the top of the loop, before the
  progress of a written chunk is published (with its length and the error of the read),
  returned, and after \<open>finishJob\<close> has recorded the result.
\<close>

datatype copy_place = Copying | Publishing nat "go_error option" | Ended "go_error option" | Recorded

record tail_job =
  tj_file :: "byte list"
  tj_written :: int
  tj_done :: bool
  tj_err :: "go_error option"
  tj_place :: copy_place

definition tail_start :: tail_job where
  "tail_start = \<lparr>tj_file = [], tj_written = 0, tj_done = False, tj_err = None, tj_place = Copying\<rparr>"

text \<open>What the loop does with the error of the read.\<close>

definition after_read :: "go_error option \<Rightarrow> copy_place" where
  "after_read rerr =
     (case rerr of None \<Rightarrow> Copying | Some e \<Rightarrow> if e = EOF then Ended None else Ended (Some e))"

definition copyTurn ::
  "go_error option \<Rightarrow> byte list \<Rightarrow> go_error option \<Rightarrow> write_result \<Rightarrow> tail_job \<Rightarrow> tail_job" where
  "copyTurn ctx_err bs rerr wr s =
     (case ctx_err of
        Some e \<Rightarrow> s\<lparr>tj_place := Ended (Some e)\<rparr>
      | None \<Rightarrow>
          if length bs > 0 then
            (case wr of
               WroteSome n e \<Rightarrow> s\<lparr>tj_file := tj_file s @ take n bs, tj_place := Ended (Some e)\<rparr>
             | WroteAll \<Rightarrow> s\<lparr>tj_file := tj_file s @ bs, tj_place := Publishing (length bs) rerr\<rparr>)
          else s\<lparr>tj_place := after_read rerr\<rparr>)"

definition publish :: "nat \<Rightarrow> go_error option \<Rightarrow> tail_job \<Rightarrow> tail_job" where
  "publish n rerr s = s\<lparr>tj_written := add64 (tj_written s) (int n), tj_place := after_read rerr\<rparr>"

text \<open>
  \<open>finishJob\<close> with the result of the job: the error of the copy, else whatever closing the
  file, waiting for ffmpeg or moving the file into the cache gave.
\<close>

definition recordResult :: "go_error option \<Rightarrow> tail_job \<Rightarrow> tail_job" where
  "recordResult e s = s\<lparr>tj_done := True, tj_err := e, tj_place := Recorded\<rparr>"

section \<open>The reader\<close>

text \<open>
  Where a \<open>tailReader\<close> is: before the read of the file, in the inner loop under the mutex,
  asleep on the condition, or returned with an error from \<open>Read\<close>. What \<open>Read\<close> delivered
  is collected in \<open>tr_out\<close>.
\<close>

datatype read_place = Reading | Checking | Failed_with go_error

record tail_reader =
  tr_pos :: nat
  tr_out :: "byte list"
  tr_place :: read_place

definition newTailReader :: tail_reader where
  "newTailReader = \<lparr>tr_pos = 0, tr_out = [], tr_place = Reading\<rparr>"

text \<open>
  The read of the file: \<open>n\<close> bytes are asked for; at least one comes when there is one, at
  the end of the file none and \<open>EOF\<close>, unless the system reports another error.
\<close>

definition fileTurn :: "nat \<Rightarrow> go_error option \<Rightarrow> tail_job \<Rightarrow> tail_reader \<Rightarrow> tail_reader" where
  "fileTurn n os_err s r =
     (let bs = take n (drop (tr_pos r) (tj_file s))
      in case os_err of
           Some e \<Rightarrow> r\<lparr>tr_place := Failed_with e\<rparr>
         | None \<Rightarrow>
             if length bs > 0
             then r\<lparr>tr_pos := tr_pos r + length bs, tr_out := tr_out r @ bs\<rparr>
             else r\<lparr>tr_place := Checking\<rparr>)"

text \<open>The inner loop under the mutex; None is \<open>cond.Wait\<close>.\<close>

definition checkTurn :: "go_error option \<Rightarrow> tail_job \<Rightarrow> tail_reader \<Rightarrow> tail_reader option" where
  "checkTurn ctx_err s r =
     (case ctx_err of
        Some e \<Rightarrow> Some (r\<lparr>tr_place := Failed_with e\<rparr>)
      | None \<Rightarrow>
          if int (tr_pos r) < tj_written s then Some (r\<lparr>tr_place := Reading\<rparr>)
          else if tj_done s then
            (case tj_err s of
               Some e \<Rightarrow> Some (r\<lparr>tr_place := Failed_with e\<rparr>)
             | None \<Rightarrow> Some (r\<lparr>tr_place := Failed_with EOF\<rparr>))
          else None)"

section \<open>The steps\<close>

text \<open>
  \<open>B\<close> is the body of the upstream. A read of it delivers the bytes that follow, and ends
  with \<open>EOF\<close> only at its end, as a body that is cut short ends with another error.
\<close>

inductive tail_step :: "byte list \<Rightarrow> tail_job \<times> tail_reader \<Rightarrow> tail_job \<times> tail_reader \<Rightarrow> bool"
  for B :: "byte list"
where
  copy:
    "tj_place s = Copying \<Longrightarrow> prefix (tj_file s @ bs) B \<Longrightarrow>
     (rerr = Some EOF \<longrightarrow> tj_file s @ bs = B) \<Longrightarrow>
     ctx_err \<noteq> Some EOF \<Longrightarrow> (\<forall>n. wr \<noteq> WroteSome n EOF) \<Longrightarrow>
     tail_step B (s, r) (copyTurn ctx_err bs rerr wr s, r)"
| publish:
    "tj_place s = Publishing n rerr \<Longrightarrow> tail_step B (s, r) (publish n rerr s, r)"
| record_result:
    "tj_place s = Ended e \<Longrightarrow> e' = e \<or> e = None \<Longrightarrow> e' \<noteq> Some EOF \<Longrightarrow>
     tail_step B (s, r) (recordResult e' s, r)"
| file_read:
    "tr_place r = Reading \<Longrightarrow> n > 0 \<Longrightarrow> os_err \<noteq> Some EOF \<Longrightarrow>
     tail_step B (s, r) (s, fileTurn n os_err s r)"
| check:
    "tr_place r = Checking \<Longrightarrow> ctx_err \<noteq> Some EOF \<Longrightarrow> checkTurn ctx_err s r = Some r' \<Longrightarrow>
     tail_step B (s, r) (s, r')"

inductive tail_reach :: "byte list \<Rightarrow> tail_job \<times> tail_reader \<Rightarrow> bool"
  for B :: "byte list"
where
  tail_init: "tail_reach B (tail_start, newTailReader)"
| tail_next: "tail_reach B x \<Longrightarrow> tail_step B x y \<Longrightarrow> tail_reach B y"

section \<open>The invariant\<close>

definition copy_ok :: "byte list \<Rightarrow> tail_job \<Rightarrow> bool" where
  "copy_ok B s \<longleftrightarrow>
     prefix (tj_file s) B \<and> tj_written s \<le> int (length (tj_file s)) \<and> 0 \<le> tj_written s \<and>
     (case tj_place s of
        Copying \<Rightarrow> tj_written s = int (length (tj_file s)) \<and> \<not> tj_done s
      | Publishing n rerr \<Rightarrow>
          tj_written s + int n = int (length (tj_file s)) \<and> \<not> tj_done s \<and>
          (rerr = Some EOF \<longrightarrow> tj_file s = B)
      | Ended e \<Rightarrow>
          \<not> tj_done s \<and> (e = None \<longrightarrow> tj_written s = int (length (tj_file s)) \<and> tj_file s = B) \<and>
          e \<noteq> Some EOF
      | Recorded \<Rightarrow>
          tj_done s \<and> (tj_err s = None \<longrightarrow> tj_written s = int (length (tj_file s)) \<and> tj_file s = B) \<and>
          tj_err s \<noteq> Some EOF)"

definition reader_ok :: "byte list \<Rightarrow> tail_job \<Rightarrow> tail_reader \<Rightarrow> bool" where
  "reader_ok B s r \<longleftrightarrow>
     tr_pos r \<le> length (tj_file s) \<and> tr_out r = take (tr_pos r) (tj_file s) \<and>
     (tr_place r = Failed_with EOF \<longrightarrow> tj_done s \<and> tj_err s = None \<and> tr_out r = B)"

lemma after_read_ok:
  "(case after_read rerr of Ended e \<Rightarrow> e \<noteq> Some EOF \<and> (e = None \<longrightarrow> rerr = Some EOF) | Copying \<Rightarrow> True
     | _ \<Rightarrow> False)"
  by (simp add: after_read_def split: option.split)

lemma copy_ok_after:
  assumes "prefix (tj_file s) B" and "tj_written s = int (length (tj_file s))" and "\<not> tj_done s"
    and "rerr = Some EOF \<longrightarrow> tj_file s = B"
  shows "copy_ok B (s\<lparr>tj_place := after_read rerr\<rparr>)"
  using assms after_read_ok [of rerr] by (simp add: copy_ok_def split: copy_place.splits)

lemma copyTurn_ok:
  assumes "copy_ok B s" and "tj_place s = Copying" and "prefix (tj_file s @ bs) B"
    and "rerr = Some EOF \<longrightarrow> tj_file s @ bs = B"
    and "ctx_err \<noteq> Some EOF" and "\<forall>n. wr \<noteq> WroteSome n EOF"
  shows "copy_ok B (copyTurn ctx_err bs rerr wr s)"
proof (cases ctx_err)
  case (Some e)
  with assms show ?thesis by (simp add: copyTurn_def copy_ok_def)
next
  case None
  show ?thesis
  proof (cases "length bs > 0")
    case True
    show ?thesis
    proof (cases wr)
      case WroteAll
      with None True assms show ?thesis by (simp add: copyTurn_def copy_ok_def)
    next
      case (WroteSome n e)
      have "prefix (tj_file s @ take n bs) (tj_file s @ bs)" by (simp add: take_is_prefix)
      then have "prefix (tj_file s @ take n bs) B" using assms(3) by (rule prefix_order.trans)
      with WroteSome None True assms show ?thesis by (simp add: copyTurn_def copy_ok_def)
    qed
  next
    case False
    have "copy_ok B (s\<lparr>tj_place := after_read rerr\<rparr>)"
      using assms False by (intro copy_ok_after) (simp_all add: copy_ok_def)
    with None False show ?thesis by (simp add: copyTurn_def)
  qed
qed

lemma copyTurn_grows: "prefix (tj_file s) (tj_file (copyTurn ctx_err bs rerr wr s))"
  by (simp add: copyTurn_def split: option.split write_result.split)

lemma publish_ok:
  assumes "copy_ok B s" and "tj_place s = Publishing n rerr" and "int (length B) \<le> max_i64"
  shows "copy_ok B (publish n rerr s)"
proof -
  have "length (tj_file s) \<le> length B"
    using assms(1) by (simp add: copy_ok_def prefix_length_le)
  then have "add64 (tj_written s) (int n) = tj_written s + int n"
    using assms by (intro add64_nonneg) (simp_all add: copy_ok_def)
  then show ?thesis
    using assms copy_ok_after [of "s\<lparr>tj_written := tj_written s + int n\<rparr>" B rerr]
    by (simp add: publish_def copy_ok_def)
qed

lemma reader_ok_grows:
  assumes "reader_ok B s r" and "prefix (tj_file s) (tj_file t)" and "\<not> tj_done s"
  shows "reader_ok B t r"
proof -
  obtain more where "tj_file t = tj_file s @ more" using assms(2) by (auto simp: prefix_def)
  with assms(1,3) show ?thesis by (simp add: reader_ok_def)
qed

lemma fileTurn_ok:
  assumes "reader_ok B s r" and "tr_place r = Reading" and "os_err \<noteq> Some EOF"
  shows "reader_ok B s (fileTurn n os_err s r)"
proof -
  have "take (tr_pos r) (tj_file s) @ take n (drop (tr_pos r) (tj_file s)) =
      take (tr_pos r + n) (tj_file s)"
    by (simp add: take_add)
  moreover have "take (tr_pos r + n) (tj_file s) =
      take (tr_pos r + min n (length (tj_file s) - tr_pos r)) (tj_file s)"
    by (simp add: min_def take_all_iff)
  ultimately show ?thesis
    using assms by (auto simp: reader_ok_def fileTurn_def Let_def min.commute split: option.split)
qed

lemma checkTurn_ok:
  assumes "copy_ok B s" and "reader_ok B s r" and "tr_place r = Checking"
    and "ctx_err \<noteq> Some EOF" and "checkTurn ctx_err s r = Some r'"
  shows "reader_ok B s r'"
proof -
  have "tj_done s \<Longrightarrow> tj_place s = Recorded"
    using assms(1) by (cases "tj_place s") (simp_all add: copy_ok_def)
  then have "tj_done s \<Longrightarrow> tj_err s \<noteq> Some EOF \<and>
      (tj_err s = None \<longrightarrow> tj_written s = int (length (tj_file s)) \<and> tj_file s = B)"
    using assms(1) by (simp add: copy_ok_def)
  with assms(2-) show ?thesis
    by (auto simp: checkTurn_def reader_ok_def split: option.splits if_splits)
qed

lemma tail_step_inv:
  assumes "tail_step B x y" and "int (length B) \<le> max_i64"
    and "copy_ok B (fst x)" and "reader_ok B (fst x) (snd x)"
  shows "copy_ok B (fst y) \<and> reader_ok B (fst y) (snd y)"
  using assms
proof (induction rule: tail_step.induct)
  case (copy s bs rerr ctx_err wr r)
  have c: "copy_ok B s" and r: "reader_ok B s r" using copy(7,8) by simp_all
  have "\<not> tj_done s" using c copy(1) by (simp add: copy_ok_def)
  then have "reader_ok B (copyTurn ctx_err bs rerr wr s) r"
    by (rule reader_ok_grows [OF r copyTurn_grows])
  moreover have "copy_ok B (copyTurn ctx_err bs rerr wr s)" by (rule copyTurn_ok [OF c copy(1-5)])
  ultimately show ?case by simp
next
  case (publish s n rerr r)
  have c: "copy_ok B s" and r: "reader_ok B s r" using publish(3,4) by simp_all
  have "\<not> tj_done s" using c publish(1) by (simp add: copy_ok_def)
  then have "reader_ok B (publish n rerr s) r"
    by (rule reader_ok_grows [OF r, rotated]) (simp add: publish_def)
  moreover have "copy_ok B (publish n rerr s)" by (rule publish_ok [OF c publish(1,2)])
  ultimately show ?case by simp
next
  case (record_result s e e' r)
  have c: "copy_ok B s" and r: "reader_ok B s r" using record_result(5,6) by simp_all
  have nd: "\<not> tj_done s" using c record_result(1) by (simp add: copy_ok_def)
  have "copy_ok B (recordResult e' s)"
    using c record_result(1-3) by (auto simp: copy_ok_def recordResult_def)
  moreover have "reader_ok B (recordResult e' s) r"
    by (rule reader_ok_grows [OF r _ nd]) (simp add: recordResult_def)
  ultimately show ?case by simp
next
  case (file_read r n os_err s)
  have "reader_ok B s (fileTurn n os_err s r)"
    using file_read(5,6,1,3) by (intro fileTurn_ok) simp_all
  with file_read(5) show ?case by simp
next
  case (check r ctx_err s r')
  have c: "copy_ok B s" and r: "reader_ok B s r" using check(5,6) by simp_all
  with checkTurn_ok [OF c r check(1,2,3)] show ?case by simp
qed

definition tail_ok :: "byte list \<Rightarrow> tail_job \<times> tail_reader \<Rightarrow> bool" where
  "tail_ok B x \<longleftrightarrow> int (length B) \<le> max_i64 \<longrightarrow> copy_ok B (fst x) \<and> reader_ok B (fst x) (snd x)"

interpretation tail: safe_machine "\<lambda>x. x = (tail_start, newTailReader)" "tail_step B" "tail_ok B" for B
proof
  show "tail_ok B x" if "x = (tail_start, newTailReader)" for x
    using that by (simp add: tail_ok_def copy_ok_def reader_ok_def tail_start_def newTailReader_def)
  show "tail_ok B y" if "tail_ok B x" "tail_step B x y" for x y
    using that tail_step_inv [OF that(2)] by (simp add: tail_ok_def)
qed

lemma tail_reach_steps: "tail_reach B x \<Longrightarrow> (tail_step B)\<^sup>*\<^sup>* (tail_start, newTailReader) x"
  by (induction rule: tail_reach.induct) (auto intro: rtranclp.rtrancl_into_rtrancl)

lemma tail_reach_inv:
  "tail_reach B x \<Longrightarrow> int (length B) \<le> max_i64 \<Longrightarrow> copy_ok B (fst x) \<and> reader_ok B (fst x) (snd x)"
  using tail.reachable_inv [OF refl tail_reach_steps] by (simp add: tail_ok_def)

section \<open>Properties\<close>

text \<open>
  C9. A live stream is the upstream body: what a tail reader has delivered is always a
  prefix of the body, however its reads interleave with the copier, and a reader that
  reports the end of the stream has delivered all of it: a download that fails is reported
  as an error, never as an end.
\<close>

theorem tail_reader_faithful:
  assumes "tail_reach B (s, r)" and "int (length B) \<le> max_i64"
  shows "prefix (tr_out r) B \<and> (tr_place r = Failed_with EOF \<longrightarrow> tr_out r = B)"
proof -
  have c: "copy_ok B s" and r: "reader_ok B s r" using tail_reach_inv [OF assms] by simp_all
  have "prefix (take (tr_pos r) (tj_file s)) (tj_file s)" by (rule take_is_prefix)
  then have "prefix (tr_out r) B"
    using c r prefix_order.trans unfolding copy_ok_def reader_ok_def by metis
  with r show ?thesis by (auto simp: reader_ok_def)
qed

text \<open>
  A tail reader neither spins nor stops early: when the inner loop sends it back to the
  file there are bytes for it, and it sleeps only while the job is not finished and every
  byte the copier has published has been delivered.
\<close>

theorem tail_reader_progress:
  assumes "tail_reach B (s, r)" and "int (length B) \<le> max_i64" and "0 < n"
    and "tr_place r = Checking" and "checkTurn None s r = w"
  shows "(\<forall>r'. w = Some r' \<and> tr_place r' = Reading \<longrightarrow>
            length (tr_out r) < length (tr_out (fileTurn n None s r'))) \<and>
         (w = None \<longrightarrow> \<not> tj_done s \<and> tj_written s \<le> int (length (tr_out r)))"
proof -
  have c: "copy_ok B s" and r: "reader_ok B s r" using tail_reach_inv [OF assms(1,2)] by simp_all
  have len: "length (tr_out r) = tr_pos r" using r by (simp add: reader_ok_def)
  show ?thesis
  proof (cases "int (tr_pos r) < tj_written s")
    case True
    then have "tr_pos r < length (tj_file s)" using c by (simp add: copy_ok_def)
    with True assms(3-5) show ?thesis by (auto simp: checkTurn_def fileTurn_def Let_def)
  next
    case False
    with assms(4,5) len show ?thesis by (auto simp: checkTurn_def split: option.splits if_splits)
  qed
qed

section \<open>A run\<close>

text \<open>A body of three bytes, copied in two chunks while it is read.\<close>

definition demo_copied :: "tail_job \<times> tail_reader" where
  "demo_copied =
     (recordResult None (publish 1 (Some EOF) (copyTurn None [9] (Some EOF) WroteAll
        (publish 2 None (copyTurn None [7, 8] None WroteAll tail_start)))),
      fileTurn 5 None (copyTurn None [9] (Some EOF) WroteAll
        (publish 2 None (copyTurn None [7, 8] None WroteAll tail_start))) newTailReader)"

lemmas tail_run = copyTurn_def publish_def recordResult_def tail_start_def newTailReader_def
  fileTurn_def checkTurn_def after_read_def add64_def i64_def

lemma demo_copied_reach: "tail_reach [7, 8, 9] demo_copied"
  and demo_ended: "\<exists>s. tail_reach [7, 8, 9] (s, snd demo_copied) \<and> tj_place s = Ended None"
proof -
  let ?B = "[7, 8, 9] :: byte list"
  let ?s1 = "copyTurn None [7, 8] None WroteAll tail_start"
  let ?s2 = "publish 2 None ?s1"
  let ?s3 = "copyTurn None [9] (Some EOF) WroteAll ?s2"
  let ?s4 = "publish 1 (Some EOF) ?s3"
  let ?r1 = "fileTurn 5 None ?s3 newTailReader"
  have "tail_reach ?B (?s1, newTailReader)"
    by (rule tail_next [OF tail_init], rule tail_step.copy) (simp_all add: tail_run)
  then have "tail_reach ?B (?s2, newTailReader)"
    by (rule tail_next, intro tail_step.publish) (simp add: tail_run)
  then have "tail_reach ?B (?s3, newTailReader)"
    by (rule tail_next, intro tail_step.copy) (simp_all add: tail_run)
  then have "tail_reach ?B (?s3, ?r1)"
    by (rule tail_next, intro tail_step.file_read) (simp_all add: tail_run)
  then have "tail_reach ?B (?s4, ?r1)"
    by (rule tail_next, intro tail_step.publish) (simp add: tail_run)
  then show e: "\<exists>s. tail_reach [7, 8, 9] (s, snd demo_copied) \<and> tj_place s = Ended None"
    by (intro exI [of _ ?s4]) (simp add: demo_copied_def tail_run)
  from \<open>tail_reach ?B (?s4, ?r1)\<close> have "tail_reach ?B (recordResult None ?s4, ?r1)"
    by (rule tail_next, intro tail_step.record_result [where e = None]) (simp_all add: tail_run)
  then show "tail_reach [7, 8, 9] demo_copied" by (simp only: demo_copied_def)
qed

lemma demo_copied_reads:
  "tail_reach [7, 8, 9] (fst demo_copied, (snd demo_copied)\<lparr>tr_place := Checking\<rparr>)"
  "checkTurn None (fst demo_copied) ((snd demo_copied)\<lparr>tr_place := Checking\<rparr>) =
     Some ((snd demo_copied)\<lparr>tr_place := Failed_with EOF\<rparr>)"
  "tail_reach [7, 8, 9] (fst demo_copied, (snd demo_copied)\<lparr>tr_place := Failed_with EOF\<rparr>)"
proof -
  have "tail_reach [7, 8, 9] (fst demo_copied, snd demo_copied)" using demo_copied_reach by simp
  moreover have "fileTurn 5 None (fst demo_copied) (snd demo_copied) = (snd demo_copied)\<lparr>tr_place := Checking\<rparr>"
    by (simp add: demo_copied_def tail_run)
  moreover have "tail_step [7, 8, 9] (fst demo_copied, snd demo_copied)
      (fst demo_copied, fileTurn 5 None (fst demo_copied) (snd demo_copied))"
    by (rule tail_step.file_read) (simp_all add: demo_copied_def tail_run)
  ultimately show c: "tail_reach [7, 8, 9] (fst demo_copied, (snd demo_copied)\<lparr>tr_place := Checking\<rparr>)"
    using tail_next by metis
  show k: "checkTurn None (fst demo_copied) ((snd demo_copied)\<lparr>tr_place := Checking\<rparr>) =
     Some ((snd demo_copied)\<lparr>tr_place := Failed_with EOF\<rparr>)"
    by (simp add: demo_copied_def tail_run)
  show "tail_reach [7, 8, 9] (fst demo_copied, (snd demo_copied)\<lparr>tr_place := Failed_with EOF\<rparr>)"
    by (rule tail_next [OF c], rule tail_step.check [OF _ _ k]) simp_all
qed

theorem tail_reader_faithful_witness:
  "tr_out ((snd demo_copied)\<lparr>tr_place := Failed_with EOF\<rparr>) = [7, 8, 9]"
  using tail_reader_faithful [OF demo_copied_reads(3)] by (simp add: max_i64_def)

definition demo_waiting :: "tail_job \<times> tail_reader" where
  "demo_waiting = (tail_start, newTailReader\<lparr>tr_place := Checking\<rparr>)"

theorem tail_reader_progress_witness:
  "checkTurn None tail_start (newTailReader\<lparr>tr_place := Checking\<rparr>) = None \<and>
   tj_written tail_start \<le> int (length (tr_out (newTailReader\<lparr>tr_place := Checking\<rparr>)))"
proof -
  have "tail_step [7] (tail_start, newTailReader) (tail_start, fileTurn 1 None tail_start newTailReader)"
    by (rule tail_step.file_read) (simp_all add: tail_run)
  moreover have "fileTurn 1 None tail_start newTailReader = newTailReader\<lparr>tr_place := Checking\<rparr>"
    by (simp add: tail_run)
  ultimately have r: "tail_reach [7] (tail_start, newTailReader\<lparr>tr_place := Checking\<rparr>)"
    using tail_next [OF tail_init] by metis
  have "checkTurn None tail_start (newTailReader\<lparr>tr_place := Checking\<rparr>) = None"
    by (simp add: tail_run)
  with tail_reader_progress [OF r _ _ _ refl, of 1] show ?thesis by (simp add: max_i64_def)
qed

end
