(* ===== verification/Go_Url.thy ===== *)
theory Go_Url
  imports Go_Strings
begin

text \<open>
  The part of Go's \<open>net/url\<close> (Go 1.26) the program uses: \<open>Parse\<close>, the resolution of
  references, \<open>String\<close>, \<open>Hostname\<close> and \<open>QueryEscape\<close>. Errors are \<open>None\<close>, as no caller
  looks into them. The text of an IPv6 literal is checked by its brackets and characters
  only; that it is a well-formed address is the matter of the theory Upstream_Guard.
\<close>

section \<open>Characters and escapes\<close>

definition is_alpha :: "char \<Rightarrow> bool" where
  "is_alpha c = (let n = (of_char c :: nat) in 65 \<le> n \<and> n \<le> 90 \<or> 97 \<le> n \<and> n \<le> 122)"

definition is_ascii :: "char \<Rightarrow> bool" where
  "is_ascii c \<longleftrightarrow> (of_char c :: nat) < 128"

definition is_ctl :: "char \<Rightarrow> bool" where
  "is_ctl c \<longleftrightarrow> (of_char c :: nat) < 32 \<or> (of_char c :: nat) = 127"

definition unhex :: "char \<Rightarrow> nat option" where
  "unhex c =
     (let n = (of_char c :: nat)
      in if 48 \<le> n \<and> n \<le> 57 then Some (n - 48)
         else if 97 \<le> n \<and> n \<le> 102 then Some (n - 87)
         else if 65 \<le> n \<and> n \<le> 70 then Some (n - 55)
         else None)"

definition upper_hex :: "nat \<Rightarrow> char" where
  "upper_hex n = char_of (if n < 10 then n + 48 else n + 55)"

datatype url_mode = InPath | InHost | InUser | InQuery | InFragment

definition should_escape :: "url_mode \<Rightarrow> char \<Rightarrow> bool" where
  "should_escape m c =
     (if is_alpha c \<or> is_digit c then False
      else if m = InHost \<and> c \<in> set ''!$&()*+,;=:[]<>'' \<union> {CHR 0x27, CHR 0x22} then False
      else if c \<in> set ''-_.~'' then False
      else if c \<in> set ''$&+,/:;=?@'' then
        (case m of
           InPath \<Rightarrow> c = CHR ''?''
         | InUser \<Rightarrow> c \<in> set ''@/?:''
         | InQuery \<Rightarrow> True
         | InFragment \<Rightarrow> False
         | InHost \<Rightarrow> True)
      else if m = InFragment \<and> c \<in> set ''!()*'' then False
      else True)"

fun url_escape :: "url_mode \<Rightarrow> string \<Rightarrow> string" where
  "url_escape m [] = []"
| "url_escape m (c # s) =
     (if \<not> should_escape m c then c # url_escape m s
      else if c = CHR '' '' \<and> m = InQuery then CHR ''+'' # url_escape m s
      else CHR ''%'' # upper_hex (of_char c div 16) # upper_hex (of_char c mod 16) # url_escape m s)"

definition QueryEscape :: "string \<Rightarrow> string" where
  "QueryEscape = url_escape InQuery"

text \<open>In a host only bytes outside ASCII may be escaped, and no byte that would need it may occur.\<close>

fun url_unescape :: "url_mode \<Rightarrow> string \<Rightarrow> string option" where
  "url_unescape m [] = Some []"
| "url_unescape m (c # s) =
     (if c = CHR ''%'' then
        (case s of
           a # b # r \<Rightarrow>
             (case (unhex a, unhex b) of
                (Some x, Some y) \<Rightarrow>
                  if m = InHost \<and> x < 8 \<and> \<not> (x = 2 \<and> y = 5) then None
                  else map_option ((#) (char_of (16 * x + y))) (url_unescape m r)
              | _ \<Rightarrow> None)
         | _ \<Rightarrow> None)
      else if c = CHR ''+'' \<and> m = InQuery then map_option ((#) (CHR '' '')) (url_unescape m s)
      else if m = InHost \<and> is_ascii c \<and> should_escape InHost c then None
      else map_option ((#) c) (url_unescape m s))"

section \<open>URLs\<close>

record url =
  u_scheme :: string
  u_opaque :: string
  u_user :: "(string \<times> string option) option"
  u_host :: string
  u_path :: string
  u_rawPath :: string
  u_omitHost :: bool
  u_forceQuery :: bool
  u_rawQuery :: string
  u_fragment :: string
  u_rawFragment :: string

definition empty_url :: url where
  "empty_url =
     \<lparr>u_scheme = '''', u_opaque = '''', u_user = None, u_host = '''', u_path = '''', u_rawPath = '''',
      u_omitHost = False, u_forceQuery = False, u_rawQuery = '''', u_fragment = '''',
      u_rawFragment = ''''\<rparr>"

text \<open>\<open>getScheme\<close>: scheme and rest, no scheme when another character comes first.\<close>

fun scheme_loop :: "string \<Rightarrow> string \<Rightarrow> string \<Rightarrow> (string \<times> string) option" where
  "scheme_loop raw acc [] = Some ('''', raw)"
| "scheme_loop raw acc (c # s) =
     (if is_alpha c then scheme_loop raw (acc @ [c]) s
      else if is_digit c \<or> c \<in> set ''+-.'' then
        (if acc = '''' then Some ('''', raw) else scheme_loop raw (acc @ [c]) s)
      else if c = CHR '':'' then (if acc = '''' then None else Some (acc, s))
      else Some ('''', raw))"

definition getScheme :: "string \<Rightarrow> (string \<times> string) option" where
  "getScheme raw = scheme_loop raw '''' raw"

definition setPath :: "string \<Rightarrow> url \<Rightarrow> url option" where
  "setPath p u =
     (case url_unescape InPath p of
        None \<Rightarrow> None
      | Some q \<Rightarrow> Some (u\<lparr>u_path := q, u_rawPath := (if p = url_escape InPath q then '''' else p)\<rparr>))"

definition setFragment :: "string \<Rightarrow> url \<Rightarrow> url option" where
  "setFragment f u =
     (case url_unescape InFragment f of
        None \<Rightarrow> None
      | Some g \<Rightarrow>
          Some (u\<lparr>u_fragment := g, u_rawFragment := (if f = url_escape InFragment g then '''' else f)\<rparr>))"

definition validOptionalPort :: "string \<Rightarrow> bool" where
  "validOptionalPort p \<longleftrightarrow> p = '''' \<or> hd p = CHR '':'' \<and> list_all is_digit (tl p)"

definition ipv6_char :: "char \<Rightarrow> bool" where
  "ipv6_char c \<longleftrightarrow> unhex c \<noteq> None \<or> c = CHR '':'' \<or> c = CHR ''.''"

definition zone_ok :: "string \<Rightarrow> bool" where
  "zone_ok z \<longleftrightarrow> z \<noteq> '''' \<and> list_all (\<lambda>c. c \<noteq> CHR '']'' \<and> c \<noteq> CHR ''%'') z"

definition parseHost :: "string \<Rightarrow> string option" where
  "parseHost h =
     (if HasPrefix h ''['' then
        (case Cut h (CHR '']'') of
           None \<Rightarrow> None
         | Some (inner, port) \<Rightarrow>
             if \<not> validOptionalPort port then None
             else (case Cut (tl inner) (CHR ''%'') of
                 None \<Rightarrow> if list_all ipv6_char (tl inner) \<and> CHR '':'' \<in> set (tl inner) then Some h else None
               | Some (addr, zone) \<Rightarrow>
                   if list_all ipv6_char addr \<and> CHR '':'' \<in> set addr \<and> HasPrefix zone ''25'' \<and>
                      zone_ok (drop 2 zone)
                   then Some (''['' @ addr @ ''%'' @ drop 2 zone @ '']'' @ port) else None))
      else if CHR ''['' \<in> set h then None
      else
        (case Cut h (CHR '':'') of
           None \<Rightarrow> url_unescape InHost h
         | Some (_, port) \<Rightarrow>
             if \<not> list_all is_digit port then None else url_unescape InHost h))"

definition user_char :: "char \<Rightarrow> bool" where
  "user_char c \<longleftrightarrow> is_alpha c \<or> is_digit c \<or> c \<in> set ''-._:~!$&()*+,;=%@'' \<union> {CHR 0x27}"

text \<open>The bytes before the last occurrence of a separator.\<close>

definition before_last :: "string \<Rightarrow> char \<Rightarrow> string option" where
  "before_last s c =
     (case after_last s c of None \<Rightarrow> None | Some r \<Rightarrow> Some (take (length s - length r - 1) s))"

definition parseAuthority :: "string \<Rightarrow> ((string \<times> string option) option \<times> string) option" where
  "parseAuthority a =
     (case before_last a (CHR ''@'') of
        None \<Rightarrow> map_option (Pair None) (parseHost a)
      | Some userinfo \<Rightarrow>
          (case parseHost (drop (length userinfo + 1) a) of
             None \<Rightarrow> None
           | Some h \<Rightarrow>
               if \<not> list_all user_char userinfo then None
               else (case Cut userinfo (CHR '':'') of
                   None \<Rightarrow> map_option (\<lambda>n. (Some (n, None), h)) (url_unescape InUser userinfo)
                 | Some (name, pass) \<Rightarrow>
                     (case (url_unescape InUser name, url_unescape InUser pass) of
                        (Some n, Some p) \<Rightarrow> Some (Some (n, Some p), h)
                      | _ \<Rightarrow> None))))"

text \<open>The query is cut off; a lone question mark at the end is remembered.\<close>

definition splitQuery :: "string \<Rightarrow> string \<times> bool \<times> string" where
  "splitQuery s =
     (case Cut s (CHR ''?'') of
        None \<Rightarrow> (s, False, '''')
      | Some (a, q) \<Rightarrow> if q = '''' then (a, True, '''') else (a, False, q))"

definition first_segment :: "string \<Rightarrow> string" where
  "first_segment s = takeWhile (\<lambda>c. c \<noteq> CHR ''/'') s"

text \<open>\<open>via\<close> is set for the URI of a request line, which must be absolute or rooted.\<close>

definition parseURL :: "bool \<Rightarrow> string \<Rightarrow> url option" where
  "parseURL via raw =
     (if list_ex is_ctl raw then None
      else if raw = '''' \<and> via then None
      else if raw = ''*'' then Some (empty_url\<lparr>u_path := ''*''\<rparr>)
      else case getScheme raw of
        None \<Rightarrow> None
      | Some (sch, rest0) \<Rightarrow>
          (case splitQuery rest0 of
             (rest, force, query) \<Rightarrow>
               (let u = empty_url\<lparr>u_scheme := ToLower sch, u_forceQuery := force, u_rawQuery := query\<rparr>
                in if \<not> HasPrefix rest ''/'' \<and> sch \<noteq> '''' then Some (u\<lparr>u_opaque := rest\<rparr>)
                   else if \<not> HasPrefix rest ''/'' \<and> via then None
                   else if \<not> HasPrefix rest ''/'' \<and> CHR '':'' \<in> set (first_segment rest) then None
                   else if (sch \<noteq> '''' \<or> \<not> via \<and> \<not> HasPrefix rest ''///'') \<and> HasPrefix rest ''//'' then
                     (let authority = first_segment (drop 2 rest)
                      in case parseAuthority authority of
                           None \<Rightarrow> None
                         | Some (user, host) \<Rightarrow>
                             setPath (drop (2 + length authority) rest)
                               (u\<lparr>u_user := user, u_host := host\<rparr>))
                   else setPath rest
                     (u\<lparr>u_omitHost := (sch \<noteq> '''' \<and> HasPrefix rest ''/'')\<rparr>))))"

definition ParseRequestURI :: "string \<Rightarrow> url option" where
  "ParseRequestURI = parseURL True"

definition Parse :: "string \<Rightarrow> url option" where
  "Parse raw =
     (case Cut raw (CHR ''#'') of
        None \<Rightarrow> parseURL False raw
      | Some (a, frag) \<Rightarrow>
          (case parseURL False a of
             None \<Rightarrow> None
           | Some u \<Rightarrow> if frag = '''' then Some u else setFragment frag u))"

section \<open>Hostname\<close>

definition cutPort :: "string \<Rightarrow> string" where
  "cutPort h =
     (case before_last h (CHR '':'') of
        Some a \<Rightarrow> if list_all is_digit (drop (length a + 1) h) then a else h
      | None \<Rightarrow> h)"

definition Hostname :: "url \<Rightarrow> string" where
  "Hostname u =
     (let h = cutPort (u_host u)
      in if HasPrefix h ''['' \<and> HasSuffix h '']'' then butlast (tl h) else h)"

section \<open>Printing\<close>

definition valid_path_char :: "char \<Rightarrow> bool" where
  "valid_path_char c \<longleftrightarrow> c \<in> set ''!$&()*+,;=:@[]%'' \<union> {CHR 0x27} \<or> \<not> should_escape InPath c"

definition EscapedPath :: "url \<Rightarrow> string" where
  "EscapedPath u =
     (if u_rawPath u \<noteq> '''' \<and> list_all valid_path_char (u_rawPath u) \<and>
         url_unescape InPath (u_rawPath u) = Some (u_path u)
      then u_rawPath u
      else if u_path u = ''*'' then ''*''
      else url_escape InPath (u_path u))"

definition valid_fragment_char :: "char \<Rightarrow> bool" where
  "valid_fragment_char c \<longleftrightarrow>
     c \<in> set ''!$&()*+,;=:@[]%'' \<union> {CHR 0x27} \<or> \<not> should_escape InFragment c"

definition EscapedFragment :: "url \<Rightarrow> string" where
  "EscapedFragment u =
     (if u_rawFragment u \<noteq> '''' \<and> list_all valid_fragment_char (u_rawFragment u) \<and>
         url_unescape InFragment (u_rawFragment u) = Some (u_fragment u)
      then u_rawFragment u
      else url_escape InFragment (u_fragment u))"

definition user_text :: "string \<times> string option \<Rightarrow> string" where
  "user_text ui =
     (case ui of
        (n, None) \<Rightarrow> url_escape InUser n
      | (n, Some p) \<Rightarrow> url_escape InUser n @ '':'' @ url_escape InUser p)"

definition hier_part :: "url \<Rightarrow> string" where
  "hier_part u =
     (let auth =
            (if u_scheme u \<noteq> '''' \<or> u_host u \<noteq> '''' \<or> u_user u \<noteq> None then
               (if u_omitHost u \<and> u_host u = '''' \<and> u_user u = None then ''''
                else (if u_host u \<noteq> '''' \<or> u_path u \<noteq> '''' \<or> u_user u \<noteq> None then ''//'' else '''') @
                     (case u_user u of None \<Rightarrow> '''' | Some ui \<Rightarrow> user_text ui @ ''@'') @
                     url_escape InHost (u_host u))
             else '''');
          path = EscapedPath u;
          slash = (if path \<noteq> '''' \<and> hd path \<noteq> CHR ''/'' \<and> u_host u \<noteq> '''' then ''/'' else '''');
          dot = (if u_scheme u = '''' \<and> auth = '''' \<and> slash = '''' \<and> CHR '':'' \<in> set (first_segment path)
                 then ''./'' else '''')
      in auth @ slash @ dot @ path)"

definition url_string :: "url \<Rightarrow> string" where
  "url_string u =
     (if u_scheme u \<noteq> '''' then u_scheme u @ '':'' else '''') @
     (if u_opaque u \<noteq> '''' then u_opaque u else hier_part u) @
     (if u_forceQuery u \<or> u_rawQuery u \<noteq> '''' then ''?'' @ u_rawQuery u else '''') @
     (if u_fragment u \<noteq> '''' then ''#'' @ EscapedFragment u else '''')"

section \<open>Resolution\<close>

fun split_on :: "char \<Rightarrow> string \<Rightarrow> string list" where
  "split_on c [] = [[]]"
| "split_on c (x # s) =
     (if x = c then [] # split_on c s
      else case split_on c s of [] \<Rightarrow> [[x]] | w # ws \<Rightarrow> (x # w) # ws)"

text \<open>
  The loop of \<open>resolvePath\<close> over the elements of the path: what is behind the leading slash
  of the result so far, and whether the next element is the first.
\<close>

fun resolve_loop :: "string list \<Rightarrow> string \<Rightarrow> bool \<Rightarrow> string" where
  "resolve_loop [] dst first = dst"
| "resolve_loop (e # es) dst first =
     (if e = ''.'' then resolve_loop es dst False
      else if e = ''..'' then
        (case before_last dst (CHR ''/'') of
           None \<Rightarrow> resolve_loop es '''' True
         | Some d \<Rightarrow> resolve_loop es d first)
      else resolve_loop es ((if first then dst else dst @ ''/'') @ e) False)"

definition resolvePath :: "string \<Rightarrow> string \<Rightarrow> string" where
  "resolvePath base ref =
     (let full = (if ref = '''' then base
                  else if hd ref \<noteq> CHR ''/'' then
                    (case before_last base (CHR ''/'') of None \<Rightarrow> ref | Some d \<Rightarrow> d @ ''/'' @ ref)
                  else ref)
      in if full = '''' then ''''
         else
           (let elems = split_on (CHR ''/'') full;
                body = resolve_loop elems '''' True;
                r = ''/'' @ body @ (if last elems = ''.'' \<or> last elems = ''..'' then ''/'' else '''')
            in if HasPrefix r ''//'' then tl r else r))"

text \<open>\<open>setPath\<close> with the error ignored, as \<open>ResolveReference\<close> calls it.\<close>

definition putPath :: "string \<Rightarrow> url \<Rightarrow> url" where
  "putPath p u = (case setPath p u of None \<Rightarrow> u | Some v \<Rightarrow> v)"

definition ResolveReference :: "url \<Rightarrow> url \<Rightarrow> url" where
  "ResolveReference base ref =
     (let v = (if u_scheme ref = '''' then ref\<lparr>u_scheme := u_scheme base\<rparr> else ref)
      in if u_scheme ref \<noteq> '''' \<or> u_host ref \<noteq> '''' \<or> u_user ref \<noteq> None then
           putPath (resolvePath (EscapedPath ref) '''') v
         else if u_opaque ref \<noteq> '''' then v\<lparr>u_user := None, u_host := '''', u_path := ''''\<rparr>
         else
           (let v = (if u_path ref = '''' \<and> \<not> u_forceQuery ref \<and> u_rawQuery ref = ''''
                     then (let w = v\<lparr>u_rawQuery := u_rawQuery base\<rparr>
                           in if u_fragment ref = ''''
                              then w\<lparr>u_fragment := u_fragment base, u_rawFragment := u_rawFragment base\<rparr>
                              else w)
                     else v)
            in if u_path ref = '''' \<and> u_opaque base \<noteq> ''''
               then v\<lparr>u_opaque := u_opaque base, u_user := None, u_host := '''', u_path := ''''\<rparr>
               else putPath (resolvePath (EscapedPath base) (EscapedPath ref))
                      (v\<lparr>u_host := u_host base, u_user := u_user base\<rparr>)))"

section \<open>Lemmas\<close>

lemma split_on_append: "c \<notin> set s \<Longrightarrow> split_on c (s @ c # t) = s # split_on c t"
  by (induction s) auto

lemma split_on_single: "c \<notin> set s \<Longrightarrow> split_on c s = [s]"
  by (induction s) auto

lemma split_on_parts: "p \<in> set (split_on c s) \<Longrightarrow> c \<notin> set p"
  by (induction s arbitrary: p) (auto split: list.splits if_splits)

lemma url_escape_id: "\<forall>c\<in>set s. \<not> should_escape m c \<Longrightarrow> url_escape m s = s"
  by (induction s) auto

lemma unhex_upper_hex: "n < 16 \<Longrightarrow> unhex (upper_hex n) = Some n"
  by (auto simp: unhex_def upper_hex_def Let_def)

lemma query_plain:
  "\<not> should_escape InQuery c \<Longrightarrow> c \<notin> {CHR ''%'', CHR ''+'', CHR ''&'', CHR '';'', CHR ''=''}"
  by (auto simp: should_escape_def is_alpha_def is_digit_def digit_val_def)

lemma upper_hex_plain: "n < 16 \<Longrightarrow> \<not> should_escape InQuery (upper_hex n)"
  by (auto simp: upper_hex_def should_escape_def is_alpha_def is_digit_def digit_val_def Let_def)

lemma url_unescape_escape: "url_unescape InQuery (QueryEscape s) = Some s"
proof (induction s)
  case (Cons c s)
  let ?n = "of_char c :: nat"
  have "?n < 256" by simp
  then have n: "?n div 16 < 16" by linarith
  have "unhex (upper_hex (?n div 16)) = Some (?n div 16)" "unhex (upper_hex (?n mod 16)) = Some (?n mod 16)"
    using n by (simp_all add: unhex_upper_hex)
  moreover have "char_of (16 * (?n div 16) + ?n mod 16) = c" by simp
  ultimately show ?case
    using Cons query_plain [of c] by (auto simp: QueryEscape_def)
qed (simp add: QueryEscape_def)

lemma QueryEscape_chars:
  assumes "should_escape InQuery c" and "c \<noteq> CHR ''%''" and "c \<noteq> CHR ''+''"
  shows "c \<notin> set (QueryEscape s)"
proof (induction s)
  case (Cons d s)
  have "(of_char d :: nat) < 256" by simp
  then have "(of_char d :: nat) div 16 < 16" by linarith
  moreover have "(of_char d :: nat) mod 16 < 16" by simp
  ultimately have "c \<noteq> upper_hex ((of_char d :: nat) div 16)" "c \<noteq> upper_hex ((of_char d :: nat) mod 16)"
    using upper_hex_plain assms(1) by blast+
  with Cons assms show ?case by (auto simp: QueryEscape_def)
qed (simp add: QueryEscape_def)

text \<open>So none of the characters that structure a query, a playlist or an attribute is left.\<close>

lemma QueryEscape_separators:
  assumes "c \<in> {CHR ''&'', CHR '';'', CHR ''='', CHR 0x22, CHR 0x0A}"
  shows "c \<notin> set (QueryEscape s)"
proof -
  have "list_all (\<lambda>c. should_escape InQuery c \<and> c \<noteq> CHR ''%'' \<and> c \<noteq> CHR ''+'')
      [CHR ''&'', CHR '';'', CHR ''='', CHR 0x22, CHR 0x0A]" by code_simp
  with assms QueryEscape_chars show ?thesis by (auto simp: list_all_iff)
qed

text \<open>Query strings are a codec of all strings.\<close>

interpretation query: codec "\<lambda>_. True" QueryEscape "url_unescape InQuery"
  by unfold_locales (rule url_unescape_escape)

end
