(* ===== verification/Serve_Content.thy ===== *)
theory Serve_Content
  imports Http_Range Go_Url
begin

text \<open>
  The replies made with \<open>http.ServeContent\<close> (Go 1.26): \<open>serveCachedFile\<close> of serve.go for a
  finished video and \<open>writeSegment\<close> of hls.go. The reply is modelled for requests without
  conditional headers, its \<open>Last-Modified\<close> is left out, and the boundary of a multipart reply,
  which is random, is an argument.
\<close>

section \<open>Ranges\<close>

text \<open>\<open>textproto.TrimString\<close>: ASCII white space alone.\<close>

definition ascii_space :: "char \<Rightarrow> bool" where
  "ascii_space c \<longleftrightarrow> c = CHR '' '' \<or> c = CHR 0x09 \<or> c = CHR 0x0A \<or> c = CHR 0x0D"

definition TrimString :: "string \<Rightarrow> string" where
  "TrimString s = rev (dropWhile ascii_space (rev (dropWhile ascii_space s)))"

text \<open>One element of the list: nothing, a start behind the end, an error, or start and length.\<close>

datatype range_spec = Blank | Beyond | Invalid | Span int int

definition range_of :: "string \<Rightarrow> int \<Rightarrow> range_spec" where
  "range_of elem size' =
     (let ra = TrimString elem
      in if ra = '''' then Blank
         else case Cut ra (CHR ''-'') of
             None \<Rightarrow> Invalid
           | Some (before, after) \<Rightarrow>
               (let start = TrimString before; end' = TrimString after
                in if start = '''' then
                     (if end' = '''' \<or> hd end' = CHR ''-'' then Invalid
                      else case ParseInt end' of
                          None \<Rightarrow> Invalid
                        | Some i \<Rightarrow>
                            if i < 0 then Invalid
                            else (let i = (if i > size' then size' else i);
                                      st = sub64 size' i
                                  in Span st (sub64 size' st)))
                   else case ParseInt start of
                       None \<Rightarrow> Invalid
                     | Some s \<Rightarrow>
                         if s < 0 then Invalid
                         else if s \<ge> size' then Beyond
                         else if end' = '''' then Span s (sub64 size' s)
                         else case ParseInt end' of
                             None \<Rightarrow> Invalid
                           | Some e \<Rightarrow>
                               if s > e then Invalid
                               else (let e = (if e \<ge> size' then sub64 size' 1 else e)
                                     in Span s (add64 (sub64 e s) 1))))"

datatype range_error = InvalidRange | NoOverlap

fun ranges_loop :: "string list \<Rightarrow> int \<Rightarrow> bool \<Rightarrow> (int \<times> int) list \<Rightarrow> range_error + (int \<times> int) list" where
  "ranges_loop [] size' noOverlap ranges =
     (if noOverlap \<and> ranges = [] then Inl NoOverlap else Inr ranges)"
| "ranges_loop (x # xs) size' noOverlap ranges =
     (case range_of x size' of
        Blank \<Rightarrow> ranges_loop xs size' noOverlap ranges
      | Beyond \<Rightarrow> ranges_loop xs size' True ranges
      | Invalid \<Rightarrow> Inl InvalidRange
      | Span s n \<Rightarrow> ranges_loop xs size' noOverlap (ranges @ [(s, n)]))"

definition parseRange :: "string \<Rightarrow> int \<Rightarrow> range_error + (int \<times> int) list" where
  "parseRange h size' =
     (if h = '''' then Inr []
      else case CutPrefix h ''bytes='' of
          None \<Rightarrow> Inl InvalidRange
        | Some spec \<Rightarrow> ranges_loop (split_on (CHR '','') spec) size' False [])"

section \<open>The reply\<close>

text \<open>A body is a sequence of texts and of stretches of the content, by first byte and length.\<close>

datatype body_part = Text string | Stretch int int

fun part_length :: "body_part \<Rightarrow> int" where
  "part_length (Text t) = int (length t)"
| "part_length (Stretch s n) = n"

record content_reply =
  cr_status :: int
  cr_headers :: "string \<Rightarrow> string option"
  cr_body :: "body_part list"

definition eol :: string where
  "eol = [CHR 0x0D, CHR 0x0A]"

definition span_text :: "int \<Rightarrow> int \<times> int \<Rightarrow> string" where
  "span_text size' r = contentRange (fst r) (sub64 (add64 (fst r) (snd r)) 1) size'"

definition part_head :: "string \<Rightarrow> string \<Rightarrow> int \<Rightarrow> bool \<Rightarrow> int \<times> int \<Rightarrow> string" where
  "part_head boundary ctype size' first r =
     (if first then '''' else eol) @ ''--'' @ boundary @ eol @
     ''Content-Range: '' @ span_text size' r @ eol @ ''Content-Type: '' @ ctype @ eol @ eol"

fun parts_loop :: "string \<Rightarrow> string \<Rightarrow> int \<Rightarrow> bool \<Rightarrow> (int \<times> int) list \<Rightarrow> body_part list" where
  "parts_loop boundary ctype size' first [] = [Text (eol @ ''--'' @ boundary @ ''--'' @ eol)]"
| "parts_loop boundary ctype size' first (r # rs) =
     Text (part_head boundary ctype size' first r) # Stretch (fst r) (snd r) #
     parts_loop boundary ctype size' False rs"

text \<open>\<open>rangesMIMESize\<close>, with the sums of \<open>int64\<close>, and \<open>sumRangesSize\<close>.\<close>

definition rangesMIMESize :: "string \<Rightarrow> string \<Rightarrow> int \<Rightarrow> (int \<times> int) list \<Rightarrow> int" where
  "rangesMIMESize boundary ctype size' rs =
     foldl (\<lambda>n p. add64 n (part_length p)) 0 (parts_loop boundary ctype size' True rs)"

definition sumRangesSize :: "(int \<times> int) list \<Rightarrow> int" where
  "sumRangesSize rs = foldl (\<lambda>n r. add64 n (snd r)) 0 rs"

definition ServeContent :: "string \<Rightarrow> (string \<Rightarrow> string option) \<Rightarrow> string \<Rightarrow> string \<Rightarrow> int \<Rightarrow> content_reply" where
  "ServeContent boundary headers meth rangeReq size' =
     (let ctype = (case headers ''Content-Type'' of Some t \<Rightarrow> t | None \<Rightarrow> '''');
          refuse = (\<lambda>h message. \<lparr>cr_status = 416,
             cr_headers = h(''Content-Type'' \<mapsto> ''text/plain; charset=utf-8'',
                            ''X-Content-Type-Options'' \<mapsto> ''nosniff''),
             cr_body = [Text (message @ [CHR 0x0A])]\<rparr>);
          send = (\<lambda>h code n body. \<lparr>cr_status = code,
             cr_headers = h(''Accept-Ranges'' \<mapsto> ''bytes'', ''Content-Length'' \<mapsto> FormatInt n),
             cr_body = (if meth = ''HEAD'' then [] else body)\<rparr>);
          serve = (\<lambda>ranges.
             (case (if sumRangesSize ranges > size' then [] else ranges) of
                [] \<Rightarrow> send headers 200 size' [Stretch 0 size']
              | [(s, n)] \<Rightarrow>
                  send (headers(''Content-Range'' \<mapsto> span_text size' (s, n))) 206 n [Stretch s n]
              | rs \<Rightarrow>
                  send (headers(''Content-Type'' \<mapsto> ''multipart/byteranges; boundary='' @ boundary)) 206
                    (rangesMIMESize boundary ctype size' rs) (parts_loop boundary ctype size' True rs)))
      in case parseRange rangeReq size' of
           Inr ranges \<Rightarrow> serve ranges
         | Inl NoOverlap \<Rightarrow>
             if size' = 0 then serve []
             else refuse (headers(''Content-Range'' \<mapsto> ''bytes */'' @ FormatInt size'))
                    ''invalid range: failed to overlap''
         | Inl InvalidRange \<Rightarrow> refuse headers ''invalid range'')"

section \<open>The two callers\<close>

text \<open>\<open>serveCachedFile\<close>: the file as it is opened, its size unless it is a directory; or none.\<close>

definition serveCachedFile :: "string \<Rightarrow> (int option) option \<Rightarrow> string \<Rightarrow> string \<Rightarrow> content_reply" where
  "serveCachedFile boundary file meth rangeReq =
     (case file of
        Some (Some size') \<Rightarrow> ServeContent boundary [''Content-Type'' \<mapsto> ''video/mp4''] meth rangeReq size'
      | _ \<Rightarrow> \<lparr>cr_status = 404,
              cr_headers = [''Content-Type'' \<mapsto> ''text/plain; charset=utf-8'', ''X-Content-Type-Options'' \<mapsto> ''nosniff''],
              cr_body = [Text (''404 page not found'' @ [CHR 0x0A])]\<rparr>)"

definition writeSegment :: "string \<Rightarrow> string \<Rightarrow> string \<Rightarrow> string \<Rightarrow> string \<Rightarrow> content_reply" where
  "writeSegment boundary contentType body meth rangeReq =
     ServeContent boundary [''Content-Type'' \<mapsto> contentType, ''Accept-Ranges'' \<mapsto> ''bytes''] meth rangeReq
       (int (length body))"


section \<open>Consistent replies\<close>

lemma i64_add: "i64 (i64 a + b) = i64 (a + b)"
  by (simp add: i64_word)

lemma foldl_add64_sum: "foldl (\<lambda>n x. add64 n (f x)) (i64 a) xs = i64 (a + (\<Sum>x\<leftarrow>xs. f x))"
  by (induction xs arbitrary: a) (simp_all add: add64_def i64_add add.assoc)

lemma i64_zero: "i64 0 = 0"
  by (rule i64_id) (simp add: i64_bounds)

lemma rangesMIMESize_sum:
  "rangesMIMESize boundary ctype size' rs = i64 (\<Sum>p\<leftarrow>parts_loop boundary ctype size' True rs. part_length p)"
  using foldl_add64_sum [of part_length 0] by (simp add: rangesMIMESize_def i64_zero)

text \<open>A range that is accepted lies in the content; an empty one may stand at its end.\<close>

definition span_ok :: "int \<Rightarrow> int \<times> int \<Rightarrow> bool" where
  "span_ok size' r \<longleftrightarrow> 0 \<le> fst r \<and> 0 \<le> snd r \<and> fst r + snd r \<le> size'"

lemma range_of_ok:
  assumes "0 \<le> size'" and "size' \<le> max_i64" and "range_of elem size' = Span s n"
  shows "span_ok size' (s, n)"
proof -
  have sub: "sub64 a b = a - b" if "0 \<le> b" "b \<le> size'" "0 \<le> a" "a \<le> size'" for a b
    using that assms by (intro sub64_nonneg) auto
  have one: "sub64 size' 1 = size' - 1" if "0 < size'"
    using that assms by (intro sub64_nonneg) (auto simp: max_i64_def)
  have add: "add64 (e - s) 1 = e - s + 1" if "0 \<le> s" "s \<le> e" "e < size'" for e s
    using that assms by (intro add64_nonneg) auto
  have last: "add64 (size' - 1 - s) 1 = size' - s" if "0 \<le> s" "s < size'" for s
    using add [of s "size' - 1"] that by simp
  show ?thesis
    using assms(1,3)
    by (auto simp: range_of_def span_ok_def sub one add last Let_def split: if_splits option.splits)
qed

lemma ranges_loop_ok:
  assumes "0 \<le> size'" and "size' \<le> max_i64"
  shows "ranges_loop xs size' no rs = Inr out \<Longrightarrow> \<forall>r\<in>set rs. span_ok size' r \<Longrightarrow> \<forall>r\<in>set out. span_ok size' r"
proof (induction xs arbitrary: no rs)
  case (Cons x xs)
  show ?case
  proof (cases "range_of x size'")
    case (Span s n)
    with range_of_ok [OF assms Span] Cons.prems Cons.IH [of no "rs @ [(s, n)]"] show ?thesis
      by simp
  qed (use Cons in auto)
qed (auto split: if_splits)

lemma parseRange_ok:
  assumes "0 \<le> size'" and "size' \<le> max_i64" and "parseRange h size' = Inr rs"
  shows "\<forall>r\<in>set rs. span_ok size' r"
  using assms ranges_loop_ok [OF assms(1,2), of _ False "[]" rs]
  by (auto simp: parseRange_def split: if_splits option.splits)

text \<open>The stretches of the content a body has.\<close>

fun in_content :: "int \<Rightarrow> body_part \<Rightarrow> bool" where
  "in_content size' (Text t) = True"
| "in_content size' (Stretch s n) = span_ok size' (s, n)"

lemma parts_loop_content: "\<forall>r\<in>set rs. span_ok size' r \<Longrightarrow> \<forall>p\<in>set (parts_loop b c size' first rs). in_content size' p"
  by (induction rs arbitrary: first) auto

lemma ServeContent_consistent:
  assumes "0 \<le> size'" and "size' \<le> max_i64" and "meth \<noteq> ''HEAD''"
    and "r = ServeContent boundary headers meth rangeReq size'"
  shows "(\<forall>p\<in>set (cr_body r). in_content size' p) \<and>
    (cr_status r = 200 \<or> cr_status r = 206 \<longrightarrow>
       cr_headers r ''Content-Length'' = Some (FormatInt (i64 (\<Sum>p\<leftarrow>cr_body r. part_length p)))) \<and>
    (cr_status r \<noteq> 200 \<and> cr_status r \<noteq> 206 \<longrightarrow> cr_status r = 416 \<and> (\<forall>p\<in>set (cr_body r). \<exists>t. p = Text t))"
proof (cases "parseRange rangeReq size'")
  case (Inl e)
  then show ?thesis
    using assms
    by (cases e) (auto simp: ServeContent_def sumRangesSize_def span_ok_def i64_zero Let_def)
next
  case (Inr rs)
  define ranges where "ranges = (if sumRangesSize rs > size' then [] else rs)"
  have ok: "\<forall>x\<in>set ranges. span_ok size' x"
    using parseRange_ok [OF assms(1,2) Inr] by (simp add: ranges_def)
  have id: "i64 n = n" if "0 \<le> n" "n \<le> size'" for n
    using that assms(2) by (intro i64_id) (simp add: i64_bounds)
  consider (none) "ranges = []" | (one) s n where "ranges = [(s, n)]" | (many) a b rest where "ranges = a # b # rest"
    by (cases ranges rule: remdups_adj.cases) auto
  then show ?thesis
  proof cases
    case none
    with Inr assms id [of size'] show ?thesis
      by (simp add: ServeContent_def Let_def ranges_def [symmetric] span_ok_def)
  next
    case one
    with ok have "span_ok size' (s, n)" by simp
    with Inr assms one id [of n] show ?thesis
      by (simp add: ServeContent_def Let_def ranges_def [symmetric] span_ok_def)
  next
    case many
    with Inr assms parts_loop_content [OF ok] show ?thesis
      by (simp add: ServeContent_def Let_def ranges_def [symmetric] rangesMIMESize_sum del: parts_loop.simps)
  qed
qed



section \<open>Live and cached replies agree\<close>

lemma TrimString_digits:
  assumes "list_all is_digit s"
  shows "TrimString s = s"
proof -
  have no: "dropWhile ascii_space t = t" if "list_all is_digit t" for t
    using that by (cases t) (auto simp: ascii_space_def is_digit_def digit_val_def)
  show ?thesis using assms by (simp add: TrimString_def no)
qed

lemma TrimString_spec:
  assumes "list_all is_digit a" and "list_all is_digit b"
  shows "TrimString (a @ CHR ''-'' # b) = a @ CHR ''-'' # b"
proof -
  have no: "dropWhile ascii_space (t @ CHR ''-'' # u) = t @ CHR ''-'' # u" if "list_all is_digit t" for t u
    using that by (cases t) (auto simp: ascii_space_def is_digit_def digit_val_def)
  show ?thesis using assms no [of "rev b" "rev a"] by (simp add: TrimString_def no)
qed

text \<open>The one range of a header with digits around the dash.\<close>

lemma parseRange_digits:
  assumes "list_all is_digit a" and "list_all is_digit b"
  shows "parseRange (''bytes='' @ a @ CHR ''-'' # b) size' = ranges_loop [a @ CHR ''-'' # b] size' False []"
proof -
  have "CHR '','' \<notin> set (a @ CHR ''-'' # b)"
    using digits_no [OF assms(1)] digits_no [OF assms(2)] by simp
  from split_on_single [OF this] show ?thesis
    unfolding parseRange_def CutPrefix_append by simp
qed

lemma range_of_digits:
  assumes "list_all is_digit a" and "list_all is_digit b" and "0 < size'" and "size' \<le> max_i64"
    and "a = '''' \<longrightarrow> b \<noteq> '''' \<and> ParseInt b \<noteq> Some 0"
  shows "case parseSingleRange (''bytes='' @ a @ CHR ''-'' # b) size' of (s, e, ok, sat) \<Rightarrow>
    ok = sat \<and> (case range_of (a @ CHR ''-'' # b) size' of
      Span s' n \<Rightarrow> sat \<and> s' = s \<and> n = e - s + 1 \<and> 0 \<le> s \<and> s \<le> e \<and> e < size'
    | Blank \<Rightarrow> False
    | _ \<Rightarrow> \<not> sat)"
proof -
  have sub: "sub64 x y = x - y" if "0 \<le> y" "y \<le> size'" "0 \<le> x" "x \<le> size'" for x y
    using that assms(4) by (intro sub64_nonneg) auto
  have add: "add64 x 1 = x + 1" if "0 \<le> x" "x < size'" for x
    using that assms(4) by (intro add64_nonneg) auto
  have m: "CHR ''-'' \<notin> set a" using digits_no [OF assms(1)] by simp
  have minus: "hd b \<noteq> CHR ''-''" if "b \<noteq> ''''"
    using digits_no [OF assms(2), of "CHR ''-''"] hd_in_set [OF that] by auto
  show ?thesis
    unfolding range_of_def TrimString_spec [OF assms(1,2)] Cut_append [OF m] option.case prod.case Let_def
      TrimString_digits [OF assms(1)] TrimString_digits [OF assms(2)] parseSingleRange_digits [OF assms(1,2)]
    using assms(3,5) minus by (auto simp: sub add min_def split: option.splits)
qed

lemma live_cached_same:
  assumes "0 < size'" and "size' \<le> max_i64" and "meth \<noteq> ''HEAD''"
    and "list_all is_digit a" and "list_all is_digit b"
    and "a = '''' \<longrightarrow> b \<noteq> '''' \<and> ParseInt b \<noteq> Some 0"
    and "h = '''' \<or> h = ''bytes='' @ a @ CHR ''-'' # b"
    and "live = sparseHead meth h size'"
    and "cached = serveCachedFile boundary (Some (Some size')) meth h"
  shows "cr_status cached = rp_status live \<and>
    (rp_status live \<noteq> 416 \<longrightarrow>
       cr_headers cached = rp_headers live \<and>
       (\<exists>s e. rp_range live = Some (s, e) \<and> cr_body cached = [Stretch s (e - s + 1)]))"
proof -
  have one: "sub64 size' 1 = size' - 1"
    using assms(1,2) by (intro sub64_nonneg) (auto simp: max_i64_def)
  have len: "add64 (sub64 e s) 1 = e - s + 1" if "0 \<le> s" "s \<le> e" "e < size'" for s e
  proof -
    have "sub64 e s = e - s" using that assms by (intro sub64_nonneg) auto
    then show ?thesis using that assms by (simp add: add64_nonneg)
  qed
  have last: "sub64 (add64 s (e - s + 1)) 1 = e \<and> add64 0 (e - s + 1) = e - s + 1"
    if "0 \<le> s" "s \<le> e" "e < size'" for s e
  proof -
    have "add64 s (e - s + 1) = s + (e - s + 1)" "add64 0 (e - s + 1) = 0 + (e - s + 1)"
      using that assms(2) by (intro add64_nonneg; simp)+
    moreover have "sub64 (e + 1) 1 = e + 1 - 1" using that assms(2) by (intro sub64_nonneg) auto
    ultimately show ?thesis by simp
  qed
  show ?thesis
  proof (cases "h = ''''")
    case True
    then show ?thesis
      using assms one len [of 0 "size' - 1"]
      by (simp add: sparseHead_def serveCachedFile_def ServeContent_def parseRange_def sumRangesSize_def Let_def
          fun_upd_twist)
  next
    case False
    then have h: "h = ''bytes='' @ a @ CHR ''-'' # b" using assms(7) by blast
    obtain s e ok sat where p: "parseSingleRange h size' = (s, e, ok, sat)"
      by (cases "parseSingleRange h size'") auto
    note r = range_of_digits [OF assms(4,5,1,2,6), folded h, unfolded p prod.case]
    note pr = parseRange_digits [OF assms(4,5), of size', folded h]
    show ?thesis
    proof (cases "range_of (a @ CHR ''-'' # b) size'")
      case (Span s' n)
      with r have eq: "ok" "sat" "s' = s" "n = e - s + 1" and b: "0 \<le> s" "s \<le> e" "e < size'" by auto
      have sum: "\<not> sumRangesSize [(s, e - s + 1)] > size'"
        using last [OF b] b by (simp add: sumRangesSize_def)
      show ?thesis
        using False p eq Span assms(3,8,9) sum last [OF b] len [OF b]
        by (simp add: sparseHead_def serveCachedFile_def ServeContent_def pr span_text_def Let_def fun_upd_twist)
    qed (use False p r assms(1,8,9) pr in \<open>auto simp: sparseHead_def serveCachedFile_def ServeContent_def Let_def\<close>)
  qed
qed



text \<open>The exception is real: an empty suffix is refused by the one and served as nothing by the other.\<close>

theorem empty_suffix_differs:
  "rp_status (sparseHead ''GET'' ''bytes=-0'' 9) = 416 \<and>
   cr_status (serveCachedFile ''B'' (Some (Some 9)) ''GET'' ''bytes=-0'') = 206 \<and>
   cr_headers (serveCachedFile ''B'' (Some (Some 9)) ''GET'' ''bytes=-0'') ''Content-Range'' = Some ''bytes 9-8/9''"
  by code_simp

end
