(* ===== verification/Job_Registry.thy ===== *)
theory Job_Registry
  imports Http_Range
begin

text \<open>
  The registry of downloads in jobs.go (\<open>startJob\<close>, \<open>getJob\<close>, \<open>run\<close>, \<open>finishJob\<close>) and
  the \<open>/live\<close> handler of handler.go that races with it. Jobs are objects on a heap, as
  handlers keep a pointer to a job after it has left the registry. The steps of a job and
  of a handler are the parts the code does without interruption by the others: a critical
  section, a channel operation, a system call.
\<close>

section \<open>Jobs\<close>

text \<open>
  Where \<open>run\<close> is: before the probe has answered, in the run of its mode, back from it with
  its result, before \<open>finishJob\<close>, then between the critical sections of \<open>finishJob\<close>, and
  over.
\<close>

datatype job_place =
    Started
  | Running
  | Ran "go_error option"
  | Finishing "go_error option"
  | Dropping
  | Cleaning
  | Over

record job =
  jb_id :: string
  jb_remux :: bool
  jb_ready :: bool
  jb_size :: int
  jb_rangeable :: bool
  jb_probeErr :: "go_error option"
  jb_sparse :: bool
  jb_tmp :: bool
  jb_done :: bool
  jb_err :: "go_error option"
  jb_place :: job_place

record registry =
  rg_jobs :: "string \<Rightarrow> nat option"
  rg_heap :: "nat \<Rightarrow> job option"
  rg_next :: nat
  rg_cached :: "string \<Rightarrow> bool"

definition new_job :: "string \<Rightarrow> bool \<Rightarrow> job" where
  "new_job i remux =
     \<lparr>jb_id = i, jb_remux = remux, jb_ready = False, jb_size = -1, jb_rangeable = False,
      jb_probeErr = None, jb_sparse = False, jb_tmp = False, jb_done = False, jb_err = None,
      jb_place = Started\<rparr>"

abbreviation put_job :: "nat \<Rightarrow> job \<Rightarrow> registry \<Rightarrow> registry" where
  "put_job j x r \<equiv> r\<lparr>rg_heap := (rg_heap r)(j \<mapsto> x)\<rparr>"

definition startJob :: "string \<Rightarrow> bool \<Rightarrow> registry \<Rightarrow> registry \<times> nat" where
  "startJob i remux r =
     (case rg_jobs r i of
        Some j \<Rightarrow> (r, j)
      | None \<Rightarrow>
          ((put_job (rg_next r) (new_job i remux) r)
             \<lparr>rg_jobs := (rg_jobs r)(i \<mapsto> rg_next r), rg_next := Suc (rg_next r)\<rparr>, rg_next r))"

definition getJob :: "registry \<Rightarrow> string \<Rightarrow> nat option" where
  "getJob r i = rg_jobs r i"

text \<open>
  \<open>run\<close> up to the closing of \<open>ready\<close>. The answer of the probe is a size, whether ranges
  work and an error; \<open>sparse_err\<close> is the error of \<open>newSparseFile\<close>.
\<close>

definition readyTurn :: "int \<Rightarrow> bool \<Rightarrow> go_error option \<Rightarrow> go_error option \<Rightarrow> job \<Rightarrow> job" where
  "readyTurn sz rangeable probe_err sparse_err x =
     (if jb_remux x then x\<lparr>jb_ready := True, jb_place := Running\<rparr>
      else
        (let x1 = (if probe_err = None then x\<lparr>jb_size := sz, jb_rangeable := rangeable \<and> sz > 0\<rparr> else x);
             (x2, err) =
               (if probe_err = None \<and> jb_rangeable x1
                then (case sparse_err of
                        Some e \<Rightarrow> (x1, Some e)
                      | None \<Rightarrow> (x1\<lparr>jb_sparse := True, jb_tmp := True\<rparr>, None))
                else (x1, probe_err))
         in x2\<lparr>jb_probeErr := err, jb_ready := True,
               jb_place := (case err of None \<Rightarrow> Running | Some e \<Rightarrow> Finishing (Some e))\<rparr>))"

text \<open>
  In a remux or sequential run the upstream is opened first and then the temporary file
  created; the run ends with a result, without an error only when there is a file.
\<close>

definition createTurn :: "job \<Rightarrow> job" where
  "createTurn x = x\<lparr>jb_tmp := True\<rparr>"

definition ranTurn :: "go_error option \<Rightarrow> job \<Rightarrow> job" where
  "ranTurn e x = x\<lparr>jb_place := Ran e\<rparr>"

text \<open>The move into the cache after a run without an error.\<close>

definition finalizeTurn :: "go_error option \<Rightarrow> nat \<Rightarrow> job \<Rightarrow> registry \<Rightarrow> registry" where
  "finalizeTurn fin_err j x r =
     (case jb_place x of
        Ran (Some e) \<Rightarrow> put_job j (x\<lparr>jb_place := Finishing (Some e)\<rparr>) r
      | Ran None \<Rightarrow>
          (case fin_err of
             Some e \<Rightarrow> put_job j (x\<lparr>jb_place := Finishing (Some e)\<rparr>) r
           | None \<Rightarrow> (put_job j (x\<lparr>jb_tmp := False, jb_place := Finishing None\<rparr>) r)
                       \<lparr>rg_cached := (rg_cached r)(jb_id x := True)\<rparr>)
      | _ \<Rightarrow> r)"

definition finishJob1 :: "go_error option \<Rightarrow> job \<Rightarrow> job" where
  "finishJob1 e x = x\<lparr>jb_done := True, jb_err := e, jb_place := Dropping\<rparr>"

definition finishJob2 :: "nat \<Rightarrow> job \<Rightarrow> registry \<Rightarrow> registry" where
  "finishJob2 j x r =
     (put_job j (x\<lparr>jb_place := Cleaning\<rparr>) r)\<lparr>rg_jobs := (rg_jobs r)(jb_id x := None)\<rparr>"

definition finishJob3 :: "job \<Rightarrow> job" where
  "finishJob3 x = x\<lparr>jb_tmp := (if jb_err x \<noteq> None then False else jb_tmp x), jb_place := Over\<rparr>"

section \<open>The handler of /live\<close>

text \<open>
  The places of \<open>liveHandler\<close>: at one of its three calls of \<open>serveIfCached\<close>, before the
  lookup, waiting for \<open>ready\<close> and after it, opening the cached file found by \<open>Has\<close>, and the
  answers it can give.
\<close>

datatype answer =
    FromCache
  | Answer404
  | Answer502
  | Answer503
  | BySparse nat
  | ByTail nat
  | ClientGone

datatype live_place =
    CheckCache
  | LookUp
  | CheckAgain
  | AwaitReady nat
  | CheckFailed nat
  | CheckAfter nat
  | Route nat
  | Opening_cached
  | Answered answer

text \<open>\<open>serveIfCached\<close> up to the open: \<open>next'\<close> is where the handler goes without the entry.\<close>

definition ifCached :: "registry \<Rightarrow> string \<Rightarrow> live_place \<Rightarrow> live_place" where
  "ifCached r i next' = (if rg_cached r i then Opening_cached else next')"

definition liveTurn :: "bool \<Rightarrow> registry \<Rightarrow> string \<Rightarrow> live_place \<Rightarrow> live_place option" where
  "liveTurn client_gone r i p =
     (case p of
        CheckCache \<Rightarrow> Some (ifCached r i LookUp)
      | LookUp \<Rightarrow> Some (case getJob r i of None \<Rightarrow> CheckAgain | Some j \<Rightarrow> AwaitReady j)
      | CheckAgain \<Rightarrow> Some (ifCached r i (Answered Answer404))
      | AwaitReady j \<Rightarrow>
          (case rg_heap r j of
             None \<Rightarrow> None
           | Some x \<Rightarrow>
               if jb_ready x then Some (if jb_probeErr x \<noteq> None then CheckFailed j else CheckAfter j)
               else if client_gone then Some (Answered ClientGone) else None)
      | CheckFailed j \<Rightarrow> Some (ifCached r i (Answered Answer502))
      | CheckAfter j \<Rightarrow> Some (ifCached r i (Route j))
      | Route j \<Rightarrow>
          (case rg_heap r j of
             None \<Rightarrow> None
           | Some x \<Rightarrow>
               Some (Answered (if jb_rangeable x \<and> jb_sparse x then BySparse j
                               else if jb_tmp x then ByTail j else Answer503)))
      | Opening_cached \<Rightarrow> Some (Answered (if rg_cached r i then FromCache else Answer404))
      | Answered a \<Rightarrow> None)"

section \<open>The steps\<close>

text \<open>\<open>E i\<close>: the eviction may remove the entry of \<open>i\<close>.\<close>

inductive reg_step :: "(string \<Rightarrow> bool) \<Rightarrow> registry \<Rightarrow> registry \<Rightarrow> bool" for E :: "string \<Rightarrow> bool"
where
  start: "reg_step E r (fst (startJob i remux r))"
| ready:
    "rg_heap r j = Some x \<Longrightarrow> jb_place x = Started \<Longrightarrow>
     reg_step E r (put_job j (readyTurn sz rangeable probe_err sparse_err x) r)"
| create:
    "rg_heap r j = Some x \<Longrightarrow> jb_place x = Running \<Longrightarrow> \<not> jb_sparse x \<Longrightarrow>
     reg_step E r (put_job j (createTurn x) r)"
| ran:
    "rg_heap r j = Some x \<Longrightarrow> jb_place x = Running \<Longrightarrow> (e = None \<longrightarrow> jb_tmp x) \<Longrightarrow>
     reg_step E r (put_job j (ranTurn e x) r)"
| finalize:
    "rg_heap r j = Some x \<Longrightarrow> jb_place x = Ran e \<Longrightarrow> reg_step E r (finalizeTurn fin_err j x r)"
| finish1:
    "rg_heap r j = Some x \<Longrightarrow> jb_place x = Finishing e \<Longrightarrow>
     reg_step E r (put_job j (finishJob1 e x) r)"
| finish2:
    "rg_heap r j = Some x \<Longrightarrow> jb_place x = Dropping \<Longrightarrow> reg_step E r (finishJob2 j x r)"
| finish3:
    "rg_heap r j = Some x \<Longrightarrow> jb_place x = Cleaning \<Longrightarrow>
     reg_step E r (put_job j (finishJob3 x) r)"
| evict: "E i \<Longrightarrow> reg_step E r (r\<lparr>rg_cached := (rg_cached r)(i := False)\<rparr>)"

definition init_registry :: "(string \<Rightarrow> bool) \<Rightarrow> registry" where
  "init_registry cached =
     \<lparr>rg_jobs = (\<lambda>_. None), rg_heap = (\<lambda>_. None), rg_next = 0, rg_cached = cached\<rparr>"

inductive reg_reach :: "(string \<Rightarrow> bool) \<Rightarrow> registry \<Rightarrow> bool" for E :: "string \<Rightarrow> bool"
where
  reg_init: "reg_reach E (init_registry cached)"
| reg_next: "reg_reach E r \<Longrightarrow> reg_step E r t \<Longrightarrow> reg_reach E t"

text \<open>A request for \<open>i\<close> that arrives in the state \<open>r\<close>, beside the jobs.\<close>

inductive live_reach ::
  "(string \<Rightarrow> bool) \<Rightarrow> string \<Rightarrow> registry \<Rightarrow> registry \<times> live_place \<Rightarrow> bool"
  for E :: "string \<Rightarrow> bool" and i :: string and r0 :: registry
where
  arrive: "live_reach E i r0 (r0, CheckCache)"
| jobs: "live_reach E i r0 (r, p) \<Longrightarrow> reg_step E r t \<Longrightarrow> live_reach E i r0 (t, p)"
| handler: "live_reach E i r0 (r, p) \<Longrightarrow> liveTurn gone r i p = Some q \<Longrightarrow> live_reach E i r0 (r, q)"

section \<open>The invariant of the registry\<close>

definition active :: "job \<Rightarrow> bool" where
  "active x \<longleftrightarrow> jb_place x \<noteq> Cleaning \<and> jb_place x \<noteq> Over"

definition failed :: "job \<Rightarrow> bool" where
  "failed x \<longleftrightarrow> jb_done x \<and> jb_err x \<noteq> None"

text \<open>\<open>job_ok c x\<close>: \<open>c\<close> tells whether the entry of \<open>x\<close> must be in the cache once moved there.\<close>

definition job_ok :: "bool \<Rightarrow> bool \<Rightarrow> job \<Rightarrow> bool" where
  "job_ok kept cached x \<longleftrightarrow>
     (jb_done x \<longleftrightarrow> jb_place x \<in> {Dropping, Cleaning, Over}) \<and>
     (jb_ready x \<longleftrightarrow> jb_place x \<noteq> Started) \<and>
     (kept \<and> (jb_place x = Finishing None \<or> jb_done x \<and> jb_err x = None) \<longrightarrow> cached) \<and>
     (jb_place x = Started \<longrightarrow> jb_probeErr x = None \<and> \<not> jb_sparse x) \<and>
     (jb_sparse x \<longrightarrow> jb_rangeable x \<and> 0 < jb_size x) \<and>
     (jb_probeErr x \<noteq> None \<longrightarrow> jb_place x = Finishing (jb_probeErr x) \<or> jb_done x \<and> jb_err x = jb_probeErr x)"

definition reg_inv :: "(string \<Rightarrow> bool) \<Rightarrow> registry \<Rightarrow> bool" where
  "reg_inv E r \<longleftrightarrow>
     (\<forall>j. rg_next r \<le> j \<longrightarrow> rg_heap r j = None) \<and>
     (\<forall>i j. rg_jobs r i = Some j \<longleftrightarrow> (\<exists>x. rg_heap r j = Some x \<and> jb_id x = i \<and> active x)) \<and>
     (\<forall>j x. rg_heap r j = Some x \<longrightarrow> job_ok (\<not> E (jb_id x)) (rg_cached r (jb_id x)) x)"

lemma reg_invD:
  assumes "reg_inv E r"
  shows "rg_next r \<le> j \<Longrightarrow> rg_heap r j = None"
    and "rg_jobs r i = Some j \<longleftrightarrow> (\<exists>x. rg_heap r j = Some x \<and> jb_id x = i \<and> active x)"
    and "rg_heap r j = Some x \<Longrightarrow> job_ok (\<not> E (jb_id x)) (rg_cached r (jb_id x)) x"
  using assms unfolding reg_inv_def by blast+

lemma reg_inv_put:
  assumes inv: "reg_inv E r" and x: "rg_heap r j = Some x"
    and same: "jb_id x' = jb_id x" "active x' = active x"
    and ok: "job_ok (\<not> E (jb_id x)) (rg_cached r (jb_id x)) x'"
  shows "reg_inv E (put_job j x' r)"
proof -
  have "rg_jobs r i = Some k \<longleftrightarrow>
      (\<exists>y. rg_heap (put_job j x' r) k = Some y \<and> jb_id y = i \<and> active y)" for i k
    using reg_invD(2) [OF inv, of i k] x same by (cases "k = j") simp_all
  moreover have "j < rg_next r" using reg_invD(1) [OF inv, of j] x by (cases "rg_next r \<le> j") auto
  moreover have "job_ok (\<not> E (jb_id y)) (rg_cached r (jb_id y)) y"
    if "rg_heap (put_job j x' r) k = Some y" for k y
    using that reg_invD(3) [OF inv, of k y] ok same by (cases "k = j") auto
  ultimately show ?thesis using reg_invD(1) [OF inv] by (simp add: reg_inv_def)
qed

lemma job_ok_cached: "job_ok k c x \<Longrightarrow> job_ok k True x"
  by (auto simp: job_ok_def)

lemma reg_inv_cache:
  assumes "reg_inv E r"
  shows "reg_inv E (r\<lparr>rg_cached := (rg_cached r)(i := True)\<rparr>)"
  unfolding reg_inv_def
proof (intro conjI allI impI)
  fix j x assume x: "rg_heap (r\<lparr>rg_cached := (rg_cached r)(i := True)\<rparr>) j = Some x"
  then have "job_ok (\<not> E (jb_id x)) (rg_cached r (jb_id x)) x"
    using reg_invD(3) [OF assms] by simp
  then show "job_ok (\<not> E (jb_id x)) (rg_cached (r\<lparr>rg_cached := (rg_cached r)(i := True)\<rparr>) (jb_id x)) x"
    by (auto intro: job_ok_cached)
qed (use reg_invD(1,2) [OF assms] in simp_all)

lemma reg_inv_start:
  assumes inv: "reg_inv E r"
  shows "reg_inv E (fst (startJob i remux r))"
proof (cases "rg_jobs r i")
  case (Some j)
  with inv show ?thesis by (simp add: startJob_def)
next
  case None
  let ?n = "rg_next r" and ?t = "fst (startJob i remux r)"
  have heap: "rg_heap ?t = (rg_heap r)(?n \<mapsto> new_job i remux)"
    and jobs: "rg_jobs ?t = (rg_jobs r)(i \<mapsto> ?n)"
    and rest: "rg_next ?t = Suc ?n" "rg_cached ?t = rg_cached r"
    using None by (simp_all add: startJob_def)
  have free: "rg_heap r ?n = None" using reg_invD(1) [OF inv] by simp
  have new: "active (new_job i remux)" "jb_id (new_job i remux) = i"
    by (simp_all add: active_def new_job_def)
  have "rg_jobs ?t h = Some k \<longleftrightarrow> (\<exists>y. rg_heap ?t k = Some y \<and> jb_id y = h \<and> active y)" for h k
  proof (cases "k = ?n")
    case True
    have "rg_jobs r h \<noteq> Some ?n" using reg_invD(2) [OF inv, of h ?n] free by simp
    with True new show ?thesis by (simp add: heap jobs)
  next
    case False
    with None show ?thesis
      using reg_invD(2) [OF inv, of h k] reg_invD(2) [OF inv, of i k] by (cases "h = i") (auto simp: heap jobs)
  qed
  moreover have "job_ok k c (new_job i remux)" for k c by (simp add: job_ok_def new_job_def)
  ultimately show ?thesis using reg_invD(1,3) [OF inv] by (auto simp: reg_inv_def heap rest)
qed

lemma reg_inv_finish2:
  assumes inv: "reg_inv E r" and x: "rg_heap r j = Some x" and p: "jb_place x = Dropping"
  shows "reg_inv E (finishJob2 j x r)"
proof -
  let ?t = "finishJob2 j x r" and ?x = "x\<lparr>jb_place := Cleaning\<rparr>"
  have a: "active x" "\<not> active ?x" using p by (simp_all add: active_def)
  have mine: "rg_jobs r (jb_id x) = Some j" using reg_invD(2) [OF inv] x a(1) by blast
  have "rg_jobs ?t i = Some k \<longleftrightarrow> (\<exists>y. rg_heap ?t k = Some y \<and> jb_id y = i \<and> active y)" for i k
  proof (cases "k = j")
    case True
    then show ?thesis
      using a x mine reg_invD(2) [OF inv, of i j] by (auto simp: finishJob2_def)
  next
    case False
    with mine show ?thesis
      using reg_invD(2) [OF inv, of i k] by (cases "i = jb_id x") (auto simp: finishJob2_def)
  qed
  moreover have "j < rg_next r" using reg_invD(1) [OF inv, of j] x by (cases "rg_next r \<le> j") auto
  moreover have "job_ok (\<not> E (jb_id x)) (rg_cached r (jb_id x)) ?x"
    using reg_invD(3) [OF inv x] p by (auto simp: job_ok_def)
  ultimately show ?thesis
    using reg_invD(1,3) [OF inv] by (auto simp: reg_inv_def finishJob2_def)
qed

lemma readyTurn_ok:
  assumes "job_ok k c x" and "jb_place x = Started"
  shows "job_ok k c (readyTurn sz rg pe se x) \<and> jb_id (readyTurn sz rg pe se x) = jb_id x \<and>
         active (readyTurn sz rg pe se x)"
  using assms by (auto simp: readyTurn_def job_ok_def active_def Let_def split: option.splits if_splits)

lemma reg_step_inv: "reg_step E r t \<Longrightarrow> reg_inv E r \<Longrightarrow> reg_inv E t"
proof (induction rule: reg_step.induct)
  case (start r i remux)
  then show ?case by (rule reg_inv_start)
next
  case (ready r j x sz rangeable probe_err sparse_err)
  note ok = readyTurn_ok [OF reg_invD(3) [OF ready(3,1)] ready(2)]
  have "active x" using ready(2) by (simp add: active_def)
  with ok show ?case by (intro reg_inv_put [OF ready(3,1)]) simp_all
next
  case (create r j x)
  from reg_invD(3) [OF create(4,1)] create(2) show ?case
    by (intro reg_inv_put [OF create(4,1)]) (auto simp: createTurn_def job_ok_def active_def)
next
  case (ran r j x e)
  from reg_invD(3) [OF ran(4,1)] ran(2) show ?case
    by (intro reg_inv_put [OF ran(4,1)]) (auto simp: ranTurn_def job_ok_def active_def)
next
  case (finalize r j x e fin_err)
  note ok = reg_invD(3) [OF finalize(3,1)]
  show ?case
  proof (cases "e = None \<and> fin_err = None")
    case True
    let ?x = "x\<lparr>jb_tmp := False, jb_place := Finishing None\<rparr>"
    have inv: "reg_inv E (r\<lparr>rg_cached := (rg_cached r)(jb_id x := True)\<rparr>)"
      by (rule reg_inv_cache [OF finalize(3)])
    have "finalizeTurn fin_err j x r = put_job j ?x (r\<lparr>rg_cached := (rg_cached r)(jb_id x := True)\<rparr>)"
      using True finalize(2) by (simp add: finalizeTurn_def)
    moreover have "reg_inv E (put_job j ?x (r\<lparr>rg_cached := (rg_cached r)(jb_id x := True)\<rparr>))"
      using ok finalize(1,2) by (intro reg_inv_put [OF inv]) (auto simp: job_ok_def active_def)
    ultimately show ?thesis by simp
  next
    case False
    then obtain e' where "finalizeTurn fin_err j x r = put_job j (x\<lparr>jb_place := Finishing (Some e')\<rparr>) r"
      using finalize(2) by (cases e; cases fin_err) (auto simp: finalizeTurn_def)
    moreover have "reg_inv E (put_job j (x\<lparr>jb_place := Finishing (Some e')\<rparr>) r)"
      using ok finalize(2) by (intro reg_inv_put [OF finalize(3,1)]) (auto simp: job_ok_def active_def)
    ultimately show ?thesis by simp
  qed
next
  case (finish1 r j x e)
  from reg_invD(3) [OF finish1(3,1)] finish1(2) show ?case
    by (intro reg_inv_put [OF finish1(3,1)]) (auto simp: finishJob1_def job_ok_def active_def)
next
  case (finish2 r j x)
  then show ?case by (blast intro: reg_inv_finish2)
next
  case (finish3 r j x)
  from reg_invD(3) [OF finish3(3,1)] finish3(2) show ?case
    by (intro reg_inv_put [OF finish3(3,1)]) (auto simp: finishJob3_def job_ok_def active_def)
next
  case (evict i r)
  have "job_ok (\<not> E (jb_id x)) (rg_cached (r\<lparr>rg_cached := (rg_cached r)(i := False)\<rparr>) (jb_id x)) x"
    if "rg_heap r j = Some x" for j x
    using reg_invD(3) [OF evict(2) that] evict(1) by (cases "jb_id x = i") (auto simp: job_ok_def)
  with evict(2) show ?case by (simp add: reg_inv_def)
qed

lemma reg_inv_init: "reg_inv E (init_registry cached)"
  by (simp add: reg_inv_def init_registry_def)

interpretation registry: safe_machine "\<lambda>r. \<exists>cached. r = init_registry cached" "reg_step E" "reg_inv E" for E
  by unfold_locales (use reg_inv_init reg_step_inv in blast)+

lemma reg_reach_steps: "reg_reach E r \<Longrightarrow> \<exists>cached. (reg_step E)\<^sup>*\<^sup>* (init_registry cached) r"
  by (induction rule: reg_reach.induct) (auto intro: rtranclp.rtrancl_into_rtrancl)

lemma reg_reach_inv: "reg_reach E r \<Longrightarrow> reg_inv E r"
  using reg_reach_steps registry.reachable_inv by blast

text \<open>What a step leaves of a job and of the cache.\<close>

definition keeps :: "job \<Rightarrow> job \<Rightarrow> bool" where
  "keeps x y \<longleftrightarrow>
     jb_id y = jb_id x \<and> (failed x \<longrightarrow> failed y) \<and>
     (jb_ready x \<longrightarrow> jb_ready y \<and> jb_probeErr y = jb_probeErr x \<and> jb_sparse y = jb_sparse x \<and>
        jb_rangeable y = jb_rangeable x)"

lemma keeps_refl [simp]: "keeps x x"
  by (simp add: keeps_def)

lemma step_keeps_job:
  assumes "reg_step E r t" and "reg_inv E r" and "rg_heap r k = Some x"
  shows "\<exists>y. rg_heap t k = Some y \<and> keeps x y"
  using assms
proof (induction rule: reg_step.induct)
  case (start r i remux)
  then have "k \<noteq> rg_next r" using reg_invD(1) [OF start(1), of k] by auto
  with start show ?case by (auto simp: startJob_def split: option.splits)
next
  case (ready r j z sz rangeable probe_err sparse_err)
  have ok: "job_ok (\<not> E (jb_id z)) (rg_cached r (jb_id z)) z" by (rule reg_invD(3) [OF ready(3,1)])
  have "\<not> jb_ready z" "\<not> failed z" using ok ready(2) by (auto simp: job_ok_def failed_def)
  moreover have "jb_id (readyTurn sz rangeable probe_err sparse_err z) = jb_id z"
    using readyTurn_ok [OF ok ready(2)] by simp
  ultimately show ?case using ready by (cases "k = j") (auto simp: keeps_def)
next
  case (finalize r j z e fin_err)
  then show ?case
    by (cases "k = j")
      (auto simp: finalizeTurn_def keeps_def failed_def split: option.splits)
next
  case (finish1 r j z e)
  have "job_ok (\<not> E (jb_id z)) (rg_cached r (jb_id z)) z" by (rule reg_invD(3) [OF finish1(3,1)])
  then have "\<not> jb_done z" using finish1(2) by (simp add: job_ok_def)
  with finish1 show ?case by (cases "k = j") (auto simp: finishJob1_def keeps_def failed_def)
next
  case (finish2 r j z)
  then show ?case by (cases "k = j") (auto simp: finishJob2_def keeps_def failed_def)
next
  case (finish3 r j z)
  then show ?case by (cases "k = j") (auto simp: finishJob3_def keeps_def failed_def)
next
  case (create r j z)
  then show ?case by (cases "k = j") (auto simp: createTurn_def keeps_def failed_def)
next
  case (ran r j z e)
  then show ?case by (cases "k = j") (auto simp: ranTurn_def keeps_def failed_def)
qed auto

lemma step_keeps_cached:
  assumes "reg_step E r t" and "\<not> E i" and "rg_cached r i"
  shows "rg_cached t i"
  using assms
proof (induction rule: reg_step.induct)
  case (start r j remux)
  then show ?case by (simp add: startJob_def split: option.split)
next
  case (finalize r j z e fin_err)
  then show ?case by (cases e; cases fin_err) (simp_all add: finalizeTurn_def)
next
  case (finish2 r j z)
  then show ?case by (simp add: finishJob2_def)
next
  case (evict j r)
  then show ?case by auto
qed simp_all

section \<open>The invariant of a request\<close>

definition some_job :: "string \<Rightarrow> registry \<Rightarrow> (job \<Rightarrow> bool) \<Rightarrow> bool" where
  "some_job i r P \<longleftrightarrow> (\<exists>j x. rg_heap r j = Some x \<and> jb_id x = i \<and> P x)"

definition the_job :: "string \<Rightarrow> registry \<Rightarrow> nat \<Rightarrow> (job \<Rightarrow> bool) \<Rightarrow> bool" where
  "the_job i r j P \<longleftrightarrow> (\<exists>x. rg_heap r j = Some x \<and> jb_id x = i \<and> P x)"

fun live_ok :: "string \<Rightarrow> registry \<Rightarrow> live_place \<Rightarrow> bool" where
  "live_ok i r CheckCache = True"
| "live_ok i r LookUp = True"
| "live_ok i r CheckAgain = (rg_cached r i \<or> some_job i r failed)"
| "live_ok i r (AwaitReady j) = the_job i r j (\<lambda>x. True)"
| "live_ok i r (CheckFailed j) = the_job i r j (\<lambda>x. jb_ready x \<and> jb_probeErr x \<noteq> None)"
| "live_ok i r (CheckAfter j) = the_job i r j (\<lambda>x. jb_ready x \<and> jb_probeErr x = None)"
| "live_ok i r (Route j) = the_job i r j (\<lambda>x. jb_ready x \<and> jb_probeErr x = None)"
| "live_ok i r Opening_cached = rg_cached r i"
| "live_ok i r (Answered Answer404) = some_job i r failed"
| "live_ok i r (Answered Answer502) = some_job i r (\<lambda>x. jb_ready x \<and> jb_probeErr x \<noteq> None)"
| "live_ok i r (Answered (BySparse j)) =
     the_job i r j (\<lambda>x. jb_ready x \<and> jb_probeErr x = None \<and> jb_rangeable x \<and> jb_sparse x)"
| "live_ok i r (Answered (ByTail j)) =
     the_job i r j (\<lambda>x. jb_ready x \<and> jb_probeErr x = None \<and> \<not> (jb_rangeable x \<and> jb_sparse x))"
| "live_ok i r (Answered FromCache) = True"
| "live_ok i r (Answered Answer503) = True"
| "live_ok i r (Answered ClientGone) = True"

lemma job_keeps:
  assumes "reg_step E r t" and "reg_inv E r" and "\<And>x y. keeps x y \<Longrightarrow> P x \<Longrightarrow> P y"
  shows "the_job i r j P \<Longrightarrow> the_job i t j P" and "some_job i r P \<Longrightarrow> some_job i t P"
proof -
  have one: "\<exists>y. rg_heap t k = Some y \<and> jb_id y = i \<and> P y"
    if "rg_heap r k = Some x" "jb_id x = i" "P x" for k x
    using step_keeps_job [OF assms(1,2) that(1)] that(2,3) assms(3) unfolding keeps_def by metis
  then show "the_job i r j P \<Longrightarrow> the_job i t j P" unfolding the_job_def by blast
  show "some_job i r P \<Longrightarrow> some_job i t P" unfolding some_job_def using one by blast
qed

lemma live_ok_step:
  assumes step: "reg_step E r t" and inv: "reg_inv E r" and i: "\<not> E i" and ok: "live_ok i r p"
  shows "live_ok i t p"
proof -
  note cached = step_keeps_cached [OF step i]
  note keep = job_keeps [OF step inv]
  have f: "some_job i r failed \<Longrightarrow> some_job i t failed"
    by (rule keep(2)) (simp_all add: keeps_def)
  show ?thesis
  proof (cases p)
    case (Answered a)
    have "some_job i r (\<lambda>x. jb_ready x \<and> jb_probeErr x \<noteq> None) \<Longrightarrow>
        some_job i t (\<lambda>x. jb_ready x \<and> jb_probeErr x \<noteq> None)"
      by (rule keep(2)) (simp_all add: keeps_def)
    moreover have "the_job i r j (\<lambda>x. jb_ready x \<and> jb_probeErr x = None \<and> jb_rangeable x \<and> jb_sparse x) \<Longrightarrow>
        the_job i t j (\<lambda>x. jb_ready x \<and> jb_probeErr x = None \<and> jb_rangeable x \<and> jb_sparse x)" for j
      by (rule keep(1)) (simp_all add: keeps_def)
    moreover have "the_job i r j (\<lambda>x. jb_ready x \<and> jb_probeErr x = None \<and> \<not> (jb_rangeable x \<and> jb_sparse x)) \<Longrightarrow>
        the_job i t j (\<lambda>x. jb_ready x \<and> jb_probeErr x = None \<and> \<not> (jb_rangeable x \<and> jb_sparse x))" for j
      by (rule keep(1)) (simp_all add: keeps_def)
    ultimately show ?thesis using ok f by (cases a) (simp_all add: Answered)
  next
    case (AwaitReady j)
    have "the_job i r j (\<lambda>x. True) \<Longrightarrow> the_job i t j (\<lambda>x. True)" by (rule keep(1)) simp_all
    with ok show ?thesis by (simp add: AwaitReady)
  next
    case (CheckFailed j)
    have "the_job i r j (\<lambda>x. jb_ready x \<and> jb_probeErr x \<noteq> None) \<Longrightarrow>
        the_job i t j (\<lambda>x. jb_ready x \<and> jb_probeErr x \<noteq> None)"
      by (rule keep(1)) (simp_all add: keeps_def)
    with ok show ?thesis by (simp add: CheckFailed)
  next
    case (CheckAfter j)
    have "the_job i r j (\<lambda>x. jb_ready x \<and> jb_probeErr x = None) \<Longrightarrow>
        the_job i t j (\<lambda>x. jb_ready x \<and> jb_probeErr x = None)"
      by (rule keep(1)) (simp_all add: keeps_def)
    with ok show ?thesis by (simp add: CheckAfter)
  next
    case (Route j)
    have "the_job i r j (\<lambda>x. jb_ready x \<and> jb_probeErr x = None) \<Longrightarrow>
        the_job i t j (\<lambda>x. jb_ready x \<and> jb_probeErr x = None)"
      by (rule keep(1)) (simp_all add: keeps_def)
    with ok show ?thesis by (simp add: Route)
  qed (use ok f cached in auto)
qed

definition known :: "string \<Rightarrow> registry \<Rightarrow> bool" where
  "known i r \<longleftrightarrow> rg_cached r i \<or> some_job i r (\<lambda>x. True)"

lemma live_ok_turn:
  assumes inv: "reg_inv E r" and i: "\<not> E i" and kn: "known i r"
    and ok: "live_ok i r p" and t: "liveTurn gone r i p = Some q"
  shows "live_ok i r q"
proof (cases p)
  case CheckCache
  with t show ?thesis by (auto simp: liveTurn_def ifCached_def)
next
  case LookUp
  show ?thesis
  proof (cases "rg_jobs r i")
    case None
    have "rg_cached r i \<or> some_job i r failed"
    proof (cases "rg_cached r i")
      case False
      then obtain j x where x: "rg_heap r j = Some x" "jb_id x = i"
        using kn by (auto simp: known_def some_job_def)
      then have "\<not> active x" using None reg_invD(2) [OF inv, of i j] by auto
      then have "failed x"
        using reg_invD(3) [OF inv x(1)] x(2) i False by (auto simp: job_ok_def active_def failed_def)
      with x show ?thesis by (auto simp: some_job_def)
    qed simp
    with t LookUp None show ?thesis by (simp add: liveTurn_def getJob_def)
  next
    case (Some j)
    with t LookUp reg_invD(2) [OF inv, of i j] show ?thesis
      by (auto simp: liveTurn_def getJob_def the_job_def)
  qed
next
  case CheckAgain
  with t ok show ?thesis by (auto simp: liveTurn_def ifCached_def split: if_splits)
next
  case (AwaitReady j)
  with t ok show ?thesis by (auto simp: liveTurn_def the_job_def split: if_splits)
next
  case (CheckFailed j)
  have "the_job i r j P \<Longrightarrow> some_job i r P" for P unfolding the_job_def some_job_def by blast
  with CheckFailed t ok show ?thesis by (auto simp: liveTurn_def ifCached_def split: if_splits)
next
  case (CheckAfter j)
  with t ok show ?thesis by (auto simp: liveTurn_def ifCached_def split: if_splits)
next
  case (Route j)
  with t ok show ?thesis by (auto simp: liveTurn_def the_job_def split: if_splits)
next
  case Opening_cached
  with t ok show ?thesis by (auto simp: liveTurn_def)
next
  case (Answered a)
  with t show ?thesis by (simp add: liveTurn_def)
qed

lemma known_step: "reg_step E r t \<Longrightarrow> reg_inv E r \<Longrightarrow> \<not> E i \<Longrightarrow> known i r \<Longrightarrow> known i t"
  using step_keeps_cached [of E r t i] job_keeps(2) [of E r t "\<lambda>x. True" i] by (auto simp: known_def)

lemma live_reach_inv:
  assumes "live_reach E i r0 (r, p)" and "reg_inv E r0" and "\<not> E i" and "known i r0"
  shows "reg_inv E r \<and> known i r \<and> live_ok i r p"
  using assms
proof (induction "(r, p)" arbitrary: r p rule: live_reach.induct)
  case arrive
  then show ?case by simp
next
  case (jobs r p t)
  then show ?case using reg_step_inv known_step live_ok_step by blast
next
  case (handler r p gone q)
  then show ?case using live_ok_turn by blast
qed

section \<open>Properties\<close>

text \<open>
  C24. One download per video: in every reachable state two jobs of the same id that have not
  left the registry are the same job, and \<open>startJob\<close> returns an active job of the id it is
  asked for, the one there is when there is one, and starts at most one.
\<close>

theorem one_job_per_id:
  assumes "reg_reach E r" and "startJob i remux r = (t, j)"
  shows "(\<forall>a b x y. rg_heap r a = Some x \<and> rg_heap r b = Some y \<and> active x \<and> active y \<and>
            jb_id x = jb_id y \<longrightarrow> a = b) \<and>
         (\<exists>x. rg_heap t j = Some x \<and> jb_id x = i \<and> active x) \<and>
         (\<forall>a x. rg_heap r a = Some x \<and> jb_id x = i \<and> active x \<longrightarrow> j = a \<and> t = r)"
proof -
  have inv: "reg_inv E r" using assms(1) by (rule reg_reach_inv)
  have inv': "reg_inv E t" using reg_inv_start [OF inv, of i remux] assms(2) by simp
  have reg: "rg_jobs t i = Some j" using assms(2) by (auto simp: startJob_def split: option.splits)
  have "j = a \<and> t = r" if "rg_heap r a = Some x" "jb_id x = i" "active x" for a x
  proof -
    have "rg_jobs r i = Some a" using reg_invD(2) [OF inv] that by blast
    with assms(2) show ?thesis by (simp add: startJob_def)
  qed
  moreover have "a = b" if "rg_heap r a = Some x" "rg_heap r b = Some y" "active x" "active y"
      "jb_id x = jb_id y" for a b x y
  proof -
    have "rg_jobs r (jb_id x) = Some a" "rg_jobs r (jb_id x) = Some b"
      using reg_invD(2) [OF inv] that by metis+
    then show ?thesis by simp
  qed
  moreover have "\<exists>x. rg_heap t j = Some x \<and> jb_id x = i \<and> active x"
    using reg reg_invD(2) [OF inv'] by blast
  ultimately show ?thesis by blast
qed

definition one_started :: registry where
  "one_started = fst (startJob ''v'' True (init_registry (\<lambda>_. False)))"

lemma one_started_reach: "reg_reach E one_started"
  unfolding one_started_def by (rule reg_next [OF reg_init start])

theorem one_job_per_id_witness:
  "snd (startJob ''v'' False one_started) = 0 \<and> fst (startJob ''v'' False one_started) = one_started"
proof -
  have "rg_heap one_started 0 = Some (new_job ''v'' True) \<and> jb_id (new_job ''v'' True) = ''v'' \<and>
      active (new_job ''v'' True)"
    by (simp add: one_started_def startJob_def init_registry_def new_job_def active_def)
  with one_job_per_id [OF one_started_reach surjective_pairing, of "''v''" False] show ?thesis by blast
qed



text \<open>
  The handler can turn a healthy download away: \<open>ready\<close> is closed before the temporary
  file exists, so a request for \<open>/live\<close> right after the start of a remux is answered with
  503; and when the download finishes between the last look into the cache and the open of
  the temporary file, the answer is 503 as well, with the finished video in the cache.
\<close>

theorem live_503_for_healthy_video:
  "(\<exists>r x. live_reach (\<lambda>_. False) ''v'' one_started (r, Answered Answer503) \<and>
      rg_heap r 0 = Some x \<and> jb_place x = Running \<and> jb_err x = None) \<and>
   (\<exists>r. live_reach (\<lambda>_. False) ''v'' one_started (r, Answered Answer503) \<and> rg_cached r ''v'')"
proof -
  let ?E = "\<lambda>_::string. False"
  let ?x0 = "new_job ''v'' True"
  let ?x1 = "readyTurn 0 False None None ?x0"
  let ?r1 = "put_job 0 ?x1 one_started"
  let ?x2 = "createTurn ?x1"
  let ?x3 = "ranTurn None ?x2"
  let ?r3 = "put_job 0 ?x3 (put_job 0 ?x2 ?r1)"
  let ?r4 = "finalizeTurn None 0 ?x3 ?r3"
  note defs = one_started_def startJob_def init_registry_def new_job_def readyTurn_def createTurn_def
    ranTurn_def finalizeTurn_def liveTurn_def ifCached_def getJob_def
  have "live_reach ?E ''v'' one_started (one_started, LookUp)"
    by (rule handler [OF arrive]) (simp add: defs)
  then have "live_reach ?E ''v'' one_started (one_started, AwaitReady 0)"
    by (rule handler) (simp add: defs)
  then have "live_reach ?E ''v'' one_started (?r1, AwaitReady 0)"
    by (rule jobs, intro ready) (simp_all add: defs)
  then have "live_reach ?E ''v'' one_started (?r1, CheckAfter 0)"
    by (rule handler) (simp add: defs)
  then have route: "live_reach ?E ''v'' one_started (?r1, Route 0)"
    by (rule handler) (simp add: defs)
  then have first: "live_reach ?E ''v'' one_started (?r1, Answered Answer503)"
    by (rule handler) (simp add: defs)
  from route have "live_reach ?E ''v'' one_started (put_job 0 ?x2 ?r1, Route 0)"
    by (rule jobs, intro create) (simp_all add: defs)
  then have "live_reach ?E ''v'' one_started (?r3, Route 0)"
    by (rule jobs, intro ran) (simp_all add: defs)
  then have "live_reach ?E ''v'' one_started (?r4, Route 0)"
    by (rule jobs, intro finalize [where e = None]) (simp_all add: defs)
  then have "live_reach ?E ''v'' one_started (?r4, Answered Answer503)"
    by (rule handler) (simp add: defs)
  moreover have "rg_cached ?r4 ''v''" by (simp add: defs)
  moreover have "rg_heap ?r1 0 = Some ?x1 \<and> jb_place ?x1 = Running \<and> jb_err ?x1 = None"
    by (simp add: defs)
  ultimately show ?thesis using first by blast
qed

end
