(* ===== verification/Ffmpeg.thy ===== *)
theory Ffmpeg
  imports Go_Strings "HOL-Library.Char_ord" "HOL-Library.List_Lexorder" "HOL-Library.Multiset"
begin

text \<open>
  ffmpeg.go: the descriptors of the H.264 backends, the command lines of the remux and the
  transcode, the request headers handed to ffmpeg, and the bounded tail of its standard
  error. Running the process is the operating system's part; the text \<open>ffmpeg -encoders\<close>
  prints is an argument. A map from strings to strings is an association list with distinct
  keys whose order is the order in which Go happens to range over it.
\<close>

section \<open>Backends\<close>

type_synonym hwBackend = string

definition hwSoftware :: hwBackend where "hwSoftware = ''software''"
definition hwNVENC :: hwBackend where "hwNVENC = ''nvenc''"
definition hwVAAPI :: hwBackend where "hwVAAPI = ''vaapi''"
definition hwQSV :: hwBackend where "hwQSV = ''qsv''"
definition hwVideoToolbox :: hwBackend where "hwVideoToolbox = ''videotoolbox''"
definition hwAMF :: hwBackend where "hwAMF = ''amf''"

lemmas hw_names = hwSoftware_def hwNVENC_def hwVAAPI_def hwQSV_def hwVideoToolbox_def hwAMF_def

record h264Backend =
  encoder :: string
  is_software :: bool
  pixFmt :: string
  is_vaapi :: bool

definition h264Backends :: "hwBackend \<Rightarrow> h264Backend option" where
  "h264Backends =
     map_of
       [(hwSoftware, \<lparr>encoder = ''libx264'', is_software = True, pixFmt = ''yuv420p'', is_vaapi = False\<rparr>),
        (hwNVENC, \<lparr>encoder = ''h264_nvenc'', is_software = False, pixFmt = ''yuv420p'', is_vaapi = False\<rparr>),
        (hwVAAPI, \<lparr>encoder = ''h264_vaapi'', is_software = False, pixFmt = '''', is_vaapi = True\<rparr>),
        (hwQSV, \<lparr>encoder = ''h264_qsv'', is_software = False, pixFmt = ''nv12'', is_vaapi = False\<rparr>),
        (hwVideoToolbox,
         \<lparr>encoder = ''h264_videotoolbox'', is_software = False, pixFmt = ''yuv420p'', is_vaapi = False\<rparr>),
        (hwAMF, \<lparr>encoder = ''h264_amf'', is_software = False, pixFmt = ''yuv420p'', is_vaapi = False\<rparr>)]"

record transcodeOptions =
  o_backend :: hwBackend
  o_hwDevice :: string
  o_preset :: string
  o_crf :: string
  o_videoBitrate :: string
  o_maxrate :: string
  o_bufsize :: string
  o_audioBitrate :: string

record ffmpegRunner =
  f_path :: string
  f_opts :: transcodeOptions

definition newFfmpegRunner :: "string \<Rightarrow> transcodeOptions \<Rightarrow> ffmpegRunner" where
  "newFfmpegRunner path opts =
     \<lparr>f_path = (if path = '''' then ''ffmpeg'' else path),
      f_opts = (if o_backend opts = '''' then opts\<lparr>o_backend := hwSoftware\<rparr> else opts)\<rparr>"

definition backend :: "ffmpegRunner \<Rightarrow> h264Backend" where
  "backend f =
     (case h264Backends (o_backend (f_opts f)) of
        Some b \<Rightarrow> b
      | None \<Rightarrow> the (h264Backends hwSoftware))"

text \<open>The start-up check; the second argument is the outcome of the probe.\<close>

definition validateBackend :: "ffmpegRunner \<Rightarrow> go_error + string \<Rightarrow> go_error option" where
  "validateBackend f probe =
     (let b = backend f
      in if is_software b then None
         else case probe of
                Inl e \<Rightarrow> Some (Msg ''ffmpeg -encoders probe failed'')
              | Inr out \<Rightarrow>
                  if \<not> Contains out (encoder b) then Some (Msg ''ffmpeg hwaccel requires encoder'')
                  else None)"

section \<open>Request headers\<close>

definition headerValue :: "(string \<times> string) list \<Rightarrow> string \<Rightarrow> string" where
  "headerValue headers name =
     (case List.find (\<lambda>(k, v). EqualFold k name) headers of Some (k, v) \<Rightarrow> v | None \<Rightarrow> '''')"

definition crlf :: string where
  "crlf = [CHR 0x0D, CHR 0x0A]"

definition header_line :: "string \<Rightarrow> string \<Rightarrow> string" where
  "header_line k v = k @ '': '' @ v @ crlf"

definition forwarded_keys :: "(string \<times> string) list \<Rightarrow> string list" where
  "forwarded_keys headers = filter (\<lambda>k. \<not> EqualFold k ''User-Agent'') (map fst headers)"

definition formatFFmpegHeaders :: "(string \<times> string) list \<Rightarrow> string" where
  "formatFFmpegHeaders headers =
     (let keys = forwarded_keys headers
      in if length keys = 0 then ''''
         else concat (map (\<lambda>k. header_line k (case map_of headers k of Some v \<Rightarrow> v | None \<Rightarrow> ''''))
                (sort keys)))"

section \<open>Command lines\<close>

definition inputArgs :: "string \<Rightarrow> (string \<times> string) list \<Rightarrow> string list" where
  "inputArgs srcURL headers =
     (let ua = headerValue headers ''User-Agent'';
          h = formatFFmpegHeaders headers
      in (if ua \<noteq> '''' then [''-user_agent'', ua] else []) @
         (if h \<noteq> '''' then [''-headers'', h] else []) @ [''-i'', srcURL])"

definition videoEncodeArgs :: "ffmpegRunner \<Rightarrow> h264Backend \<Rightarrow> string list" where
  "videoEncodeArgs f b =
     (let opts = f_opts f
      in [''-c:v'', encoder b] @
         (if is_software b then
            (if o_preset opts \<noteq> '''' then [''-preset'', o_preset opts] else []) @
            (if o_videoBitrate opts \<noteq> '''' then [''-b:v'', o_videoBitrate opts]
             else if o_crf opts \<noteq> '''' then [''-crf'', o_crf opts]
             else [])
          else
            (let vb = (if o_videoBitrate opts = '''' then ''8M'' else o_videoBitrate opts)
             in [''-b:v'', vb])) @
         (if o_maxrate opts \<noteq> '''' then [''-maxrate'', o_maxrate opts] else []) @
         (if o_bufsize opts \<noteq> '''' then [''-bufsize'', o_bufsize opts] else []) @
         (if is_vaapi b then [''-vf'', ''format=nv12,hwupload'']
          else if pixFmt b \<noteq> '''' then [''-pix_fmt'', pixFmt b]
          else []))"

definition transcodeArgs :: "ffmpegRunner \<Rightarrow> string \<Rightarrow> (string \<times> string) list \<Rightarrow> string list" where
  "transcodeArgs f srcURL headers =
     (let b = backend f
      in [''-hide_banner'', ''-loglevel'', ''error'', ''-nostdin''] @
         (if is_vaapi b then [''-vaapi_device'', o_hwDevice (f_opts f)] else []) @
         inputArgs srcURL headers @
         videoEncodeArgs f b @
         [''-c:a'', ''aac''] @
         (if o_audioBitrate (f_opts f) \<noteq> '''' then [''-b:a'', o_audioBitrate (f_opts f)] else []) @
         [''-movflags'', ''frag_keyframe+empty_moov'', ''-f'', ''mp4'', ''pipe:1''])"

definition openRemux :: "string \<Rightarrow> (string \<times> string) list \<Rightarrow> string list" where
  "openRemux srcURL headers =
     [''-hide_banner'', ''-loglevel'', ''error'', ''-nostdin''] @
     inputArgs srcURL headers @
     [''-c'', ''copy'', ''-movflags'', ''frag_keyframe+empty_moov'', ''-f'', ''mp4'', ''pipe:1'']"

section \<open>The tail of the standard error\<close>

record tailBuffer =
  tb_max :: nat
  tb_buf :: string

text \<open>\<open>Write\<close>: the new buffer and the number of bytes it reports to have taken.\<close>

definition tb_write :: "tailBuffer \<Rightarrow> string \<Rightarrow> tailBuffer \<times> nat" where
  "tb_write t p =
     (let buf = tb_buf t @ p;
          buf = (if length buf > tb_max t then drop (length buf - tb_max t) buf else buf)
      in (t\<lparr>tb_buf := buf\<rparr>, length p))"

definition tb_string :: "tailBuffer \<Rightarrow> string" where
  "tb_string t = TrimSpace (tb_buf t)"


text \<open>What is left of the standard error of a process, from the pieces it was written in.\<close>

definition stderr_tail :: "string list \<Rightarrow> tailBuffer" where
  "stderr_tail ps = fold (\<lambda>p t. fst (tb_write t p)) ps \<lparr>tb_max = 8192, tb_buf = ''''\<rparr>"

section \<open>Properties of the tail buffer\<close>

lemma tb_write_drop:
  "tb_buf t = drop (length s - tb_max t) s \<Longrightarrow>
   fst (tb_write t p) = t\<lparr>tb_buf := drop (length (s @ p) - tb_max t) (s @ p)\<rparr>"
  by (cases "length s \<le> tb_max t"; cases "p = ''''") (auto simp: tb_write_def Let_def add.commute)

lemma tb_writes_drop:
  "tb_buf t = drop (length s - tb_max t) s \<Longrightarrow>
   fold (\<lambda>p t. fst (tb_write t p)) ps t =
     t\<lparr>tb_buf := drop (length (s @ concat ps) - tb_max t) (s @ concat ps)\<rparr>"
proof (induction ps arbitrary: t s)
  case (Cons p ps)
  show ?case
    using Cons.IH [of "fst (tb_write t p)" "s @ p"] tb_write_drop [OF Cons.prems, of p] by simp
qed simp

lemma stderr_tail_buf: "tb_buf (stderr_tail ps) = drop (length (concat ps) - 8192) (concat ps)"
  using tb_writes_drop [of "\<lparr>tb_max = 8192, tb_buf = ''''\<rparr>" "''''" ps] by (simp add: stderr_tail_def)

text \<open>
  tailBuffer, as the standard error of ffmpeg: however the output is cut into writes,
  the buffer holds the last bytes of the whole output, as many as it may keep, and each write
  reports all its bytes as taken, so that ffmpeg is never stopped by a full buffer.
\<close>

theorem tail_buffer_keeps_tail:
  "tb_buf (fold (\<lambda>p t. fst (tb_write t p)) ps \<lparr>tb_max = m, tb_buf = ''''\<rparr>) =
     drop (length (concat ps) - m) (concat ps) \<and>
   snd (tb_write t p) = length p"
  using tb_writes_drop [of "\<lparr>tb_max = m, tb_buf = ''''\<rparr>" "''''" ps]
  by (simp add: tb_write_def Let_def)

section \<open>Properties of the request headers\<close>

text \<open>A reader of the text ffmpeg is given: lines up to a CR LF, name and value at a colon.\<close>

function read_headers :: "string \<Rightarrow> (string \<times> string) list" where
  "read_headers s =
     (case Cut s (CHR 0x0D) of
        None \<Rightarrow> []
      | Some (line, rest) \<Rightarrow>
          (case Cut line (CHR '':'') of
             None \<Rightarrow> read_headers (drop 1 rest)
           | Some (k, v) \<Rightarrow> (k, drop 1 v) # read_headers (drop 1 rest)))"
  by pat_completeness auto
termination
  by (relation "measure length") (auto dest: Cut_Some)

declare read_headers.simps [simp del]

text \<open>A header is clean when its name has no colon and neither part a carriage return.\<close>

definition clean_header :: "string \<times> string \<Rightarrow> bool" where
  "clean_header kv \<longleftrightarrow>
     CHR '':'' \<notin> set (fst kv) \<and> CHR 0x0D \<notin> set (fst kv) \<and> CHR 0x0D \<notin> set (snd kv)"

lemma read_headers_Nil [simp]: "read_headers '''' = []"
  by (simp add: read_headers.simps [of "''''"])

lemma read_header_line:
  assumes "clean_header (k, v)"
  shows "read_headers (header_line k v @ s) = (k, v) # read_headers s"
proof -
  have line: "Cut (k @ CHR '':'' # CHR '' '' # v @ CHR 0x0D # CHR 0x0A # s) (CHR 0x0D) =
      Some (k @ CHR '':'' # CHR '' '' # v, CHR 0x0A # s)"
    using assms Cut_append [of "CHR 0x0D" "k @ CHR '':'' # CHR '' '' # v" "CHR 0x0A # s"]
    by (simp add: clean_header_def)
  have "Cut (k @ CHR '':'' # CHR '' '' # v) (CHR '':'') = Some (k, CHR '' '' # v)"
    using assms by (intro Cut_append) (simp add: clean_header_def)
  with line show ?thesis
    by (simp add: header_line_def crlf_def
        read_headers.simps [of "k @ CHR '':'' # CHR '' '' # v @ CHR 0x0D # CHR 0x0A # s"])
qed

lemma read_header_lines:
  "\<forall>k\<in>set ks. clean_header (k, g k) \<Longrightarrow>
   read_headers (concat (map (\<lambda>k. header_line k (g k)) ks)) = map (\<lambda>k. (k, g k)) ks"
  by (induction ks) (simp_all add: read_header_line)

definition value_of :: "(string \<times> string) list \<Rightarrow> string \<Rightarrow> string" where
  "value_of headers k = (case map_of headers k of Some v \<Rightarrow> v | None \<Rightarrow> '''')"

lemma formatFFmpegHeaders_sorted:
  "formatFFmpegHeaders headers =
     concat (map (\<lambda>k. header_line k (value_of headers k)) (sort (forwarded_keys headers)))"
  by (simp add: formatFFmpegHeaders_def value_of_def Let_def)

lemma read_format_headers:
  assumes "distinct (map fst headers)" and "\<forall>kv\<in>set headers. clean_header kv"
  shows "read_headers (formatFFmpegHeaders headers) =
           map (\<lambda>k. (k, value_of headers k)) (sort (forwarded_keys headers))"
proof -
  have "clean_header (k, value_of headers k)" if "k \<in> set (forwarded_keys headers)" for k
  proof -
    from that obtain v where "(k, v) \<in> set headers" by (auto simp: forwarded_keys_def)
    with assms show ?thesis by (auto simp: value_of_def)
  qed
  then show ?thesis unfolding formatFFmpegHeaders_sorted by (intro read_header_lines) simp
qed

lemma formatFFmpegHeaders_perm:
  assumes "distinct (map fst headers)" and "mset headers' = mset headers"
  shows "formatFFmpegHeaders headers' = formatFFmpegHeaders headers"
proof -
  have keys: "mset (map fst headers') = mset (map fst headers)"
    by (simp add: assms(2))
  have "sort (forwarded_keys headers') = sort (forwarded_keys headers)"
    using keys by (intro properties_for_sort)
      (simp_all add: forwarded_keys_def mset_filter del: mset_map)
  moreover have "map_of headers' = map_of headers"
    using assms keys mset_eq_imp_distinct_iff [OF keys] mset_eq_setD [OF assms(2)]
    by (intro map_of_eqI) (auto dest: mset_eq_setD)
  ultimately show ?thesis by (simp add: formatFFmpegHeaders_sorted value_of_def)
qed

text \<open>
  C36. formatFFmpegHeaders: for headers without line breaks and colons in the wrong places,
  reading the text back gives every header but the user agent with its value and nothing
  else, in ascending order of the names, and the text does not depend on the order in which
  Go ranges over the map.
\<close>

theorem ffmpeg_headers_roundtrip:
  assumes "distinct (map fst headers)" and "\<forall>kv\<in>set headers. clean_header kv"
    and "mset headers' = mset headers"
  shows "map_of (read_headers (formatFFmpegHeaders headers)) k =
           (if EqualFold k ''User-Agent'' then None else map_of headers k) \<and>
         sorted_wrt (<) (map fst (read_headers (formatFFmpegHeaders headers))) \<and>
         formatFFmpegHeaders headers' = formatFFmpegHeaders headers"
proof (intro conjI)
  have at: "map_of (map (\<lambda>k. (k, value_of headers k)) ks) k =
      (if k \<in> set ks then Some (value_of headers k) else None)" for ks
    by (induction ks) auto
  have keys: "k \<in> fst ` set headers \<longleftrightarrow> map_of headers k \<noteq> None"
    by (simp add: map_of_eq_None_iff)
  show "map_of (read_headers (formatFFmpegHeaders headers)) k =
      (if EqualFold k ''User-Agent'' then None else map_of headers k)"
    unfolding read_format_headers [OF assms(1,2)] at
    by (simp add: forwarded_keys_def keys value_of_def split: option.split)
  have "distinct (forwarded_keys headers)" using assms(1) by (simp add: forwarded_keys_def)
  then show "sorted_wrt (<) (map fst (read_headers (formatFFmpegHeaders headers)))"
    unfolding read_format_headers [OF assms(1,2)]
    by (simp add: comp_def strict_sorted_iff)
  show "formatFFmpegHeaders headers' = formatFFmpegHeaders headers"
    by (rule formatFFmpegHeaders_perm [OF assms(1,3)])
qed

theorem ffmpeg_headers_roundtrip_witness:
  "map_of (read_headers (formatFFmpegHeaders
      [(''Referer'', ''https://a/''), (''user-agent'', ''x''), (''Accept'', ''*/*'')])) ''Referer'' =
     Some ''https://a/''"
  using conjunct1 [OF ffmpeg_headers_roundtrip
      [of "[(''Referer'', ''https://a/''), (''user-agent'', ''x''), (''Accept'', ''*/*'')]"
          "[(''Referer'', ''https://a/''), (''user-agent'', ''x''), (''Accept'', ''*/*'')]" "''Referer''"]]
  by (simp add: clean_header_def EqualFold_def lower_char_def)


section \<open>Properties of the command lines\<close>

text \<open>
  How ffmpeg reads its arguments: a flag stands alone, every other argument with a leading
  dash takes the next one as its value, whatever that is, and the rest are outputs.
\<close>

fun read_command :: "string list \<Rightarrow> (string \<times> string) list \<times> string list" where
  "read_command [] = ([], [])"
| "read_command (a # args) =
     (if a = ''-hide_banner'' \<or> a = ''-nostdin'' then apfst (Cons (a, '''')) (read_command args)
      else if HasPrefix a ''-'' then
        (case args of
           [] \<Rightarrow> ([(a, '''')], [])
         | v # rest \<Rightarrow> apfst (Cons (a, v)) (read_command rest))
      else apsnd (Cons a) (read_command args))"

definition takes_value :: "string \<Rightarrow> bool" where
  "takes_value a \<longleftrightarrow> HasPrefix a ''-'' \<and> a \<noteq> ''-hide_banner'' \<and> a \<noteq> ''-nostdin''"

lemma read_command_pair:
  "takes_value a \<Longrightarrow> read_command (a # v # args) = apfst (Cons (a, v)) (read_command args)"
  by (simp add: takes_value_def)

lemma read_command_optional:
  "takes_value a \<Longrightarrow>
   read_command ((if P then [a, v] else []) @ args) =
     apfst ((@) (if P then [(a, v)] else [])) (read_command args)"
  by (cases P; cases "read_command args") (simp_all add: read_command_pair del: read_command.simps)

definition input_options :: "string \<Rightarrow> (string \<times> string) list \<Rightarrow> (string \<times> string) list" where
  "input_options srcURL headers =
     (if headerValue headers ''User-Agent'' \<noteq> ''''
      then [(''-user_agent'', headerValue headers ''User-Agent'')] else []) @
     (if formatFFmpegHeaders headers \<noteq> '''' then [(''-headers'', formatFFmpegHeaders headers)] else []) @
     [(''-i'', srcURL)]"

lemma read_inputArgs:
  "read_command (inputArgs srcURL headers @ args) =
     apfst ((@) (input_options srcURL headers)) (read_command args)"
  by (cases "read_command args")
    (simp add: inputArgs_def input_options_def Let_def takes_value_def HasPrefix_def)

definition rate_options :: "ffmpegRunner \<Rightarrow> (string \<times> string) list" where
  "rate_options f =
     (if is_software (backend f) \<and> o_preset (f_opts f) \<noteq> '''' then [(''-preset'', o_preset (f_opts f))] else []) @
     (if o_videoBitrate (f_opts f) \<noteq> '''' then [(''-b:v'', o_videoBitrate (f_opts f))]
      else if \<not> is_software (backend f) then [(''-b:v'', ''8M'')]
      else if o_crf (f_opts f) \<noteq> '''' then [(''-crf'', o_crf (f_opts f))] else []) @
     (if o_maxrate (f_opts f) \<noteq> '''' then [(''-maxrate'', o_maxrate (f_opts f))] else []) @
     (if o_bufsize (f_opts f) \<noteq> '''' then [(''-bufsize'', o_bufsize (f_opts f))] else [])"

definition format_options :: "h264Backend \<Rightarrow> (string \<times> string) list" where
  "format_options b =
     (if is_vaapi b then [(''-vf'', ''format=nv12,hwupload'')]
      else if pixFmt b \<noteq> '''' then [(''-pix_fmt'', pixFmt b)] else [])"

lemma read_videoEncodeArgs:
  "read_command (videoEncodeArgs f (backend f) @ args) =
     apfst ((@) ((''-c:v'', encoder (backend f)) # rate_options f @ format_options (backend f)))
       (read_command args)"
  by (cases "read_command args")
    (simp add: videoEncodeArgs_def rate_options_def format_options_def Let_def HasPrefix_def)

lemma read_transcodeArgs:
  "read_command (transcodeArgs f srcURL headers) =
     ([(''-hide_banner'', ''''), (''-loglevel'', ''error''), (''-nostdin'', '''')] @
      (if is_vaapi (backend f) then [(''-vaapi_device'', o_hwDevice (f_opts f))] else []) @
      input_options srcURL headers @
      [(''-c:v'', encoder (backend f))] @ rate_options f @ format_options (backend f) @
      [(''-c:a'', ''aac'')] @
      (if o_audioBitrate (f_opts f) \<noteq> '''' then [(''-b:a'', o_audioBitrate (f_opts f))] else []) @
      [(''-movflags'', ''frag_keyframe+empty_moov''), (''-f'', ''mp4'')], [''pipe:1''])"
  by (cases "is_vaapi (backend f)"; cases "o_audioBitrate (f_opts f) = ''''")
    (simp_all add: transcodeArgs_def Let_def HasPrefix_def read_inputArgs read_videoEncodeArgs)


lemma backend_vaapi: "is_vaapi (backend f) \<longleftrightarrow> o_backend (f_opts f) = ''vaapi''"
  by (simp add: backend_def h264Backends_def hw_names)

lemma backend_software:
  "is_software (backend f) \<longleftrightarrow>
     o_backend (f_opts f) \<notin> {''nvenc'', ''vaapi'', ''qsv'', ''videotoolbox'', ''amf''}"
  by (simp add: backend_def h264Backends_def hw_names)

lemma backend_pixFmt:
  "pixFmt (backend f) =
     (if o_backend (f_opts f) = ''vaapi'' then '''' else if o_backend (f_opts f) = ''qsv'' then ''nv12''
      else ''yuv420p'')"
  by (simp add: backend_def h264Backends_def hw_names)

text \<open>The order in which the options of a transcode appear.\<close>

definition option_order :: "string list" where
  "option_order =
     [''-hide_banner'', ''-loglevel'', ''-nostdin''] @ [''-vaapi_device''] @
     [''-user_agent'', ''-headers'', ''-i''] @ [''-c:v''] @
     [''-preset'', ''-b:v'', ''-crf'', ''-maxrate'', ''-bufsize''] @ [''-vf'', ''-pix_fmt''] @
     [''-c:a''] @ [''-b:a''] @ [''-movflags'', ''-f'']"

lemma option_names:
  "subseq (map fst (input_options srcURL headers)) [''-user_agent'', ''-headers'', ''-i'']"
  "subseq (map fst (rate_options f)) [''-preset'', ''-b:v'', ''-crf'', ''-maxrate'', ''-bufsize'']"
  "subseq (map fst (format_options b)) [''-vf'', ''-pix_fmt'']"
  "subseq (map fst (if P then [(x, v)] else [])) [x]"
  by (simp_all add: input_options_def rate_options_def format_options_def)

lemma subseq_distinct: "subseq xs ys \<Longrightarrow> distinct ys \<Longrightarrow> distinct xs"
proof (induction rule: list_emb.induct)
  case (list_emb_Cons2 x y xs ys)
  then show ?case using list_emb_set [OF list_emb_Cons2(2)] by auto
qed simp_all

lemma transcode_options_order:
  "subseq (map fst (fst (read_command (transcodeArgs f srcURL headers)))) option_order"
  unfolding read_transcodeArgs option_order_def fst_conv map_append
  by (intro list_emb_append_mono option_names) simp_all

lemma lookup_append:
  "map_of (xs @ ys) k = (case map_of xs k of None \<Rightarrow> map_of ys k | Some v \<Rightarrow> Some v)"
  by (simp add: map_add_def)

lemma lookup_optional: "map_of (if P then [(x, v)] else []) k = (if P \<and> k = x then Some v else None)"
  by simp

lemma lookup_input:
  "k \<notin> {''-user_agent'', ''-headers'', ''-i''} \<Longrightarrow> map_of (input_options srcURL headers) k = None"
  by (simp add: input_options_def lookup_append lookup_optional)

lemma lookup_rate_other:
  "k \<notin> {''-preset'', ''-b:v'', ''-crf'', ''-maxrate'', ''-bufsize''} \<Longrightarrow> map_of (rate_options f) k = None"
  by (simp add: rate_options_def lookup_append lookup_optional)

lemma lookup_bitrate:
  "map_of (rate_options f) ''-b:v'' =
     (if o_videoBitrate (f_opts f) \<noteq> '''' then Some (o_videoBitrate (f_opts f))
      else if is_software (backend f) then None else Some ''8M'')"
  by (simp add: rate_options_def lookup_append lookup_optional)

lemma lookup_crf:
  "map_of (rate_options f) ''-crf'' =
     (if is_software (backend f) \<and> o_videoBitrate (f_opts f) = '''' \<and> o_crf (f_opts f) \<noteq> ''''
      then Some (o_crf (f_opts f)) else None)"
  by (simp add: rate_options_def lookup_append lookup_optional)

lemma lookup_format:
  "map_of (format_options b) k =
     (if is_vaapi b then (if k = ''-vf'' then Some ''format=nv12,hwupload'' else None)
      else if pixFmt b \<noteq> '''' \<and> k = ''-pix_fmt'' then Some (pixFmt b) else None)"
  by (simp add: format_options_def)

lemmas lookup_simps = lookup_append lookup_optional lookup_input lookup_rate_other lookup_bitrate
  lookup_crf lookup_format

lemma input_options_input:
  "filter (\<lambda>p. fst p = ''-i'') (input_options srcURL headers) = [(''-i'', srcURL)]"
  "takeWhile (\<lambda>p. fst p \<noteq> ''-i'') (input_options srcURL headers @ xs) = butlast (input_options srcURL headers)"
  "fst ` set (butlast (input_options srcURL headers)) \<subseteq> {''-user_agent'', ''-headers''}"
  by (auto simp: input_options_def)

lemma other_options_input:
  "filter (\<lambda>p. fst p = ''-i'') (rate_options f) = []"
  "filter (\<lambda>p. fst p = ''-i'') (format_options b) = []"
  by (simp_all add: rate_options_def format_options_def)

text \<open>
  C35. transcodeArgs, read the way ffmpeg reads it: whatever the headers and the options, the
  command has the source as its only input and the standard output as its only output, gives
  no option twice, puts nothing but global and input options before the input, and asks for
  the encoder of the backend and AAC. The VAAPI device and its upload filter are there
  exactly for that backend and the pixel format for all the others; a CRF is given to the
  software encoder alone and only when no bitrate is configured, and a hardware encoder
  always gets a bitrate, 8M when none is configured.
\<close>

theorem transcode_command:
  "case read_command (transcodeArgs f srcURL headers) of
     (os, outs) \<Rightarrow>
       outs = [''pipe:1''] \<and> filter (\<lambda>p. fst p = ''-i'') os = [(''-i'', srcURL)] \<and>
       distinct (map fst os) \<and>
       fst ` set (takeWhile (\<lambda>p. fst p \<noteq> ''-i'') os) \<subseteq>
         {''-hide_banner'', ''-loglevel'', ''-nostdin'', ''-vaapi_device'', ''-user_agent'', ''-headers''} \<and>
       map_of os ''-c:v'' = Some (encoder (backend f)) \<and> map_of os ''-c:a'' = Some ''aac'' \<and>
       map_of os ''-vaapi_device'' =
         (if o_backend (f_opts f) = ''vaapi'' then Some (o_hwDevice (f_opts f)) else None) \<and>
       map_of os ''-vf'' =
         (if o_backend (f_opts f) = ''vaapi'' then Some ''format=nv12,hwupload'' else None) \<and>
       map_of os ''-pix_fmt'' =
         (if o_backend (f_opts f) = ''vaapi'' then None
          else if o_backend (f_opts f) = ''qsv'' then Some ''nv12'' else Some ''yuv420p'') \<and>
       map_of os ''-b:v'' =
         (if o_videoBitrate (f_opts f) \<noteq> '''' then Some (o_videoBitrate (f_opts f))
          else if o_backend (f_opts f) \<in> {''nvenc'', ''vaapi'', ''qsv'', ''videotoolbox'', ''amf''} then Some ''8M''
          else None) \<and>
       map_of os ''-crf'' =
         (if o_backend (f_opts f) \<notin> {''nvenc'', ''vaapi'', ''qsv'', ''videotoolbox'', ''amf''} \<and>
             o_videoBitrate (f_opts f) = '''' \<and> o_crf (f_opts f) \<noteq> ''''
          then Some (o_crf (f_opts f)) else None)"
proof -
  define os where "os = fst (read_command (transcodeArgs f srcURL headers))"
  have "distinct option_order" by (simp add: option_order_def)
  then have dist: "distinct (map fst os)"
    unfolding os_def by (rule subseq_distinct [OF transcode_options_order])
  have eq: "read_command (transcodeArgs f srcURL headers) = (os, [''pipe:1''])"
    by (simp add: os_def read_transcodeArgs)
  have input: "filter (\<lambda>p. fst p = ''-i'') os = [(''-i'', srcURL)]"
    unfolding os_def read_transcodeArgs fst_conv by (simp add: input_options_input(1) other_options_input)
  have "fst ` set (takeWhile (\<lambda>p. fst p \<noteq> ''-i'') os) =
      {''-hide_banner'', ''-loglevel'', ''-nostdin''} \<union>
      (if is_vaapi (backend f) then {''-vaapi_device''} else {}) \<union>
      fst ` set (butlast (input_options srcURL headers))"
    unfolding os_def read_transcodeArgs fst_conv by (simp add: input_options_input(2))
  then have globals: "fst ` set (takeWhile (\<lambda>p. fst p \<noteq> ''-i'') os) \<subseteq>
      {''-hide_banner'', ''-loglevel'', ''-nostdin'', ''-vaapi_device'', ''-user_agent'', ''-headers''}"
    using input_options_input(3) [of srcURL headers] by (auto split: if_splits)
  have at: "map_of os ''-c:v'' = Some (encoder (backend f))"
    "map_of os ''-c:a'' = Some ''aac''"
    "map_of os ''-vaapi_device'' = (if is_vaapi (backend f) then Some (o_hwDevice (f_opts f)) else None)"
    "map_of os ''-vf'' = map_of (format_options (backend f)) ''-vf''"
    "map_of os ''-pix_fmt'' = map_of (format_options (backend f)) ''-pix_fmt''"
    "map_of os ''-b:v'' = map_of (rate_options f) ''-b:v''"
    "map_of os ''-crf'' = map_of (rate_options f) ''-crf''"
    unfolding os_def read_transcodeArgs fst_conv lookup_append lookup_optional
    by (simp_all add: lookup_input lookup_rate_other lookup_format split: option.split)
  show ?thesis
    unfolding eq split at lookup_bitrate lookup_crf lookup_format
      backend_vaapi backend_software backend_pixFmt
    by (intro conjI refl input dist globals; simp)
qed

end
