(* ===== verification/Sequential_Runs.thy ===== *)
theory Sequential_Runs
  imports Tail_Reader Job_Registry Ffmpeg
begin

text \<open>
  The two runs of jobs.go that end in \<open>copyTee\<close>, \<open>runSequential\<close> and \<open>runRemux\<close>, with the start
  and the wait of ffmpeg (ffmpeg.go), and the reply of \<open>serveLive\<close> (serve.go) to a client that
  follows such a download. What the system calls give is an argument: the error of each, the
  pieces ffmpeg writes to its standard error, the outcome of each write to the client.
\<close>

section \<open>ffmpeg as a process\<close>

text \<open>
  \<open>start\<close> gives the command it runs, or the error of the pipe or of the process. The function
  it returns beside the output is \<open>ffmpeg_wait\<close>: of the exit and of what was written to the
  standard error until then.
\<close>

definition ffmpeg_start ::
  "ffmpegRunner \<Rightarrow> string list \<Rightarrow> go_error option \<Rightarrow> go_error option \<Rightarrow> go_error + string list" where
  "ffmpeg_start f args pipe_err start_err =
     (case pipe_err of
        Some e \<Rightarrow> Inl e
      | None \<Rightarrow>
          (case start_err of
             Some e \<Rightarrow> Inl (in_context ''start ffmpeg'' e)
           | None \<Rightarrow> Inr (f_path f # args)))"

definition ffmpeg_wait :: "go_error option \<Rightarrow> string list \<Rightarrow> go_error option" where
  "ffmpeg_wait exit_err ps =
     (case exit_err of
        None \<Rightarrow> None
      | Some e \<Rightarrow> Some (Msg (''ffmpeg: '' @ error_text e @ '': '' @ tb_string (stderr_tail ps))))"

definition openTranscode ::
  "ffmpegRunner \<Rightarrow> string \<Rightarrow> (string \<times> string) list \<Rightarrow> go_error option \<Rightarrow> go_error option \<Rightarrow> go_error + string list" where
  "openTranscode f srcURL headers = ffmpeg_start f (transcodeArgs f srcURL headers)"

section \<open>The runs\<close>

definition jobMode :: "job \<Rightarrow> string" where
  "jobMode x = (if jb_remux x then ''remux'' else if jb_rangeable x then ''sparse'' else ''sequential'')"

text \<open>What a run leaves: the length it has published, whether there is a temporary file, its result.\<close>

record run_end =
  re_contentLength :: int
  re_file :: bool
  re_result :: "go_error option"

text \<open>A job starts with the length -1; \<open>size'\<close> is what the probe has found.\<close>

definition runSequential ::
  "int \<Rightarrow> go_error option \<Rightarrow> go_error option \<Rightarrow> go_error option \<Rightarrow> go_error option \<Rightarrow> run_end" where
  "runSequential size' fetch_err create_err writeErr closeErr =
     (case fetch_err of
        Some e \<Rightarrow> \<lparr>re_contentLength = -1, re_file = False, re_result = Some (in_context ''open upstream'' e)\<rparr>
      | None \<Rightarrow>
          (case create_err of
             Some e \<Rightarrow> \<lparr>re_contentLength = size', re_file = False,
                        re_result = Some (in_context ''create temp file'' e)\<rparr>
           | None \<Rightarrow> \<lparr>re_contentLength = size', re_file = True,
                      re_result = (if writeErr \<noteq> None then writeErr else closeErr)\<rparr>))"

definition runRemux ::
  "ffmpegRunner \<Rightarrow> bool \<Rightarrow> string \<Rightarrow> (string \<times> string) list \<Rightarrow> go_error option \<Rightarrow> go_error option \<Rightarrow>
   go_error option \<Rightarrow> go_error option \<Rightarrow> go_error option \<Rightarrow> go_error option \<Rightarrow> string list \<Rightarrow>
   string list option \<times> run_end" where
  "runRemux f transcode srcURL headers pipe_err start_err create_err writeErr closeErr exit_err ps =
     (case (if transcode then openTranscode f srcURL headers pipe_err start_err
            else ffmpeg_start f (openRemux srcURL headers) pipe_err start_err) of
        Inl e \<Rightarrow> (None, \<lparr>re_contentLength = -1, re_file = False, re_result = Some (in_context ''start remux'' e)\<rparr>)
      | Inr cmd \<Rightarrow>
          (Some cmd,
           (case create_err of
              Some e \<Rightarrow> \<lparr>re_contentLength = -1, re_file = False,
                         re_result = Some (in_context ''create temp file'' e)\<rparr>
            | None \<Rightarrow>
                (let waitErr = ffmpeg_wait exit_err ps
                 in \<lparr>re_contentLength = -1, re_file = True,
                     re_result = (if writeErr \<noteq> None then writeErr
                                  else if waitErr \<noteq> None then waitErr else closeErr)\<rparr>))))"

section \<open>The reply to a client that follows\<close>

text \<open>
  \<open>io.Copy\<close> from the tail reader to the client: the chunks the reader delivers and the error
  it ends with, and the outcome of each write. What was written, counted by the
  \<open>countingWriter\<close>, and the error of the copy.
\<close>

fun io_copy :: "byte list list \<Rightarrow> go_error \<Rightarrow> (nat \<Rightarrow> write_result) \<Rightarrow> byte list \<times> int \<times> go_error option" where
  "io_copy [] e wr = ([], 0, if e = EOF then None else Some e)"
| "io_copy (c # cs) e wr =
     (case wr 0 of
        WroteSome n we \<Rightarrow> (take n c, int (length (take n c)), Some we)
      | WroteAll \<Rightarrow>
          (case io_copy cs e (wr \<circ> Suc) of (out, n, r) \<Rightarrow> (c @ out, add64 (int (length c)) n, r)))"

record live_reply =
  lr_status :: int
  lr_headers :: "string \<Rightarrow> string option"
  lr_body :: "byte list"
  lr_served :: int
  lr_err :: "go_error option"

definition serveLive ::
  "bool \<Rightarrow> int \<Rightarrow> string \<Rightarrow> byte list list \<Rightarrow> go_error \<Rightarrow> (nat \<Rightarrow> write_result) \<Rightarrow> live_reply" where
  "serveLive opened contentLength meth cs e wr =
     (if \<not> opened then
        \<lparr>lr_status = 503,
         lr_headers = [''Content-Type'' \<mapsto> ''text/plain; charset=utf-8'', ''X-Content-Type-Options'' \<mapsto> ''nosniff''],
         lr_body = map (\<lambda>c. of_nat (of_char c)) (''live stream unavailable'' @ [CHR 0x0A]),
         lr_served = 0, lr_err = None\<rparr>
      else
        (let h = [''Content-Type'' \<mapsto> ''video/mp4'', ''Accept-Ranges'' \<mapsto> ''none''];
             h = (if contentLength \<ge> 0 then h(''Content-Length'' \<mapsto> FormatInt contentLength) else h)
         in if meth = ''HEAD'' then \<lparr>lr_status = 200, lr_headers = h, lr_body = [], lr_served = 0, lr_err = None\<rparr>
            else case io_copy cs e wr of (out, n, r) \<Rightarrow>
              \<lparr>lr_status = 200, lr_headers = h, lr_body = out, lr_served = n, lr_err = r\<rparr>))"

section \<open>Lemmas\<close>

lemma ended_copy:
  assumes "tail_reach B (s, r)" and "int (length B) \<le> max_i64" and "tj_place s = Ended None"
  shows "tj_file s = B"
  using tail_reach_inv [OF assms(1,2)] assms(3) by (simp add: copy_ok_def)

text \<open>What a copy to a client has sent: a prefix of the chunks, all of them when it ends without an error.\<close>

lemma io_copy_sent:
  assumes "io_copy cs e wr = (out, n, r)" and "int (length (concat cs)) \<le> max_i64"
  shows "prefix out (concat cs) \<and> n = int (length out) \<and> (r = None \<longrightarrow> out = concat cs \<and> e = EOF)"
  using assms
proof (induction cs e wr arbitrary: out n r rule: io_copy.induct)
  case (2 c cs e wr)
  show ?case
  proof (cases "wr 0")
    case (WroteSome k we)
    then show ?thesis using 2(2) by (auto intro: prefix_order.trans [OF take_is_prefix])
  next
    case WroteAll
    obtain out' n' r' where rest: "io_copy cs e (wr \<circ> Suc) = (out', n', r')"
      by (cases "io_copy cs e (wr \<circ> Suc)") auto
    from 2(1) [OF WroteAll rest] 2(3) have IH: "prefix out' (concat cs)" "n' = int (length out')"
      "r' = None \<longrightarrow> out' = concat cs \<and> e = EOF" by auto
    have "length out' \<le> length (concat cs)" using IH(1) by (rule prefix_length_le)
    then have "add64 (int (length c)) n' = int (length c) + n'"
      using IH(2) 2(3) by (intro add64_nonneg) auto
    then show ?thesis using WroteAll rest IH 2(2) by auto
  qed
qed (auto split: if_splits)

section \<open>Properties\<close>

text \<open>
  C10. A run that reports success has downloaded everything, and every failure is reported: a
  sequential run ends without an error exactly when the fetch, the creation of the file, the
  copy and its close all succeeded, a remux run when ffmpeg has also started and exited with
  success; in both cases the file then holds the whole body. When ffmpeg fails after a copy
  that looked complete, the error carries the last 8 KiB it wrote to its standard error.
\<close>

theorem run_success_is_whole:
  assumes "tail_reach B (s, r)" and "int (length B) \<le> max_i64" and "tj_place s = Ended e"
    and "sq = runSequential size' fetch_err create_err e close_err"
    and "rm = runRemux f transcode url hs pipe_err start_err create_err e close_err exit_err ps"
  shows "(re_result sq = None \<longleftrightarrow> fetch_err = None \<and> create_err = None \<and> e = None \<and> close_err = None) \<and>
    (re_result sq = None \<longrightarrow> tj_file s = B \<and> re_file sq \<and> re_contentLength sq = size') \<and>
    (re_result (snd rm) = None \<longleftrightarrow>
       pipe_err = None \<and> start_err = None \<and> create_err = None \<and> e = None \<and> exit_err = None \<and> close_err = None) \<and>
    (re_result (snd rm) = None \<longrightarrow> tj_file s = B \<and> re_file (snd rm) \<and>
       fst rm = Some (f_path f # (if transcode then transcodeArgs f url hs else openRemux url hs))) \<and>
    (pipe_err = None \<and> start_err = None \<and> create_err = None \<and> e = None \<longrightarrow> (\<forall>x. exit_err = Some x \<longrightarrow>
       re_result (snd rm) = Some (Msg (''ffmpeg: '' @ error_text x @ '': '' @
         TrimSpace (drop (length (concat ps) - 8192) (concat ps))))))"
proof -
  note defs = runSequential_def runRemux_def openTranscode_def ffmpeg_start_def ffmpeg_wait_def Let_def
  have "tj_file s = B" if "e = None" using ended_copy [OF assms(1,2)] assms(3) that by simp
  then show ?thesis
    unfolding assms(4,5)
    by (intro conjI; cases e; simp add: defs stderr_tail_buf tb_string_def split: option.split)
qed

text \<open>
  C11. What a client that follows a download gets: \<open>serveLive\<close> answers with status 200 and
  delivers a prefix of the upstream body, counted exactly; a copy that ends without an
  error has delivered the whole of it. It announces a \<open>Content-Length\<close> exactly when the job knows
  one, so that a body of the probed length is as long as announced, and an error of the
  download or of the client shows as a body that is too short, never as wrong bytes.
\<close>

theorem live_reply_faithful:
  assumes "tail_reach B (s, r)" and "int (length B) \<le> max_i64"
    and "concat cs = tr_out r" and "tr_place r = Failed_with e" and "meth \<noteq> ''HEAD''"
    and "reply = serveLive True n meth cs e wr"
  shows "lr_status reply = 200 \<and> prefix (lr_body reply) B \<and> lr_served reply = int (length (lr_body reply)) \<and>
    (lr_err reply = None \<longrightarrow> lr_body reply = B) \<and>
    lr_headers reply ''Content-Length'' = (if n \<ge> 0 then Some (FormatInt n) else None) \<and>
    (lr_err reply = None \<and> n = int (length B) \<longrightarrow>
       lr_headers reply ''Content-Length'' = Some (FormatInt (int (length (lr_body reply)))))"
proof -
  have c: "copy_ok B s" and ok: "reader_ok B s r" using tail_reach_inv [OF assms(1,2)] by simp_all
  have "prefix (tr_out r) (tj_file s)" using ok by (simp add: reader_ok_def take_is_prefix)
  moreover have "prefix (tj_file s) B" using c by (simp add: copy_ok_def)
  ultimately have pre: "prefix (concat cs) B" using assms(3) prefix_order.trans by metis
  have all: "concat cs = B" if "e = EOF" using ok assms(3,4) that by (metis reader_ok_def)
  obtain out k x where io: "io_copy cs e wr = (out, k, x)" by (cases "io_copy cs e wr") auto
  have "int (length (concat cs)) \<le> max_i64" using prefix_length_le [OF pre] assms(2) by simp
  note sent = io_copy_sent [OF io this]
  then have "prefix out B" using pre prefix_order.trans by metis
  then show ?thesis using sent all assms(5,6) io by (auto simp: serveLive_def Let_def)
qed

theorem run_success_is_whole_witness:
  "re_result (runSequential 3 None None None None) = None \<and>
   re_result (snd (runRemux (newFfmpegRunner ''''
     \<lparr>o_backend = '''', o_hwDevice = '''', o_preset = '''', o_crf = '''', o_videoBitrate = '''',
      o_maxrate = '''', o_bufsize = '''', o_audioBitrate = ''''\<rparr>) True ''http://h/m.m3u8'' [] None None None None None
     (Some (OsError ''exit status 1'')) [''bad '', ''input''])) =
   Some (Msg ''ffmpeg: exit status 1: bad input'')"
proof -
  obtain s :: tail_job where s: "tail_reach [7, 8, 9] (s, snd demo_copied)" "tj_place s = Ended None"
    using demo_ended by blast
  have "TrimSpace (drop (length (concat [''bad '', ''input'']) - 8192) (concat [''bad '', ''input''])) = ''bad input''"
    by code_simp
  with run_success_is_whole [OF s(1) _ s(2) refl refl, where fetch_err = None and create_err = None
      and close_err = None and ps = "[''bad '', ''input'']"]
  show ?thesis by (simp add: max_i64_def)
qed

theorem live_reply_faithful_witness:
  "lr_body (serveLive True 3 ''GET'' [[7, 8], [9]] EOF (\<lambda>_. WroteAll)) = [7, 8, 9]"
proof -
  have "lr_err (serveLive True 3 ''GET'' [[7, 8], [9]] EOF (\<lambda>_. WroteAll)) = None"
    by (simp add: serveLive_def Let_def)
  moreover have "concat [[7, 8], [9]] = tr_out ((snd demo_copied)\<lparr>tr_place := Failed_with EOF\<rparr>)"
    by (simp add: demo_copied_def tail_run)
  moreover have "int (length ([7, 8, 9] :: byte list)) \<le> max_i64" by (simp add: max_i64_def)
  ultimately show ?thesis
    using live_reply_faithful [OF demo_copied_reads(3) _ _ _ _ refl, of "[[7, 8], [9]]" EOF "''GET''" 3 "\<lambda>_. WroteAll"]
    by simp
qed

end
