(* ===== verification/Hls_Playlist.thy ===== *)
theory Hls_Playlist
  imports Go_Url
begin

text \<open>
  The rewriting of HLS playlists in hls.go: \<open>rewriteHLSPlaylist\<close>, \<open>rewriteTagLine\<close> and
  \<open>resolveRef\<close>, with the scanner for lines and the one regular expression they use. The
  function \<open>build\<close> that makes the proxied URLs is an argument, as in the code.
\<close>

section \<open>Lines\<close>

datatype hlsKind = kindManifest | kindSegment

definition newline :: char where "newline = CHR 0x0A"

definition maxManifestSize :: int where "maxManifestSize = 16 * 2 ^ 20"

text \<open>
  \<open>bufio.Scanner\<close> with \<open>ScanLines\<close>: the text behind the last line feed is a line unless it is
  empty, and one carriage return at the end of a line is dropped. A line that does not fit
  in the buffer, with room for a line feed, is an error.
\<close>

definition raw_lines :: "string \<Rightarrow> string list" where
  "raw_lines body =
     (let ls = split_on newline body in if last ls = '''' then butlast ls else ls)"

definition dropCR :: "string \<Rightarrow> string" where
  "dropCR l = (if l \<noteq> '''' \<and> last l = CHR 0x0D then butlast l else l)"

definition scan_lines :: "string \<Rightarrow> go_error + string list" where
  "scan_lines body =
     (if list_ex (\<lambda>l. int (length l) \<ge> maxManifestSize) (raw_lines body) then Inl (Msg ''scan playlist'')
      else Inr (map dropCR (raw_lines body)))"

section \<open>Rewriting\<close>

definition resolveRef :: "url \<Rightarrow> string \<Rightarrow> string" where
  "resolveRef base ref =
     (case Parse (TrimSpace ref) of None \<Rightarrow> ref | Some u \<Rightarrow> url_string (ResolveReference base u))"

text \<open>
  \<open>uriAttrRe.ReplaceAllStringFunc\<close>: from left to right every \<open>URI="..."\<close>, with the part between
  the quotation marks handed to the function.
\<close>

definition quot :: char where "quot = CHR 0x22"

definition uri_open :: string where "uri_open = ''URI='' @ [quot]"

definition match_uri :: "string \<Rightarrow> (string \<times> string) option" where
  "match_uri s = (case CutPrefix s uri_open of None \<Rightarrow> None | Some r \<Rightarrow> Cut r quot)"

lemma match_uri_shorter: "match_uri s = Some (ref, r) \<Longrightarrow> s = uri_open @ ref @ quot # r \<and> quot \<notin> set ref"
  by (auto simp: match_uri_def CutPrefix_Some split: option.splits dest: Cut_Some)

function replace_uris :: "(string \<Rightarrow> string) \<Rightarrow> string \<Rightarrow> string" where
  "replace_uris f s =
     (case match_uri s of
        Some (ref, r) \<Rightarrow> uri_open @ f ref @ quot # replace_uris f r
      | None \<Rightarrow> (case s of [] \<Rightarrow> [] | c # t \<Rightarrow> c # replace_uris f t))"
  by pat_completeness auto
termination
  by (relation "measure (\<lambda>(f, s). length s)") (auto dest: match_uri_shorter)

declare replace_uris.simps [simp del]

definition tag_kind :: "string \<Rightarrow> hlsKind" where
  "tag_kind line =
     (let upper = ToUpper (TrimSpace line)
      in if HasPrefix upper ''#EXT-X-MEDIA'' \<or> HasPrefix upper ''#EXT-X-I-FRAME-STREAM-INF''
         then kindManifest else kindSegment)"

definition rewriteTagLine :: "string \<Rightarrow> url \<Rightarrow> (string \<Rightarrow> hlsKind \<Rightarrow> string) \<Rightarrow> string" where
  "rewriteTagLine line base build =
     replace_uris (\<lambda>ref. build (resolveRef base ref) (tag_kind line)) line"

definition rewriteLine :: "bool \<Rightarrow> url \<Rightarrow> (string \<Rightarrow> hlsKind \<Rightarrow> string) \<Rightarrow> string \<Rightarrow> string" where
  "rewriteLine master base build line =
     (let trimmed = TrimSpace line
      in if trimmed = '''' then line
         else if HasPrefix trimmed ''#'' then rewriteTagLine line base build
         else build (resolveRef base trimmed) (if master then kindManifest else kindSegment))"

definition isMaster :: "string \<Rightarrow> bool" where
  "isMaster body = Contains body ''#EXT-X-STREAM-INF''"

definition rewriteHLSPlaylist ::
  "string \<Rightarrow> string \<Rightarrow> (string \<Rightarrow> hlsKind \<Rightarrow> string) \<Rightarrow> go_error + string" where
  "rewriteHLSPlaylist body baseURL build =
     (case Parse baseURL of
        None \<Rightarrow> Inl (Msg ''parse base url'')
      | Some base \<Rightarrow>
          (case scan_lines body of
             Inl e \<Rightarrow> Inl e
           | Inr ls \<Rightarrow> Inr (concat (map (\<lambda>l. rewriteLine (isMaster body) base build l @ [newline]) ls))))"

section \<open>Lemmas\<close>

text \<open>The references of a tag line, in order.\<close>

function attr_uris :: "string \<Rightarrow> string list" where
  "attr_uris s =
     (case match_uri s of
        Some (ref, r) \<Rightarrow> ref # attr_uris r
      | None \<Rightarrow> (case s of [] \<Rightarrow> [] | c # t \<Rightarrow> attr_uris t))"
  by pat_completeness auto
termination
  by (relation "measure length") (auto dest: match_uri_shorter)

declare attr_uris.simps [simp del]

lemma match_uri_Nil [simp]: "match_uri [] = None"
  by (simp add: match_uri_def CutPrefix_def uri_open_def)

lemma match_uri_hit: "quot \<notin> set ref \<Longrightarrow> match_uri (uri_open @ ref @ quot # r) = Some (ref, r)"
  by (simp add: match_uri_def Cut_append)

lemma uri_induct [case_names Nil match skip]:
  assumes "P []"
    and "\<And>ref r. quot \<notin> set ref \<Longrightarrow> P r \<Longrightarrow> P (uri_open @ ref @ quot # r)"
    and "\<And>c s. match_uri (c # s) = None \<Longrightarrow> P s \<Longrightarrow> P (c # s)"
  shows "P s"
proof (induction s rule: attr_uris.induct)
  case (1 s)
  show ?case
  proof (cases "match_uri s")
    case None
    show ?thesis
    proof (cases s)
      case Nil
      with assms(1) show ?thesis by simp
    next
      case (Cons c t)
      with None show ?thesis using assms(3) 1(1) [OF None Cons] by simp
    qed
  next
    case (Some p)
    then obtain ref r where p: "p = (ref, r)" by (cases p)
    from match_uri_shorter Some p have "s = uri_open @ ref @ quot # r" "quot \<notin> set ref" by auto
    with 1(2) [OF Some p [symmetric]] assms(2) show ?thesis by simp
  qed
qed

lemma replace_uris_simps:
  "replace_uris f [] = []"
  "quot \<notin> set ref \<Longrightarrow> replace_uris f (uri_open @ ref @ quot # r) = uri_open @ f ref @ quot # replace_uris f r"
  "match_uri (c # s) = None \<Longrightarrow> replace_uris f (c # s) = c # replace_uris f s"
  by (simp_all add: replace_uris.simps [of f "[]"] replace_uris.simps [of f "c # s"]
      replace_uris.simps [of f "uri_open @ ref @ quot # r"] match_uri_hit)

lemma attr_uris_simps:
  "attr_uris [] = []"
  "quot \<notin> set ref \<Longrightarrow> attr_uris (uri_open @ ref @ quot # r) = ref # attr_uris r"
  "match_uri (c # s) = None \<Longrightarrow> attr_uris (c # s) = attr_uris s"
  by (simp_all add: attr_uris.simps [of "[]"] attr_uris.simps [of "c # s"]
      attr_uris.simps [of "uri_open @ ref @ quot # r"] match_uri_hit)

lemma length_uri_open [simp]: "length uri_open = 5"
  by (simp add: uri_open_def)

lemma replace_uris_head: "n \<le> 5 \<Longrightarrow> take n (replace_uris f s) = take n s"
proof (induction s arbitrary: n rule: uri_induct)
  case (match ref r)
  then show ?case by (simp add: replace_uris_simps(2))
next
  case (skip c s)
  then show ?case by (cases n) (simp_all add: replace_uris_simps)
qed (simp add: replace_uris_simps)

lemma no_match_no_change: "length (filter ((=) quot) s) < 2 \<Longrightarrow> replace_uris f s = s"
  by (induction s rule: uri_induct)
    (auto simp: replace_uris_simps uri_open_def split: if_splits)

lemma prefix_take: "prefix p s \<longleftrightarrow> take (length p) s = p"
  by (metis append_eq_conv_conj prefix_def)

text \<open>Where there is no match, there is none after the replacement either.\<close>

lemma match_uri_replace:
  assumes "match_uri (c # s) = None"
  shows "match_uri (c # replace_uris f s) = None"
proof (cases "prefix uri_open (c # s)")
  case False
  have "take 5 (c # replace_uris f s) = take 5 (c # s)"
    using replace_uris_head [of 4 f s] by simp
  with False have "\<not> prefix uri_open (c # replace_uris f s)"
    by (simp add: prefix_take)
  then show ?thesis by (simp add: match_uri_def CutPrefix_def)
next
  case True
  then obtain r where r: "c # s = uri_open @ r" by (auto simp: prefix_def)
  then have "Cut r quot = None" using assms by (simp add: match_uri_def)
  then have "quot \<notin> set r" by (simp add: Cut_None)
  then have "length (filter ((=) quot) s) < 2"
    using r by (auto simp: uri_open_def filter_empty_conv quot_def)
  then have "replace_uris f s = s" by (rule no_match_no_change)
  with assms show ?thesis by simp
qed

lemma attr_uris_replace:
  assumes "\<And>ref. quot \<notin> set (f ref)"
  shows "attr_uris (replace_uris f s) = map f (attr_uris s)"
  by (induction s rule: uri_induct)
    (simp_all add: replace_uris_simps attr_uris_simps assms match_uri_replace)

lemma replace_uris_twice:
  assumes "\<And>ref. quot \<notin> set (f ref)"
  shows "replace_uris g (replace_uris f s) = replace_uris (g \<circ> f) s"
  by (induction s rule: uri_induct)
    (simp_all add: replace_uris_simps assms match_uri_replace)


lemma replace_uris_avoids:
  assumes "\<And>ref. c \<notin> set (f ref)" and "c \<notin> set s" and "c \<notin> set uri_open" and "c \<noteq> quot"
  shows "c \<notin> set (replace_uris f s)"
  using assms(2) by (induction s rule: uri_induct) (simp_all add: replace_uris_simps assms)

lemma split_concat_lines:
  "\<forall>l\<in>set ls. c \<notin> set (f l) \<Longrightarrow>
   split_on c (concat (map (\<lambda>l. f l @ [c]) ls)) = map f ls @ [[]]"
  by (induction ls) (simp_all add: split_on_append)

lemma newline_quot: "newline \<noteq> quot" "newline \<notin> set uri_open"
  by (simp_all add: newline_def quot_def uri_open_def)

lemma raw_lines_no_newline: "l \<in> set (raw_lines body) \<Longrightarrow> newline \<notin> set (dropCR l)"
  using split_on_parts [of _ newline body]
  by (auto simp: raw_lines_def dropCR_def Let_def dest: in_set_butlastD split: if_splits)

lemma rewriteLine_no_newline:
  assumes "newline \<notin> set line" and "\<And>u k. newline \<notin> set (build u k)"
  shows "newline \<notin> set (rewriteLine master base build line)"
proof -
  have "newline \<notin> set (replace_uris (\<lambda>ref. build (resolveRef base ref) k) line)" for k
    using assms newline_quot by (intro replace_uris_avoids)
  then show ?thesis using assms by (simp add: rewriteLine_def rewriteTagLine_def Let_def)
qed

lemma rewritten_lines:
  assumes "rewriteHLSPlaylist body baseURL build = Inr out" and "\<And>u k. newline \<notin> set (build u k)"
  shows "\<exists>base. Parse baseURL = Some base \<and>
    split_on newline out = map (rewriteLine (isMaster body) base build) (map dropCR (raw_lines body)) @ ['''']"
proof -
  obtain base where base: "Parse baseURL = Some base"
    using assms(1) by (auto simp: rewriteHLSPlaylist_def split: option.splits)
  define ls where "ls = map dropCR (raw_lines body)"
  have out: "out = concat (map (\<lambda>l. rewriteLine (isMaster body) base build l @ [newline]) ls)"
    using assms(1) base
    by (auto simp: rewriteHLSPlaylist_def scan_lines_def ls_def comp_def split: if_splits)
  have "\<forall>l\<in>set ls. newline \<notin> set (rewriteLine (isMaster body) base build l)"
  proof
    fix l assume "l \<in> set ls"
    then have "newline \<notin> set l" using raw_lines_no_newline by (auto simp: ls_def)
    then show "newline \<notin> set (rewriteLine (isMaster body) base build l)"
      using assms(2) by (rule rewriteLine_no_newline)
  qed
  then have lines: "split_on newline out = map (rewriteLine (isMaster body) base build) ls @ ['''']"
    unfolding out by (rule split_concat_lines)
  then show ?thesis using base by (simp add: ls_def)
qed



end
