(* ===== verification/Go_Float.thy ===== *)
theory Go_Float
  imports Go_Url
begin

text \<open>
  Go's \<open>float64\<close> as far as the program computes with it: rounding to nearest even of an exact
  quotient, product, quotient, the conversions, and \<open>strconv.ParseFloat\<close>,
  \<open>strconv.ParseInt\<close> with base 0 and \<open>time.ParseDuration\<close>.

  A finite number is \<open>m * 2 ^ e\<close>; zero has no sign, which nothing the program does with a
  float can see. What the conversion of a float outside the range of an \<open>int64\<close> gives is left
  to the machine by the language, so it is an argument, \<open>oob\<close>.
\<close>

section \<open>Numbers\<close>

datatype f64 = NaN | Inf bool | Fin int int

fun bit_len :: "nat \<Rightarrow> nat" where
  "bit_len n = (if n = 0 then 0 else Suc (bit_len (n div 2)))"

declare bit_len.simps [simp del]

definition scale2 :: "int \<Rightarrow> nat \<Rightarrow> nat \<Rightarrow> nat \<times> nat" where
  "scale2 e num den = (if e \<ge> 0 then (num * 2 ^ nat e, den) else (num, den * 2 ^ nat (- e)))"

text \<open>The floor of the binary logarithm of a positive quotient.\<close>

definition floor_log2 :: "nat \<Rightarrow> nat \<Rightarrow> int" where
  "floor_log2 num den =
     (let d = int (bit_len num) - int (bit_len den);
          (n, m) = scale2 (- d) num den
      in if m \<le> n then d else d - 1)"

definition div_even :: "nat \<Rightarrow> nat \<Rightarrow> nat" where
  "div_even n d =
     (let q = n div d; r = n mod d in if 2 * r > d \<or> 2 * r = d \<and> odd q then q + 1 else q)"

definition round_f64 :: "bool \<Rightarrow> nat \<Rightarrow> nat \<Rightarrow> f64" where
  "round_f64 neg num den =
     (if num = 0 then Fin 0 0
      else
        (let e = max (- 1074) (floor_log2 num den - 52);
             (n, d) = scale2 (- e) num den;
             q = div_even n d
         in if e \<ge> 0 \<and> q * 2 ^ nat e \<ge> 2 ^ 1024 then Inf neg
            else Fin (if neg then - int q else int q) e))"

definition f64_of_int :: "int \<Rightarrow> f64" where
  "f64_of_int i = round_f64 (i < 0) (nat \<bar>i\<bar>) 1"

definition f64_neg :: "f64 \<Rightarrow> bool" where
  "f64_neg x = (case x of NaN \<Rightarrow> False | Inf neg \<Rightarrow> neg | Fin m e \<Rightarrow> m < 0)"

definition f64_mult :: "f64 \<Rightarrow> f64 \<Rightarrow> f64" where
  "f64_mult x y =
     (case (x, y) of
        (Fin m e, Fin n k) \<Rightarrow>
          (let (num, den) = scale2 (e + k) (nat \<bar>m * n\<bar>) 1 in round_f64 ((m < 0) \<noteq> (n < 0)) num den)
      | (NaN, _) \<Rightarrow> NaN
      | (_, NaN) \<Rightarrow> NaN
      | (Inf s, Inf t) \<Rightarrow> Inf (s \<noteq> t)
      | (Inf s, Fin n k) \<Rightarrow> if n = 0 then NaN else Inf (s \<noteq> (n < 0))
      | (Fin m e, Inf t) \<Rightarrow> if m = 0 then NaN else Inf ((m < 0) \<noteq> t))"

definition f64_divide :: "f64 \<Rightarrow> f64 \<Rightarrow> f64" where
  "f64_divide x y =
     (case (x, y) of
        (Fin m e, Fin n k) \<Rightarrow>
          if n = 0 then (if m = 0 then NaN else Inf (m < 0))
          else (let (num, den) = scale2 (e - k) (nat \<bar>m\<bar>) (nat \<bar>n\<bar>)
                in round_f64 ((m < 0) \<noteq> (n < 0)) num den)
      | (NaN, _) \<Rightarrow> NaN
      | (_, NaN) \<Rightarrow> NaN
      | (Inf s, Inf t) \<Rightarrow> NaN
      | (Inf s, Fin n k) \<Rightarrow> Inf (s \<noteq> (n < 0))
      | (Fin m e, Inf t) \<Rightarrow> Fin 0 0)"

text \<open>Conversion to \<open>int64\<close>: towards zero.\<close>

definition f64_trunc :: "int \<Rightarrow> int \<Rightarrow> int" where
  "f64_trunc m e =
     (let a = (if e \<ge> 0 then \<bar>m\<bar> * 2 ^ nat e else \<bar>m\<bar> div 2 ^ nat (- e)) in if m < 0 then - a else a)"

definition int64_of_f64 :: "(f64 \<Rightarrow> int) \<Rightarrow> f64 \<Rightarrow> int" where
  "int64_of_f64 oob x =
     (case x of
        Fin m e \<Rightarrow> if in_i64 (f64_trunc m e) then f64_trunc m e else oob x
      | _ \<Rightarrow> oob x)"

section \<open>ParseFloat\<close>

text \<open>\<open>underscoreOK\<close>: the last thing seen is '^' (nothing), '0' (a digit), '_' or '!'.\<close>

fun underscore_loop :: "bool \<Rightarrow> char \<Rightarrow> string \<Rightarrow> bool" where
  "underscore_loop hexa saw [] \<longleftrightarrow> saw \<noteq> CHR ''_''"
| "underscore_loop hexa saw (c # s) \<longleftrightarrow>
     (if is_digit c \<or> hexa \<and> unhex c \<noteq> None then underscore_loop hexa (CHR ''0'') s
      else if c = CHR ''_'' then (if saw \<noteq> CHR ''0'' then False else underscore_loop hexa (CHR ''_'') s)
      else if saw = CHR ''_'' then False
      else underscore_loop hexa (CHR ''!'') s)"

definition cut_sign :: "string \<Rightarrow> bool \<times> string" where
  "cut_sign s =
     (if HasPrefix s ''-'' then (True, tl s) else if HasPrefix s ''+'' then (False, tl s) else (False, s))"

definition underscoreOK :: "string \<Rightarrow> bool" where
  "underscoreOK s0 =
     (let s = snd (cut_sign s0);
          p = map lower_char (take 2 s)
      in if p = ''0b'' \<or> p = ''0o'' \<or> p = ''0x''
         then underscore_loop (p = ''0x'') (CHR ''0'') (drop 2 s)
         else underscore_loop False (CHR ''^'') s)"

text \<open>
  The digits of the mantissa: their value, how many stand after the point (if there is one),
  whether there was any, and what follows.
\<close>

fun mantissa_loop :: "nat \<Rightarrow> bool \<Rightarrow> nat \<Rightarrow> nat \<Rightarrow> bool \<Rightarrow> string \<Rightarrow> nat \<times> nat \<times> bool \<times> string" where
  "mantissa_loop base dot m frac any [] = (m, frac, any, [])"
| "mantissa_loop base dot m frac any (c # s) =
     (if c = CHR ''_'' then mantissa_loop base dot m frac any s
      else if c = CHR ''.'' then
        (if dot then (m, frac, any, c # s) else mantissa_loop base True m frac any s)
      else
        (case unhex c of
           Some d \<Rightarrow>
             if d < base
             then mantissa_loop base dot (base * m + d) (if dot then frac + 1 else frac) True s
             else (m, frac, any, c # s)
         | None \<Rightarrow> (m, frac, any, c # s)))"

fun exponent_loop :: "nat \<Rightarrow> string \<Rightarrow> nat \<times> string" where
  "exponent_loop e [] = (e, [])"
| "exponent_loop e (c # s) =
     (if c = CHR ''_'' then exponent_loop e s
      else case digit_val c of
             Some d \<Rightarrow> exponent_loop (if e < 10000 then 10 * e + d else e) s
           | None \<Rightarrow> (e, c # s))"

text \<open>Sign, mantissa over a power of the base, and exponent; nothing may follow.\<close>

definition readFloat :: "string \<Rightarrow> (bool \<times> bool \<times> nat \<times> nat \<times> int) option" where
  "readFloat s0 =
     (let (neg, s1) = cut_sign s0;
          hexa = (length s1 > 2 \<and> map lower_char (take 2 s1) = ''0x'');
          base = (if hexa then 16 else 10);
          (m, frac, any, rest) = mantissa_loop base False 0 0 False (if hexa then drop 2 s1 else s1)
      in if \<not> any then None
         else case rest of
             [] \<Rightarrow> if hexa \<or> CHR ''_'' \<in> set s0 \<and> \<not> underscoreOK s0 then None else Some (neg, hexa, m, frac, 0)
           | c # r \<Rightarrow>
               if lower_char c \<noteq> (if hexa then CHR ''p'' else CHR ''e'') then None
               else
                 (let (eneg, r1) = cut_sign r
                  in if r1 = '''' \<or> \<not> is_digit (hd r1) then None
                     else
                       (let (e, r2) = exponent_loop 0 r1
                        in if r2 \<noteq> '''' \<or> CHR ''_'' \<in> set s0 \<and> \<not> underscoreOK s0 then None
                           else Some (neg, hexa, m, frac, if eneg then - int e else int e))))"

text \<open>None is any error, of the syntax or of the range.\<close>

definition ParseFloat :: "string \<Rightarrow> f64 option" where
  "ParseFloat s =
     (let l = map lower_char s; (neg, u) = cut_sign l
      in if u = ''inf'' \<or> u = ''infinity'' then Some (Inf neg)
         else if l = ''nan'' then Some NaN
         else case readFloat s of
             None \<Rightarrow> None
           | Some (sign, hexa, m, frac, e) \<Rightarrow>
               (let x = (if hexa then (let (num, den) = scale2 (e - 4 * int frac) m 1 in round_f64 sign num den)
                         else let k = e - int frac
                              in if k \<ge> 0 then round_f64 sign (m * 10 ^ nat k) 1
                                 else round_f64 sign m (10 ^ nat (- k)))
                in case x of Inf _ \<Rightarrow> None | _ \<Rightarrow> Some x))"

section \<open>ParseInt with base 0\<close>

fun base_digits :: "nat \<Rightarrow> nat \<Rightarrow> string \<Rightarrow> nat option" where
  "base_digits base a [] = Some a"
| "base_digits base a (c # s) =
     (if c = CHR ''_'' then base_digits base a s
      else case unhex c of
             Some d \<Rightarrow> if d < base then base_digits base (base * a + d) s else None
           | None \<Rightarrow> None)"

definition ParseUint0 :: "string \<Rightarrow> int option" where
  "ParseUint0 s =
     (if s = '''' then None
      else
        (let p = map lower_char (take 2 s);
             (base, digits) =
               (if hd s \<noteq> CHR ''0'' then (10, s)
                else if length s \<ge> 3 \<and> p = ''0b'' then (2, drop 2 s)
                else if length s \<ge> 3 \<and> p = ''0o'' then (8, drop 2 s)
                else if length s \<ge> 3 \<and> p = ''0x'' then (16, drop 2 s)
                else (8, tl s))
         in case base_digits base 0 digits of
              None \<Rightarrow> None
            | Some n \<Rightarrow>
                if int n \<ge> 2 ^ 64 \<or> CHR ''_'' \<in> set s \<and> \<not> underscoreOK s then None
                else Some (int n)))"

definition ParseInt0 :: "string \<Rightarrow> int option" where
  "ParseInt0 s =
     (let (neg, u) = cut_sign s
      in case ParseUint0 u of
           None \<Rightarrow> None
         | Some n \<Rightarrow>
             if \<not> neg \<and> n \<ge> 2 ^ 63 \<or> neg \<and> n > 2 ^ 63 then None
             else Some (if neg then - n else n))"

section \<open>ParseDuration\<close>

text \<open>Durations are in nanoseconds.\<close>

definition Second :: int where "Second = 1000000000"

definition unitMap :: "string \<Rightarrow> int option" where
  "unitMap =
     map_of
       [(''ns'', 1), (''us'', 1000), ([CHR 0xC2, CHR 0xB5, CHR ''s''], 1000),
        ([CHR 0xCE, CHR 0xBC, CHR ''s''], 1000), (''ms'', 1000000), (''s'', Second),
        (''m'', 60 * Second), (''h'', 3600 * Second)]"

text \<open>\<open>leadingInt\<close>: None when the number exceeds \<open>2 ^ 63\<close>.\<close>

fun leadingInt :: "int \<Rightarrow> string \<Rightarrow> (int \<times> string) option" where
  "leadingInt x [] = Some (x, [])"
| "leadingInt x (c # s) =
     (case digit_val c of
        None \<Rightarrow> Some (x, c # s)
      | Some d \<Rightarrow>
          if x > 2 ^ 63 div 10 then None
          else let y = 10 * x + int d in if y > 2 ^ 63 then None else leadingInt y s)"

text \<open>\<open>leadingFraction\<close>: digits, the power of ten they are over, and the rest.\<close>

fun leadingFraction :: "bool \<Rightarrow> int \<Rightarrow> f64 \<Rightarrow> string \<Rightarrow> int \<times> f64 \<times> string" where
  "leadingFraction over x sc [] = (x, sc, [])"
| "leadingFraction over x sc (c # s) =
     (case digit_val c of
        None \<Rightarrow> (x, sc, c # s)
      | Some d \<Rightarrow>
          if over \<or> x > (2 ^ 63 - 1) div 10 then leadingFraction True x sc s
          else let y = 10 * x + int d
               in if y > 2 ^ 63 then leadingFraction True x sc s
                  else leadingFraction False y (f64_mult sc (f64_of_int 10)) s)"

definition not_unit :: "char \<Rightarrow> bool" where
  "not_unit c \<longleftrightarrow> c = CHR ''.'' \<or> is_digit c"

text \<open>One number with its unit: the sum so far and the rest of the text.\<close>

definition duration_part :: "int \<Rightarrow> string \<Rightarrow> (int \<times> string) option" where
  "duration_part d s =
     (if s = '''' \<or> \<not> not_unit (hd s) then None
      else case leadingInt 0 s of
          None \<Rightarrow> None
        | Some (v, s1) \<Rightarrow>
            (let pre = (length s \<noteq> length s1);
                 (f, sc, s2) = (if HasPrefix s1 ''.'' then leadingFraction False 0 (f64_of_int 1) (tl s1)
                                else (0, f64_of_int 1, s1));
                 post = (HasPrefix s1 ''.'' \<and> length (tl s1) \<noteq> length s2);
                 u = takeWhile (\<lambda>c. \<not> not_unit c) s2
             in if \<not> pre \<and> \<not> post then None
                else if u = '''' then None
                else case unitMap u of
                    None \<Rightarrow> None
                  | Some unit \<Rightarrow>
                      if v > 2 ^ 63 div unit then None
                      else
                        (let w = v * unit;
                             w = (if f > 0
                                  then w + int64_of_f64 (\<lambda>_. 0)
                                    (f64_mult (f64_of_int f) (f64_divide (f64_of_int unit) sc))
                                  else w);
                             t = (d + w) mod 2 ^ 64
                         in if w > 2 ^ 63 \<or> t > 2 ^ 63 then None
                            else Some (t, drop (length u) s2))))"

text \<open>The loop takes at least one byte in each turn, so as much fuel as there are bytes is enough.\<close>

fun duration_loop :: "nat \<Rightarrow> int \<Rightarrow> string \<Rightarrow> int option" where
  "duration_loop n d [] = Some d"
| "duration_loop 0 d (c # s) = None"
| "duration_loop (Suc n) d (c # s) =
     (case duration_part d (c # s) of None \<Rightarrow> None | Some (d', r) \<Rightarrow> duration_loop n d' r)"

definition ParseDuration :: "string \<Rightarrow> int option" where
  "ParseDuration s0 =
     (let (neg, s) = cut_sign s0
      in if s = ''0'' then Some 0
         else if s = '''' then None
         else case duration_loop (length s) 0 s of
             None \<Rightarrow> None
           | Some d \<Rightarrow> if neg then Some (- d) else if d > 2 ^ 63 - 1 then None else Some d)"


section \<open>Whole numbers are exact\<close>

lemma bit_len_bounds: "n > 0 \<Longrightarrow> 2 ^ bit_len n \<le> 2 * n \<and> n < 2 ^ bit_len n"
proof (induction n rule: bit_len.induct)
  case (1 n)
  show ?case
  proof (cases "n div 2 = 0")
    case True
    with 1(2) have "n = 1" by simp
    then show ?thesis by (simp add: bit_len.simps [of "Suc 0"] bit_len.simps [of 0])
  next
    case False
    with 1 have "2 ^ bit_len (n div 2) \<le> 2 * (n div 2)" "n div 2 < 2 ^ bit_len (n div 2)" by auto
    moreover have "bit_len n = Suc (bit_len (n div 2))" using 1(2) by (simp add: bit_len.simps [of n])
    ultimately show ?thesis by auto
  qed
qed

text \<open>The logarithm is not above 52 when the quotient is below \<open>2 ^ 53\<close>.\<close>

lemma floor_log2_le:
  assumes "0 < num" "0 < den" "num < 2 ^ 53 * den"
  shows "floor_log2 num den \<le> 52"
proof (rule ccontr)
  assume "\<not> floor_log2 num den \<le> 52"
  then have big: "floor_log2 num den \<ge> 53" by simp
  define d where "d = int (bit_len num) - int (bit_len den)"
  have log: "floor_log2 num den = (if den * 2 ^ nat d \<le> num then d else d - 1)" if "d \<ge> 0"
    using that by (cases "d = 0") (auto simp: floor_log2_def scale2_def d_def [symmetric] Let_def)
  have "d \<ge> 53"
  proof (rule ccontr)
    assume "\<not> d \<ge> 53"
    moreover have "floor_log2 num den \<le> d"
      unfolding floor_log2_def d_def Let_def by (simp split: prod.split)
    ultimately show False using big by simp
  qed
  then have "den * 2 ^ 53 \<le> num"
  proof (cases "den * 2 ^ nat d \<le> num")
    case True
    have "den * 2 ^ 53 \<le> den * 2 ^ nat d"
      using \<open>d \<ge> 53\<close> by (intro mult_left_mono power_increasing) auto
    with True show ?thesis by (rule order_trans [rotated])
  next
    case False
    with log \<open>d \<ge> 53\<close> big have "d \<ge> 54" by simp
    then obtain k where k: "nat d = Suc k" "k \<ge> 53" by (cases "nat d") auto
    have "bit_len num = bit_len den + Suc k" using k(1) \<open>d \<ge> 54\<close> unfolding d_def by linarith
    then have "2 ^ bit_len den * 2 ^ k * 2 \<le> 2 * num"
      using bit_len_bounds [OF assms(1)] by (simp add: power_add mult_ac)
    then have "2 ^ bit_len den * 2 ^ k \<le> num" by simp
    moreover have "den * 2 ^ 53 \<le> 2 ^ bit_len den * 2 ^ k"
      using bit_len_bounds [OF assms(2)] k(2) by (intro mult_mono power_increasing) auto
    ultimately show ?thesis by linarith
  qed
  with assms(3) show False by (simp add: mult.commute)
qed

lemma div_even_exact: "d > 0 \<Longrightarrow> div_even (q * d) d = q"
  by (simp add: div_even_def Let_def)

text \<open>The float that stands for a whole number.\<close>

definition is_whole :: "f64 \<Rightarrow> nat \<Rightarrow> bool" where
  "is_whole x n \<longleftrightarrow> (\<exists>k. x = Fin (int (n * 2 ^ k)) (- int k))"

lemma round_whole:
  assumes "n < 2 ^ 53" and "den > 0"
  shows "is_whole (round_f64 False (n * den) den) n"
proof (cases "n = 0")
  case True
  then show ?thesis by (auto simp: round_f64_def is_whole_def intro: exI [of _ 0])
next
  case False
  define e where "e = max (- 1074) (floor_log2 (n * den) den - 52)"
  have "floor_log2 (n * den) den \<le> 52"
    using assms False by (intro floor_log2_le) auto
  then have "e \<le> 0" by (simp add: e_def)
  define k where "k = nat (- e)"
  have e: "e = - int k" using \<open>e \<le> 0\<close> by (simp add: k_def)
  have "div_even (n * den * 2 ^ k) den = n * 2 ^ k"
    using div_even_exact [OF assms(2), of "n * 2 ^ k"] by (simp add: mult_ac)
  moreover have "\<not> (e \<ge> 0 \<and> n * 2 ^ k * 2 ^ nat e \<ge> 2 ^ 1024)"
  proof
    assume a: "e \<ge> 0 \<and> n * 2 ^ k * 2 ^ nat e \<ge> 2 ^ 1024"
    then have "k = 0" using e by simp
    with a have "(2::nat) ^ 1024 \<le> n" using e by simp
    moreover have "(2::nat) ^ 53 \<le> 2 ^ 1024" by (rule power_increasing) simp_all
    ultimately show False using assms(1) by linarith
  qed
  ultimately have "round_f64 False (n * den) den = Fin (int (n * 2 ^ k)) (- int k)"
    using False assms(2)
    by (simp add: round_f64_def e_def [symmetric] Let_def scale2_def e)
  then show ?thesis unfolding is_whole_def by blast
qed

lemma f64_of_int_whole: "0 \<le> i \<Longrightarrow> i < 2 ^ 53 \<Longrightarrow> is_whole (f64_of_int i) (nat i)"
  using round_whole [of "nat i" 1] by (simp add: f64_of_int_def nat_less_iff)

lemma f64_mult_whole:
  assumes "is_whole x m" "is_whole y n" "m * n < 2 ^ 53"
  shows "is_whole (f64_mult x y) (m * n)"
proof -
  obtain j k where xy: "x = Fin (int (m * 2 ^ j)) (- int j)" "y = Fin (int (n * 2 ^ k)) (- int k)"
    using assms(1,2) by (auto simp: is_whole_def)
  have prod: "nat \<bar>int (m * 2 ^ j) * int (n * 2 ^ k)\<bar> = m * n * 2 ^ (j + k)"
    by (simp add: power_add nat_mult_distrib nat_power_eq)
  have shift: "nat (int k + int j) = j + k" by simp
  have pos: "\<not> int (a * 2 ^ b) < 0" for a b :: nat
    by (simp only: of_nat_less_0_iff not_False_eq_True)
  have "f64_mult x y = round_f64 False (m * n * 2 ^ (j + k)) (2 ^ (j + k))"
  proof (cases "int j \<le> - int k")
    case True
    then have "j = 0" "k = 0" by linarith+
    then show ?thesis
      unfolding xy f64_mult_def using pos [of m j] pos [of n k]
      by (simp add: scale2_def Let_def nat_mult_distrib)
  next
    case False
    then show ?thesis
      unfolding xy f64_mult_def using pos [of m j] pos [of n k] prod shift
      by (simp add: scale2_def Let_def add.commute)
  qed
  then show ?thesis using round_whole [OF assms(3), of "2 ^ (j + k)"] by simp
qed

lemma int64_of_whole:
  assumes "is_whole x n" and "n < 2 ^ 53"
  shows "int64_of_f64 oob x = int n" and "\<not> f64_neg x"
proof -
  obtain k where x: "x = Fin (int (n * 2 ^ k)) (- int k)" using assms(1) by (auto simp: is_whole_def)
  have pos: "\<not> int (n * 2 ^ k) < 0" by (simp only: of_nat_less_0_iff not_False_eq_True)
  have "f64_trunc (int (n * 2 ^ k)) (- int k) = int n"
    unfolding f64_trunc_def Let_def using pos by (cases "k = 0") simp_all
  with assms(2) show "int64_of_f64 oob x = int n"
    by (simp add: x int64_of_f64_def i64_bounds)
  show "\<not> f64_neg x" unfolding x f64_neg_def using pos by simp
qed

lemma lower_digit: "is_digit c \<Longrightarrow> lower_char c = c"
  by (auto simp: is_digit_def digit_val_def lower_char_def Let_def split: if_splits)

lemma mantissa_loop_digits:
  "parse_digits m s = Some n \<Longrightarrow> s \<noteq> '''' \<or> any \<Longrightarrow> mantissa_loop 10 False m f any s = (n, f, True, '''')"
proof (induction s arbitrary: m any)
  case (Cons c s)
  then obtain d where d: "digit_val c = Some d" "parse_digits (10 * m + d) s = Some n"
    by (auto split: option.splits)
  have "c \<noteq> CHR ''_''" "c \<noteq> CHR ''.''" using d(1) by (auto simp: digit_val_def)
  moreover have "unhex c = Some d" "d < 10" using d(1) by (auto simp: digit_val_def unhex_def Let_def split: if_splits)
  ultimately show ?case using Cons.IH [OF d(2), of True] by simp
qed simp

lemma ParseFloat_digits:
  assumes "n < 2 ^ 53"
  shows "\<exists>x. ParseFloat (format_nat n) = Some x \<and> is_whole x n"
proof -
  let ?s = "format_nat n"
  have dig: "is_digit c" if "c \<in> set ?s" for c using format_nat_no_sign that by blast
  have ne: "c \<notin> set ?s" if "\<not> is_digit c" for c using dig that by blast
  have low: "map lower_char ?s = ?s"
    by (rule map_idI) (use dig lower_digit in blast)
  have signs: "CHR ''-'' \<notin> set ?s" "CHR ''+'' \<notin> set ?s" "CHR ''i'' \<notin> set ?s" "CHR ''n'' \<notin> set ?s"
    "CHR ''x'' \<notin> set ?s" "CHR ''_'' \<notin> set ?s"
    by (rule ne; simp add: is_digit_def digit_val_def)+
  then have "\<not> HasPrefix ?s ''-''" "\<not> HasPrefix ?s ''+''"
    by (auto simp: HasPrefix_def prefix_def)
  then have sign: "cut_sign ?s = (False, ?s)" by (simp add: cut_sign_def)
  have words: "?s \<noteq> ''inf''" "?s \<noteq> ''infinity''" "?s \<noteq> ''nan''"
    using signs(3,4) by auto
  have "CHR ''x'' \<notin> set (take 2 (map lower_char ?s))"
    using signs(5) low set_take_subset by (metis subsetD)
  then have hexa: "map lower_char (take 2 ?s) \<noteq> ''0x''" by (auto simp: take_map)
  have loop: "mantissa_loop 10 False 0 0 False ?s = (n, 0, True, '''')"
    by (rule mantissa_loop_digits) (simp_all add: parse_format_nat)
  have "readFloat ?s = Some (False, False, n, 0, 0)"
    unfolding readFloat_def sign using hexa loop signs(6) by simp
  then have "ParseFloat ?s = (case round_f64 False n 1 of Inf _ \<Rightarrow> None | x \<Rightarrow> Some x)"
    unfolding ParseFloat_def low sign Let_def using words by (simp split: f64.split)
  moreover have "is_whole (round_f64 False n 1) n" using round_whole [OF assms, of 1] by simp
  ultimately show ?thesis by (auto simp: is_whole_def)
qed

end
