(* ===== verification/Dash.thy ===== *)
theory Dash
  imports Complex_Main Hls_Playlist Go_Float
begin

text \<open>
  dash.go: from a live DASH manifest to an HLS playlist. Reading the XML is the library
  dash-mpd's part; its result is an argument, of which the records below have the fields the
  code reads. Numbers have the width they have in the library.
\<close>

section \<open>The manifest\<close>

record timeline_entry =
  s_T :: "64 word option"
  s_D :: "64 word"
  s_R :: int

record segment_template =
  st_Media :: string
  st_Initialization :: string
  st_Timescale :: "32 word"
  st_StartNumber :: "32 word option"
  st_Timeline :: "timeline_entry list option"

record representation =
  rep_Id :: string
  rep_Bandwidth :: "32 word"
  rep_Template :: "segment_template option"
  rep_BaseURLs :: "string list"

record adaptation_set =
  as_ContentType :: string
  as_MimeType :: string
  as_Representations :: "representation list"
  as_Template :: "segment_template option"
  as_BaseURLs :: "string list"

record period =
  p_AdaptationSets :: "adaptation_set list"
  p_Template :: "segment_template option"
  p_BaseURLs :: "string list"

record mpd =
  m_Periods :: "period list"
  m_BaseURL :: "string list"

definition isMPD :: "string \<Rightarrow> bool" where
  "isMPD body =
     (let s = TrimSpace body
      in if HasPrefix s ''#EXTM3U'' then False
         else let head = (if length s > 256 then take 256 s else s)
              in HasPrefix s ''<?xml'' \<or> Contains head ''<MPD'')"

section \<open>Numbers in templates\<close>

fun in_base :: "nat \<Rightarrow> nat \<Rightarrow> string" where
  "in_base b n =
     (if n < b \<or> b < 2 then [char_of (if n < 10 then n + 48 else n + 87)]
      else in_base b (n div b) @ [char_of (if n mod b < 10 then n mod b + 48 else n mod b + 87)])"

declare in_base.simps [simp del]

text \<open>\<open>parsenum\<close> of the package fmt: the width and the rest; None when it is much too large.\<close>

fun parse_width :: "nat \<Rightarrow> bool \<Rightarrow> string \<Rightarrow> (nat \<times> bool \<times> string) option" where
  "parse_width n seen [] = Some (n, seen, [])"
| "parse_width n seen (c # s) =
     (case digit_val c of
        None \<Rightarrow> Some (n, seen, c # s)
      | Some d \<Rightarrow> if int n > 1000000 then None else parse_width (10 * n + d) True s)"

definition pad_number :: "bool \<Rightarrow> nat \<Rightarrow> string \<Rightarrow> string" where
  "pad_number zero wid s = replicate (wid - length s) (if zero then CHR ''0'' else CHR '' '') @ s"

text \<open>\<open>fmt.Sprintf\<close> of one unsigned number with a percent sign, digits and a letter.\<close>

definition sprintf_uint :: "string \<Rightarrow> nat \<Rightarrow> string" where
  "sprintf_uint format v =
     (let s = tl format;
          zero = HasPrefix s ''0'';
          body = dropWhile (\<lambda>c. c = CHR ''0'') s
      in case parse_width 0 False body of
           None \<Rightarrow> ''%!(NOVERB)%!(EXTRA uint64='' @ format_nat v @ '')''
         | Some (wid, seen, verb) \<Rightarrow>
             (let pad = (\<lambda>t. if seen then pad_number zero wid t else t)
              in if verb = ''d'' then pad (format_nat v)
                 else if verb = ''o'' then pad (in_base 8 v)
                 else if verb = ''x'' then pad (in_base 16 v)
                 else if verb = ''X'' then pad (map upper_char (in_base 16 v))
                 else ''%!'' @ verb @ ''(uint64='' @ pad (format_nat v) @ '')''))"

definition formatDASHNumber :: "nat \<Rightarrow> string \<Rightarrow> string" where
  "formatDASHNumber v format = (if format = '''' then format_nat v else sprintf_uint format v)"

section \<open>Templates\<close>

text \<open>
  A match of \<open>dashTemplateRe\<close> at the front of a text: the identifier (empty for the two dollar
  signs), the format and the rest.
\<close>

definition identifiers :: "string list" where
  "identifiers = [''RepresentationID'', ''Bandwidth'', ''Number'', ''Time'']"

definition match_format :: "string \<Rightarrow> (string \<times> string) option" where
  "match_format s =
     (if HasPrefix s ''%'' then
        (let ds = takeWhile is_digit (tl s); r = drop (length ds) (tl s)
         in if ds \<noteq> '''' \<and> r \<noteq> '''' \<and> hd r \<in> set ''diouxX''
            then Some (''%'' @ ds @ [hd r], tl r) else None)
      else None)"

definition cut_format :: "string \<Rightarrow> string \<times> string" where
  "cut_format s = (case match_format s of Some p \<Rightarrow> p | None \<Rightarrow> ('''', s))"

definition match_template :: "string \<Rightarrow> (string \<times> string \<times> string) option" where
  "match_template s =
     (if HasPrefix s ''$$'' then Some ('''', '''', drop 2 s)
      else if HasPrefix s ''$'' then
        (case List.find (\<lambda>i. HasPrefix (tl s) i) identifiers of
           None \<Rightarrow> None
         | Some i \<Rightarrow>
             (let (format, r) = cut_format (drop (length i) (tl s))
              in if HasPrefix r ''$'' then Some (i, format, tl r) else None))
      else None)"

definition expand_identifier :: "string \<Rightarrow> 32 word \<Rightarrow> 64 word \<Rightarrow> 64 word \<Rightarrow> string \<Rightarrow> string \<Rightarrow> string" where
  "expand_identifier repID bandwidth number time i format =
     (if i = '''' then ''$''
      else if i = ''RepresentationID'' then repID
      else if i = ''Bandwidth'' then formatDASHNumber (unat bandwidth) format
      else if i = ''Number'' then formatDASHNumber (unat number) format
      else formatDASHNumber (unat time) format)"

lemma match_template_shorter:
  assumes "match_template s = Some (i, format, r)"
  shows "length r < length s"
proof (cases "HasPrefix s ''$$''")
  case True
  with assms show ?thesis by (auto simp: match_template_def HasPrefix_def prefix_def)
next
  case False
  then have s: "s \<noteq> ''''" using assms by (auto simp: match_template_def HasPrefix_def)
  have "length (snd p) \<le> length t" if "match_format t = Some p" for t p
    using that by (cases t) (auto simp: match_format_def Let_def split: if_splits)
  then have format: "length (snd (cut_format t)) \<le> length t" for t
    by (cases "match_format t") (auto simp: cut_format_def)
  have "\<exists>n. r = tl (snd (cut_format (drop n (tl s))))"
    using False assms
    by (auto simp: match_template_def case_prod_beta split: if_splits option.splits)
  then obtain n where "r = tl (snd (cut_format (drop n (tl s))))" ..
  then have "length r \<le> length (drop n (tl s))"
    using format [of "drop n (tl s)"] by simp
  with s show ?thesis by (cases s) auto
qed

function expand_with :: "(string \<Rightarrow> string \<Rightarrow> string) \<Rightarrow> string \<Rightarrow> string" where
  "expand_with f s =
     (case match_template s of
        Some (i, format, r) \<Rightarrow> f i format @ expand_with f r
      | None \<Rightarrow> (case s of [] \<Rightarrow> [] | c # t \<Rightarrow> c # expand_with f t))"
  by pat_completeness auto
termination
  by (relation "measure (\<lambda>(f, s). length s)") (auto dest: match_template_shorter)

declare expand_with.simps [simp del]

definition expandDASHTemplate :: "string \<Rightarrow> string \<Rightarrow> 32 word \<Rightarrow> 64 word \<Rightarrow> 64 word \<Rightarrow> string" where
  "expandDASHTemplate tmpl repID bandwidth number time =
     expand_with (expand_identifier repID bandwidth number time) tmpl"

section \<open>Segments\<close>

record segTiming =
  seg_number :: "64 word"
  seg_time :: "64 word"
  seg_d :: "64 word"

text \<open>The inner loop: as many turns as given, with the number and the time they leave.\<close>

fun repeat_loop :: "nat \<Rightarrow> 64 word \<Rightarrow> 64 word \<Rightarrow> 64 word \<Rightarrow> segTiming list \<times> 64 word \<times> 64 word" where
  "repeat_loop 0 d num t = ([], num, t)"
| "repeat_loop (Suc n) d num t =
     (let (out, num', t') = repeat_loop n d (num + 1) (t + d)
      in (\<lparr>seg_number = num, seg_time = t, seg_d = d\<rparr> # out, num', t'))"

fun timeline_loop :: "timeline_entry list \<Rightarrow> 64 word \<Rightarrow> 64 word \<Rightarrow> segTiming list" where
  "timeline_loop [] num t = []"
| "timeline_loop (s # ss) num t =
     (let t0 = (case s_T s of Some x \<Rightarrow> x | None \<Rightarrow> t);
          reps = (if s_R s < 0 then 0 else s_R s);
          (out, num', t') = repeat_loop (nat (reps + 1)) (s_D s) num t0
      in out @ timeline_loop ss num' t')"

definition timelineSegments :: "timeline_entry list \<Rightarrow> 64 word \<Rightarrow> segTiming list" where
  "timelineSegments timeline startNumber = timeline_loop timeline startNumber 0"

section \<open>Selection\<close>

definition isVideo :: "adaptation_set \<Rightarrow> bool" where
  "isVideo as \<longleftrightarrow> EqualFold (as_ContentType as) ''video'' \<or> HasPrefix (ToLower (as_MimeType as)) ''video/''"

text \<open>The best video representation and the first of all so far.\<close>

type_synonym choice = "(representation \<times> adaptation_set) option"

fun rep_loop :: "adaptation_set \<Rightarrow> representation list \<Rightarrow> choice \<Rightarrow> choice \<Rightarrow> choice \<times> choice" where
  "rep_loop as [] best fallback = (best, fallback)"
| "rep_loop as (r # rs) best fallback =
     (let fallback = (if fallback = None then Some (r, as) else fallback);
          better = (case best of None \<Rightarrow> True | Some (b, _) \<Rightarrow> rep_Bandwidth r > rep_Bandwidth b)
      in rep_loop as rs (if isVideo as \<and> better then Some (r, as) else best) fallback)"

fun set_loop :: "adaptation_set list \<Rightarrow> choice \<Rightarrow> choice \<Rightarrow> choice \<times> choice" where
  "set_loop [] best fallback = (best, fallback)"
| "set_loop (as # rest) best fallback =
     (let (best, fallback) = rep_loop as (as_Representations as) best fallback
      in set_loop rest best fallback)"

definition selectVideoRepresentation :: "period \<Rightarrow> choice" where
  "selectVideoRepresentation p =
     (let (best, fallback) = set_loop (p_AdaptationSets p) None None
      in if best \<noteq> None then best else fallback)"

fun firstSegmentTemplate :: "segment_template option list \<Rightarrow> segment_template option" where
  "firstSegmentTemplate [] = None"
| "firstSegmentTemplate (t # ts) = (if t \<noteq> None then t else firstSegmentTemplate ts)"

fun base_loop :: "string list list \<Rightarrow> url \<Rightarrow> url" where
  "base_loop [] base = base"
| "base_loop (level # levels) base =
     (if level = [] then base_loop levels base
      else case Parse (TrimSpace (hd level)) of
          None \<Rightarrow> base_loop levels base
        | Some ref \<Rightarrow> base_loop levels (ResolveReference base ref))"

definition resolveDASHBase ::
  "string \<Rightarrow> mpd \<Rightarrow> period \<Rightarrow> adaptation_set \<Rightarrow> representation \<Rightarrow> go_error + url" where
  "resolveDASHBase manifestURL m p as rep =
     (case Parse manifestURL of
        None \<Rightarrow> Inl (Msg ''parse manifest url'')
      | Some base \<Rightarrow> Inr (base_loop [m_BaseURL m, p_BaseURLs p, as_BaseURLs as, rep_BaseURLs rep] base))"

section \<open>The playlist\<close>

definition f64_less :: "f64 \<Rightarrow> f64 \<Rightarrow> bool" where
  "f64_less x y =
     (case (x, y) of
        (Fin m e, Fin n k) \<Rightarrow> m * 2 ^ nat (e - min e k) < n * 2 ^ nat (k - min e k)
      | (Fin _ _, Inf neg) \<Rightarrow> \<not> neg
      | (Inf neg, Fin _ _) \<Rightarrow> neg
      | (Inf a, Inf b) \<Rightarrow> a \<and> \<not> b
      | _ \<Rightarrow> False)"

text \<open>\<open>math.Ceil\<close>, of a number that is not negative.\<close>

definition f64_ceil :: "f64 \<Rightarrow> f64" where
  "f64_ceil x =
     (case x of
        Fin m e \<Rightarrow> if e \<ge> 0 then x else Fin (- ((- m) div 2 ^ nat (- e))) 0
      | _ \<Rightarrow> x)"

text \<open>The verb \<open>%.3f\<close>: exact, ties to even.\<close>

definition format_f3 :: "f64 \<Rightarrow> string" where
  "format_f3 x =
     (case x of
        NaN \<Rightarrow> ''NaN''
      | Inf neg \<Rightarrow> (if neg then ''-Inf'' else ''+Inf'')
      | Fin m e \<Rightarrow>
          (let (num, den) = scale2 e (nat \<bar>m\<bar>) 1;
               q = div_even (num * 1000) den
           in (if m < 0 then ''-'' else '''') @ format_nat (q div 1000) @ ''.'' @
              pad_number True 3 (format_nat (q mod 1000))))"

definition duration_of :: "64 word \<Rightarrow> 64 word \<Rightarrow> f64" where
  "duration_of d timescale = f64_divide (f64_of_int (uint d)) (f64_of_int (uint timescale))"

fun max_duration :: "64 word \<Rightarrow> segTiming list \<Rightarrow> f64 \<Rightarrow> f64" where
  "max_duration timescale [] best = best"
| "max_duration timescale (sg # segs) best =
     (let d = duration_of (seg_d sg) timescale
      in max_duration timescale segs (if f64_less best d then d else best))"

text \<open>The verb \<open>%q\<close> on ASCII text.\<close>

definition quote_char :: "char \<Rightarrow> string" where
  "quote_char c =
     (if c = CHR 0x22 \<or> c = CHR 0x5C then [CHR 0x5C, c]
      else if of_char c < (32 :: nat) \<or> of_char c = (127 :: nat) then
        (case map_of [(7 :: nat, CHR ''a''), (8, CHR ''b''), (9, CHR ''t''), (10, CHR ''n''), (11, CHR ''v''),
                      (12, CHR ''f''), (13, CHR ''r'')] (of_char c) of
           Some e \<Rightarrow> [CHR 0x5C, e]
         | None \<Rightarrow> [CHR 0x5C, CHR ''x''] @ pad_number True 2 (in_base 16 (of_char c)))
      else [c])"

definition go_quote :: "string \<Rightarrow> string" where
  "go_quote s = [quot] @ concat (map quote_char s) @ [quot]"

definition segment_lines :: "(string \<Rightarrow> string) \<Rightarrow> url \<Rightarrow> segment_template \<Rightarrow> representation \<Rightarrow> 64 word \<Rightarrow> segTiming \<Rightarrow> string" where
  "segment_lines seg base st rep timescale sg =
     (let mediaPath = expandDASHTemplate (st_Media st) (rep_Id rep) (rep_Bandwidth rep) (seg_number sg) (seg_time sg)
      in ''#EXTINF:'' @ format_f3 (duration_of (seg_d sg) timescale) @ '','' @ [newline] @
         seg (resolveRef base mediaPath) @ [newline])"

definition playlist_head :: "(f64 \<Rightarrow> int) \<Rightarrow> (string \<Rightarrow> string) \<Rightarrow> url \<Rightarrow> segment_template \<Rightarrow> representation \<Rightarrow> 64 word \<Rightarrow> 64 word \<Rightarrow> segTiming list \<Rightarrow> string" where
  "playlist_head oob seg base st rep timescale startNumber segs =
     ''#EXTM3U'' @ [newline] @ ''#EXT-X-VERSION:7'' @ [newline] @
     ''#EXT-X-TARGETDURATION:'' @ FormatInt (int64_of_f64 oob (f64_ceil (max_duration timescale segs (Fin 0 0)))) @ [newline] @
     ''#EXT-X-MEDIA-SEQUENCE:'' @ format_nat (unat startNumber) @ [newline] @
     (if st_Initialization st \<noteq> '''' then
        ''#EXT-X-MAP:URI='' @
        go_quote (seg (resolveRef base (expandDASHTemplate (st_Initialization st) (rep_Id rep) (rep_Bandwidth rep) 0 0))) @
        [newline]
      else '''')"

definition dashToHLS ::
  "(f64 \<Rightarrow> int) \<Rightarrow> go_error + mpd \<Rightarrow> string \<Rightarrow> (string \<Rightarrow> string) \<Rightarrow> go_error + string" where
  "dashToHLS oob parsed manifestURL seg =
     (case parsed of
        Inl e \<Rightarrow> Inl (Msg ''parse mpd'')
      | Inr m \<Rightarrow>
          (case m_Periods m of
             [] \<Rightarrow> Inl (Msg ''mpd has no periods'')
           | p # _ \<Rightarrow>
               (case selectVideoRepresentation p of
                  None \<Rightarrow> Inl (Msg ''mpd has no usable representation'')
                | Some (rep, as) \<Rightarrow>
                    (case firstSegmentTemplate [rep_Template rep, as_Template as, p_Template p] of
                       None \<Rightarrow> Inl (Msg ''unsupported mpd: no SegmentTemplate media'')
                     | Some st \<Rightarrow>
                         if st_Media st = '''' then Inl (Msg ''unsupported mpd: no SegmentTemplate media'')
                         else (case st_Timeline st of
                             None \<Rightarrow> Inl (Msg ''unsupported mpd: only SegmentTimeline live is supported'')
                           | Some timeline \<Rightarrow>
                               (case resolveDASHBase manifestURL m p as rep of
                                  Inl e \<Rightarrow> Inl e
                                | Inr base \<Rightarrow>
                                    (let timescale = (if st_Timescale st = 0 then 1 else ucast (st_Timescale st));
                                         startNumber = (case st_StartNumber st of Some n \<Rightarrow> ucast n | None \<Rightarrow> 1);
                                         segs = timelineSegments timeline startNumber
                                     in if segs = [] then Inl (Msg ''mpd timeline produced no segments'')
                                        else Inr (playlist_head oob seg base st rep timescale startNumber segs @
                                               concat (map (segment_lines seg base st rep timescale) segs)))))))))"


section \<open>Properties\<close>

lemma repeat_loop_segments:
  "repeat_loop n d num t =
     (map (\<lambda>i. \<lparr>seg_number = num + of_nat i, seg_time = t + of_nat i * d, seg_d = d\<rparr>) [0..<n],
      num + of_nat n, t + of_nat n * d)"
proof (induction n arbitrary: num t)
  case (Suc n)
  have "[0..<Suc n] = 0 # map Suc [0..<n]" by (simp add: map_Suc_upt upt_conv_Cons del: upt_Suc)
  then show ?case by (simp add: Suc.IH comp_def algebra_simps del: upt_Suc)
qed simp

definition entry_count :: "timeline_entry \<Rightarrow> nat" where
  "entry_count s = nat (max (s_R s) 0 + 1)"

text \<open>The time an entry starts at: its own, or the end of the segments before it.\<close>

fun entry_start :: "timeline_entry list \<Rightarrow> 64 word \<Rightarrow> 64 word list" where
  "entry_start [] t = []"
| "entry_start (s # ss) t =
     (let t0 = (case s_T s of Some x \<Rightarrow> x | None \<Rightarrow> t)
      in t0 # entry_start ss (t0 + of_nat (entry_count s) * s_D s))"

lemma timeline_loop_expand:
  "map (\<lambda>sg. (seg_time sg, seg_d sg)) (timeline_loop ss num t) =
     concat (map (\<lambda>(s, t0). map (\<lambda>i. (t0 + of_nat i * s_D s, s_D s)) [0..<entry_count s])
               (zip ss (entry_start ss t)))"
  "map seg_number (timeline_loop ss num t) =
     map (\<lambda>i. num + of_nat i) [0..<sum_list (map entry_count ss)]"
proof -
  show "map (\<lambda>sg. (seg_time sg, seg_d sg)) (timeline_loop ss num t) =
     concat (map (\<lambda>(s, t0). map (\<lambda>i. (t0 + of_nat i * s_D s, s_D s)) [0..<entry_count s])
               (zip ss (entry_start ss t)))"
  proof (induction ss arbitrary: num t)
    case (Cons s ss)
    have "nat ((if s_R s < 0 then 0 else s_R s) + 1) = entry_count s"
      by (simp add: entry_count_def)
    with Cons show ?case by (simp add: Let_def repeat_loop_segments comp_def)
  qed simp
  show "map seg_number (timeline_loop ss num t) =
     map (\<lambda>i. num + of_nat i) [0..<sum_list (map entry_count ss)]"
  proof (induction ss arbitrary: num t)
    case (Cons s ss)
    have count: "nat ((if s_R s < 0 then 0 else s_R s) + 1) = entry_count s"
      by (simp add: entry_count_def)
    have "[0..<entry_count s + m] = [0..<entry_count s] @ map (\<lambda>i. entry_count s + i) [0..<m]" for m
      by (induction m) simp_all
    then show ?case
      using Cons.IH count by (simp add: Let_def repeat_loop_segments comp_def add.assoc)
  qed simp
qed


text \<open>
  timelineSegments: the segments are numbered consecutively from the start number, and an
  entry stands for one segment and its repetitions, each of which begins where the one before
  it ends; an entry without a time of its own begins at the end of the entry before it. An
  open repeat counts as none.
\<close>

theorem timeline_segments_contiguous:
  "map seg_number (timelineSegments ss startNumber) =
     map (\<lambda>i. startNumber + of_nat i) [0..<sum_list (map entry_count ss)] \<and>
   map (\<lambda>sg. (seg_time sg, seg_d sg)) (timelineSegments ss startNumber) =
     concat (map (\<lambda>(s, t0). map (\<lambda>i. (t0 + of_nat i * s_D s, s_D s)) [0..<entry_count s])
               (zip ss (entry_start ss 0))) \<and>
   entry_count \<lparr>s_T = t, s_D = d, s_R = - 1\<rparr> = 1"
  unfolding timelineSegments_def by (simp add: timeline_loop_expand entry_count_def)

text \<open>The parts a template is put together from.\<close>

datatype piece = Lit string | Dollar | Ident string string

fun render :: "piece \<Rightarrow> string" where
  "render (Lit s) = s"
| "render Dollar = ''$$''"
| "render (Ident i format) = ''$'' @ i @ format @ ''$''"

fun piece_value :: "(string \<Rightarrow> string \<Rightarrow> string) \<Rightarrow> piece \<Rightarrow> string" where
  "piece_value f (Lit s) = s"
| "piece_value f Dollar = f '''' ''''"
| "piece_value f (Ident i format) = f i format"

definition format_ok :: "string \<Rightarrow> bool" where
  "format_ok format \<longleftrightarrow>
     format = '''' \<or>
     (\<exists>ds v. format = ''%'' @ ds @ [v] \<and> ds \<noteq> '''' \<and> list_all is_digit ds \<and> v \<in> set ''diouxX'')"

fun piece_ok :: "piece \<Rightarrow> bool" where
  "piece_ok (Lit s) \<longleftrightarrow> CHR ''$'' \<notin> set s"
| "piece_ok Dollar \<longleftrightarrow> True"
| "piece_ok (Ident i format) \<longleftrightarrow> i \<in> set identifiers \<and> format_ok format"

lemma expand_with_simps:
  "expand_with f [] = []"
  "c \<noteq> CHR ''$'' \<Longrightarrow> expand_with f (c # t) = c # expand_with f t"
  "match_template s = Some (i, format, r) \<Longrightarrow> expand_with f s = f i format @ expand_with f r"
  by (simp_all add: expand_with.simps [of f "[]"] expand_with.simps [of f "c # t"] expand_with.simps [of f s]
      match_template_def HasPrefix_def)

lemma expand_with_literal: "CHR ''$'' \<notin> set s \<Longrightarrow> expand_with f (s @ t) = s @ expand_with f t"
  by (induction s) (auto simp: expand_with_simps)

lemma takeWhile_digits: "list_all is_digit ds \<Longrightarrow> \<not> is_digit c \<Longrightarrow> takeWhile is_digit (ds @ c # t) = ds"
  by (induction ds) simp_all

lemma cut_format_ok:
  assumes "format_ok format"
  shows "cut_format (format @ ''$'' @ t) = (format, ''$'' @ t)"
proof (cases "format = ''''")
  case True
  then show ?thesis by (simp add: cut_format_def match_format_def HasPrefix_def)
next
  case False
  with assms obtain ds v where f: "format = ''%'' @ ds @ [v]" "ds \<noteq> ''''" "list_all is_digit ds" "v \<in> set ''diouxX''"
    unfolding format_ok_def by blast
  have "\<not> is_digit v" using f(4) by (auto simp: is_digit_def digit_val_def)
  then show ?thesis
    using f takeWhile_digits [OF f(3), of v "''$'' @ t"]
    by (simp add: cut_format_def match_format_def HasPrefix_def Let_def)
qed

lemma match_template_ident:
  assumes "i \<in> set identifiers" and "format_ok format"
  shows "match_template (''$'' @ i @ format @ ''$'' @ t) = Some (i, format, t)"
proof -
  have "i = ''RepresentationID'' \<or> i = ''Bandwidth'' \<or> i = ''Number'' \<or> i = ''Time''"
    using assms(1) by (simp add: identifiers_def)
  then have "List.find (HasPrefix (i @ u)) identifiers = Some i" "\<not> HasPrefix (''$'' @ i @ u) ''$$''" for u
    by (elim disjE; simp add: identifiers_def HasPrefix_def)+
  then show ?thesis
    using cut_format_ok [OF assms(2), of t] by (simp add: match_template_def HasPrefix_def)
qed

text \<open>
  expandDASHTemplate: a template put together from text without dollar signs, pairs of
  dollar signs and identifiers, with or without a width, expands to the text, a dollar sign
  for a pair and the value of each identifier, in this order.
\<close>

theorem dash_template_expansion:
  assumes "\<forall>p\<in>set ps. piece_ok p"
  shows "expandDASHTemplate (concat (map render ps)) repID bandwidth number time =
           concat (map (piece_value (expand_identifier repID bandwidth number time)) ps)"
  using assms unfolding expandDASHTemplate_def
proof (induction ps)
  case (Cons p ps)
  then show ?case
  proof (cases p)
    case (Lit s)
    with Cons show ?thesis by (simp add: expand_with_literal)
  next
    case Dollar
    have "match_template (''$$'' @ t) = Some ('''', '''', t)" for t
      by (simp add: match_template_def HasPrefix_def)
    with Cons Dollar show ?thesis by (simp add: expand_with_simps(3))
  next
    case (Ident i format)
    with Cons show ?thesis
      using expand_with_simps(3) [OF match_template_ident [of i format "concat (map render ps)"]] by simp
  qed
qed (simp add: expand_with_simps)

theorem dash_template_expansion_witness:
  "expandDASHTemplate ''seg-$Number%05d$.m4s'' ''v'' 1 42 0 = ''seg-00042.m4s''"
proof -
  let ?ps = "[Lit ''seg-'', Ident ''Number'' ''%05d'', Lit ''.m4s'']"
  have "format_ok ''%05d''"
    unfolding format_ok_def by (intro disjI2 exI [of _ "''05''"] exI [of _ "CHR ''d''"]) (simp add: is_digit_def digit_val_def)
  then have "\<forall>p\<in>set ?ps. piece_ok p" by (simp add: identifiers_def)
  note e = dash_template_expansion [OF this, of "''v''" 1 42 0]
  have "sprintf_uint ''%05d'' 42 = ''00042''" by code_simp
  then have v: "expand_identifier ''v'' 1 42 0 ''Number'' ''%05d'' = ''00042''"
    by (simp add: expand_identifier_def formatDASHNumber_def)
  show ?thesis using e by (simp add: v)
qed


text \<open>The value of a finite number as a real.\<close>

definition fval :: "int \<Rightarrow> int \<Rightarrow> real" where
  "fval m e = of_int m * 2 powi e"

lemma fval_scale: "k \<le> e \<Longrightarrow> fval m e = of_int (m * 2 ^ nat (e - k)) * 2 powi k"
  by (simp add: fval_def power_int_diff power_int_add [symmetric] flip: power_int_of_nat)

lemma f64_less_fval: "f64_less (Fin m e) (Fin n k) \<longleftrightarrow> fval m e < fval n k"
proof -
  let ?j = "min e k"
  have "fval m e = of_int (m * 2 ^ nat (e - ?j)) * 2 powi ?j" "fval n k = of_int (n * 2 ^ nat (k - ?j)) * 2 powi ?j"
    by (rule fval_scale; simp)+
  then have "fval m e < fval n k \<longleftrightarrow> m * 2 ^ nat (e - ?j) < n * 2 ^ nat (k - ?j)"
    by (simp only: mult_less_cancel_right_pos zero_less_power_int zero_less_numeral of_int_less_iff)
  then show ?thesis by (simp add: f64_less_def)
qed

lemma f64_not_less_trans: "f64_less x y \<Longrightarrow> \<not> f64_less x z \<Longrightarrow> \<not> f64_less y z"
proof (cases "\<exists>m e n k l j. x = Fin m e \<and> y = Fin n k \<and> z = Fin l j")
  case True
  then show "f64_less x y \<Longrightarrow> \<not> f64_less x z \<Longrightarrow> \<not> f64_less y z"
    by (auto simp: f64_less_fval)
next
  case False
  then show "f64_less x y \<Longrightarrow> \<not> f64_less x z \<Longrightarrow> \<not> f64_less y z"
    by (cases x; cases y; cases z) (auto simp: f64_less_def)
qed

lemma fval_ceil: "e < 0 \<Longrightarrow> fval m e \<le> fval (- ((- m) div 2 ^ nat (- e))) 0"
proof -
  assume e: "e < 0"
  have "fval m e = of_int m / 2 ^ nat (- e)"
    using e by (simp add: fval_def power_int_def field_simps)
  also have "\<dots> \<le> of_int \<lceil>(of_int m :: real) / of_int (2 ^ nat (- e))\<rceil>" by simp
  also have "\<lceil>(of_int m :: real) / of_int (2 ^ nat (- e))\<rceil> = - ((- m) div 2 ^ nat (- e))"
    by (rule ceiling_divide_eq_div)
  finally show ?thesis by (simp add: fval_def)
qed

lemma f64_ceil_not_less: "\<not> f64_less x z \<Longrightarrow> \<not> f64_less (f64_ceil x) z"
proof (cases "\<exists>m e n k. x = Fin m e \<and> e < 0 \<and> z = Fin n k")
  case True
  then obtain m e n k where x: "x = Fin m e" "e < 0" "z = Fin n k" by blast
  assume "\<not> f64_less x z"
  with x fval_ceil [OF x(2), of m] show ?thesis
    by (simp add: f64_less_fval f64_ceil_def)
next
  case False
  then show "\<not> f64_less x z \<Longrightarrow> \<not> f64_less (f64_ceil x) z"
    by (cases x; cases z) (auto simp: f64_less_def f64_ceil_def)
qed

lemma max_duration_ge_best: "\<not> f64_less best z \<Longrightarrow> \<not> f64_less (max_duration ts segs best) z"
  by (induction segs arbitrary: best) (auto simp: Let_def dest: f64_not_less_trans)

lemma f64_less_irrefl: "\<not> f64_less x x"
  by (cases x) (auto simp: f64_less_def)

lemma max_duration_upper:
  "sg \<in> set segs \<Longrightarrow> \<not> f64_less (max_duration ts segs best) (duration_of (seg_d sg) ts)"
proof (induction segs arbitrary: best)
  case (Cons s segs)
  show ?case
  proof (cases "sg = s")
    case True
    then show ?thesis
      by (auto simp: Let_def intro!: max_duration_ge_best f64_less_irrefl)
  next
    case False
    with Cons show ?thesis by (simp add: Let_def)
  qed
qed simp

text \<open>The candidates in the order of the loops.\<close>

definition candidates :: "(adaptation_set \<Rightarrow> bool) \<Rightarrow> adaptation_set list \<Rightarrow> (representation \<times> adaptation_set) list" where
  "candidates P ass = concat (map (\<lambda>as. if P as then map (\<lambda>r. (r, as)) (as_Representations as) else []) ass)"

definition better :: "choice \<Rightarrow> representation \<times> adaptation_set \<Rightarrow> choice" where
  "better best c =
     (case best of
        None \<Rightarrow> Some c
      | Some (b, as) \<Rightarrow> if rep_Bandwidth (fst c) > rep_Bandwidth b then Some c else best)"

definition first_of :: "choice \<Rightarrow> representation \<times> adaptation_set \<Rightarrow> choice" where
  "first_of fallback c = (if fallback = None then Some c else fallback)"

lemma rep_loop_fold:
  "rep_loop as rs best fallback =
     (if isVideo as then foldl better best (map (\<lambda>r. (r, as)) rs) else best,
      foldl first_of fallback (map (\<lambda>r. (r, as)) rs))"
  by (induction rs arbitrary: best fallback)
    (auto simp: Let_def better_def first_of_def split: option.splits)

lemma set_loop_fold:
  "set_loop ass best fallback =
     (foldl better best (candidates isVideo ass), foldl first_of fallback (candidates (\<lambda>_. True) ass))"
  by (induction ass arbitrary: best fallback) (simp_all add: rep_loop_fold candidates_def)

lemma foldl_first_of:
  "foldl first_of fb cs = (if fb = None then (case cs of [] \<Rightarrow> None | c # _ \<Rightarrow> Some c) else fb)"
  by (induction cs arbitrary: fb) (auto simp: first_of_def split: list.split)

lemma foldl_better:
  "foldl better (Some b) cs = Some c \<Longrightarrow>
   (c = b \<or> c \<in> set cs) \<and> (\<forall>d\<in>insert b (set cs). rep_Bandwidth (fst d) \<le> rep_Bandwidth (fst c))"
proof (induction cs arbitrary: b)
  case (Cons d cs)
  define b' where "b' = (if rep_Bandwidth (fst d) > rep_Bandwidth (fst b) then d else b)"
  have "better (Some b) d = Some b'" by (cases b) (simp add: better_def b'_def)
  then have "foldl better (Some b') cs = Some c" using Cons.prems by simp
  from Cons.IH [OF this] show ?case by (auto simp: b'_def split: if_splits)
qed simp

lemma foldl_better_some: "foldl better (Some b) cs \<noteq> None"
  by (induction cs arbitrary: b) (simp_all add: better_def split: prod.splits)

lemma select_spec:
  assumes "selectVideoRepresentation p = Some c"
  shows "if candidates isVideo (p_AdaptationSets p) \<noteq> []
         then c \<in> set (candidates isVideo (p_AdaptationSets p)) \<and>
              (\<forall>d\<in>set (candidates isVideo (p_AdaptationSets p)). rep_Bandwidth (fst d) \<le> rep_Bandwidth (fst c))
         else \<exists>cs. candidates (\<lambda>_. True) (p_AdaptationSets p) = c # cs"
proof (cases "candidates isVideo (p_AdaptationSets p)")
  case Nil
  with assms show ?thesis
    by (simp add: selectVideoRepresentation_def set_loop_fold foldl_first_of split: list.splits)
next
  case (Cons v vs)
  then have "foldl better (Some v) vs = Some c"
    using assms foldl_better_some [of v vs]
    by (auto simp: selectVideoRepresentation_def set_loop_fold better_def)
  from foldl_better [OF this] Cons show ?thesis by auto
qed




end
