(* ===== verification/Sha256.thy ===== *)
theory Sha256
  imports Go_Strings
begin

text \<open>
  SHA-256 (FIPS 180-4) as Go's \<open>crypto/sha256\<close> computes it, on 32-bit words, and the lower
  case hexadecimal encoding of \<open>encoding/hex\<close>: what the cache ids and the digests of request
  headers are made of.
\<close>

unbundle bit_operations_syntax

section \<open>Hexadecimal\<close>

definition hex_digit :: "nat \<Rightarrow> char" where
  "hex_digit n = char_of (if n < 10 then n + 48 else n + 87)"

definition hex :: "byte list \<Rightarrow> string" where
  "hex bs = concat (map (\<lambda>b. [hex_digit (unat b div 16), hex_digit (unat b mod 16)]) bs)"

definition bytes_of :: "string \<Rightarrow> byte list" where
  "bytes_of s = map of_char s"

section \<open>The compression function\<close>

text \<open>
  The round constants are the first 32 bits of the fractional parts of the cube roots of the
  64 primes up to 311; the roots of the scaled primes are found by bisection.
\<close>

definition small_primes :: "int list" where
  "small_primes =
     filter (\<lambda>n. list_all (\<lambda>d. \<not> d dvd n) [2..n - 1]) [2..311]"

fun cube_root :: "nat \<Rightarrow> int \<Rightarrow> int \<Rightarrow> int" where
  "cube_root 0 r x = r"
| "cube_root (Suc k) r x =
     (let r' = r + 2 ^ k in cube_root k (if r' * r' * r' \<le> x then r' else r) x)"

definition round_constants :: "32 word list" where
  "round_constants = map (\<lambda>p. word_of_int (cube_root 40 0 (p * 2 ^ 96))) small_primes"

text \<open>The initial state: likewise the square roots of the first eight primes.\<close>

fun square_root :: "nat \<Rightarrow> int \<Rightarrow> int \<Rightarrow> int" where
  "square_root 0 r x = r"
| "square_root (Suc k) r x =
     (let r' = r + 2 ^ k in square_root k (if r' * r' \<le> x then r' else r) x)"

definition root_word :: "nat \<Rightarrow> 32 word" where
  "root_word i = word_of_int (square_root 40 0 (small_primes ! i * 2 ^ 64))"

definition Ch :: "32 word \<Rightarrow> 32 word \<Rightarrow> 32 word \<Rightarrow> 32 word" where
  "Ch x y z = (x AND y) XOR (NOT x AND z)"

definition Maj :: "32 word \<Rightarrow> 32 word \<Rightarrow> 32 word \<Rightarrow> 32 word" where
  "Maj x y z = (x AND y) XOR (x AND z) XOR (y AND z)"

definition big0 :: "32 word \<Rightarrow> 32 word" where
  "big0 x = word_rotr 2 x XOR word_rotr 13 x XOR word_rotr 22 x"

definition big1 :: "32 word \<Rightarrow> 32 word" where
  "big1 x = word_rotr 6 x XOR word_rotr 11 x XOR word_rotr 25 x"

definition small0 :: "32 word \<Rightarrow> 32 word" where
  "small0 x = word_rotr 7 x XOR word_rotr 18 x XOR drop_bit 3 x"

definition small1 :: "32 word \<Rightarrow> 32 word" where
  "small1 x = word_rotr 17 x XOR word_rotr 19 x XOR drop_bit 10 x"

text \<open>The message schedule: \<open>n\<close> further words behind the ones there are.\<close>

fun schedule :: "nat \<Rightarrow> 32 word list \<Rightarrow> 32 word list" where
  "schedule 0 ws = ws"
| "schedule (Suc n) ws =
     (let m = length ws
      in schedule n
           (ws @ [small1 (ws ! (m - 2)) + ws ! (m - 7) + small0 (ws ! (m - 15)) + ws ! (m - 16)]))"

record sha_state =
  h_a :: "32 word"
  h_b :: "32 word"
  h_c :: "32 word"
  h_d :: "32 word"
  h_e :: "32 word"
  h_f :: "32 word"
  h_g :: "32 word"
  h_h :: "32 word"

definition sha_init :: sha_state where
  "sha_init =
     \<lparr>h_a = root_word 0, h_b = root_word 1, h_c = root_word 2, h_d = root_word 3,
      h_e = root_word 4, h_f = root_word 5, h_g = root_word 6, h_h = root_word 7\<rparr>"

definition sha_round :: "32 word \<times> 32 word \<Rightarrow> sha_state \<Rightarrow> sha_state" where
  "sha_round kw h =
     (let t1 = h_h h + big1 (h_e h) + Ch (h_e h) (h_f h) (h_g h) + fst kw + snd kw;
          t2 = big0 (h_a h) + Maj (h_a h) (h_b h) (h_c h)
      in \<lparr>h_a = t1 + t2, h_b = h_a h, h_c = h_b h, h_d = h_c h,
          h_e = h_d h + t1, h_f = h_e h, h_g = h_f h, h_h = h_g h\<rparr>)"

definition word_be :: "byte list \<Rightarrow> 32 word" where
  "word_be bs = foldl (\<lambda>w b. push_bit 8 w OR ucast b) 0 bs"

fun chunks :: "nat \<Rightarrow> 'a list \<Rightarrow> 'a list list" where
  "chunks n [] = []"
| "chunks n (x # xs) =
     (if n = 0 then [] else take n (x # xs) # chunks n (drop (n - 1) xs))"

definition sha_block :: "sha_state \<Rightarrow> byte list \<Rightarrow> sha_state" where
  "sha_block h block =
     (let ws = schedule 48 (map word_be (chunks 4 block));
          r = fold sha_round (zip round_constants ws) h
      in \<lparr>h_a = h_a h + h_a r, h_b = h_b h + h_b r, h_c = h_c h + h_c r, h_d = h_d h + h_d r,
          h_e = h_e h + h_e r, h_f = h_f h + h_f r, h_g = h_g h + h_g r, h_h = h_h h + h_h r\<rparr>)"

section \<open>The digest\<close>

definition be_bytes64 :: "64 word \<Rightarrow> byte list" where
  "be_bytes64 w = map (\<lambda>i. ucast (drop_bit (56 - 8 * i) w)) [0..<8]"

definition sha_pad :: "byte list \<Rightarrow> byte list" where
  "sha_pad msg =
     msg @ [0x80] @ replicate ((119 - length msg mod 64) mod 64) 0 @ be_bytes64 (8 * of_nat (length msg))"

definition word_bytes :: "32 word \<Rightarrow> byte list" where
  "word_bytes w = [ucast (drop_bit 24 w), ucast (drop_bit 16 w), ucast (drop_bit 8 w), ucast w]"

definition Sum256 :: "byte list \<Rightarrow> byte list" where
  "Sum256 msg =
     (let h = foldl sha_block sha_init (chunks 64 (sha_pad msg))
      in concat (map word_bytes [h_a h, h_b h, h_c h, h_d h, h_e h, h_f h, h_g h, h_h h]))"

lemma length_Sum256: "length (Sum256 msg) = 32"
  by (simp add: Sum256_def Let_def word_bytes_def)

lemma length_hex: "length (hex bs) = 2 * length bs"
  by (induction bs) (simp_all add: hex_def)

definition is_hex :: "char \<Rightarrow> bool" where
  "is_hex c = (let n = (of_char c :: nat) in 97 \<le> n \<and> n \<le> 102 \<or> 48 \<le> n \<and> n \<le> 57)"

lemma hex_digit_hex: "n < 16 \<Longrightarrow> is_hex (hex_digit n)"
  by (auto simp: is_hex_def hex_digit_def Let_def)

lemma hex_chars: "list_all is_hex (hex bs)"
proof -
  have "is_hex (hex_digit (unat b div 16))" "is_hex (hex_digit (unat b mod 16))" for b :: byte
  proof -
    have "unat b < 2 ^ LENGTH(8)" by (rule unsigned_less)
    then show "is_hex (hex_digit (unat b div 16))" by (intro hex_digit_hex) simp
    show "is_hex (hex_digit (unat b mod 16))" by (intro hex_digit_hex) simp
  qed
  then show ?thesis by (induction bs) (simp_all add: hex_def)
qed

end
