(* ===== verification/Aes_Gcm.thy ===== *)
theory Aes_Gcm
  imports Sha256
begin

text \<open>
  AES-256 in Galois/counter mode (FIPS 197, SP 800-38D) as \<open>crypto/aes\<close> and
  \<open>crypto/cipher\<close> provide it to token.go: nonces of 12 bytes, tags of 16 bytes, no
  additional data. \<open>Seal\<close> and \<open>Open\<close> are the operations of \<open>cipher.AEAD\<close>; the length
  limits of the mode (64 GiB for a message), beyond which Go panics, are left out.
\<close>

unbundle bit_operations_syntax

section \<open>The block cipher\<close>

definition aes_sbox :: "byte list" where
  "aes_sbox =
     [
      0x63, 0x7c, 0x77, 0x7b, 0xf2, 0x6b, 0x6f, 0xc5, 0x30, 0x01, 0x67, 0x2b, 0xfe, 0xd7, 0xab, 0x76,
      0xca, 0x82, 0xc9, 0x7d, 0xfa, 0x59, 0x47, 0xf0, 0xad, 0xd4, 0xa2, 0xaf, 0x9c, 0xa4, 0x72, 0xc0,
      0xb7, 0xfd, 0x93, 0x26, 0x36, 0x3f, 0xf7, 0xcc, 0x34, 0xa5, 0xe5, 0xf1, 0x71, 0xd8, 0x31, 0x15,
      0x04, 0xc7, 0x23, 0xc3, 0x18, 0x96, 0x05, 0x9a, 0x07, 0x12, 0x80, 0xe2, 0xeb, 0x27, 0xb2, 0x75,
      0x09, 0x83, 0x2c, 0x1a, 0x1b, 0x6e, 0x5a, 0xa0, 0x52, 0x3b, 0xd6, 0xb3, 0x29, 0xe3, 0x2f, 0x84,
      0x53, 0xd1, 0x00, 0xed, 0x20, 0xfc, 0xb1, 0x5b, 0x6a, 0xcb, 0xbe, 0x39, 0x4a, 0x4c, 0x58, 0xcf,
      0xd0, 0xef, 0xaa, 0xfb, 0x43, 0x4d, 0x33, 0x85, 0x45, 0xf9, 0x02, 0x7f, 0x50, 0x3c, 0x9f, 0xa8,
      0x51, 0xa3, 0x40, 0x8f, 0x92, 0x9d, 0x38, 0xf5, 0xbc, 0xb6, 0xda, 0x21, 0x10, 0xff, 0xf3, 0xd2,
      0xcd, 0x0c, 0x13, 0xec, 0x5f, 0x97, 0x44, 0x17, 0xc4, 0xa7, 0x7e, 0x3d, 0x64, 0x5d, 0x19, 0x73,
      0x60, 0x81, 0x4f, 0xdc, 0x22, 0x2a, 0x90, 0x88, 0x46, 0xee, 0xb8, 0x14, 0xde, 0x5e, 0x0b, 0xdb,
      0xe0, 0x32, 0x3a, 0x0a, 0x49, 0x06, 0x24, 0x5c, 0xc2, 0xd3, 0xac, 0x62, 0x91, 0x95, 0xe4, 0x79,
      0xe7, 0xc8, 0x37, 0x6d, 0x8d, 0xd5, 0x4e, 0xa9, 0x6c, 0x56, 0xf4, 0xea, 0x65, 0x7a, 0xae, 0x08,
      0xba, 0x78, 0x25, 0x2e, 0x1c, 0xa6, 0xb4, 0xc6, 0xe8, 0xdd, 0x74, 0x1f, 0x4b, 0xbd, 0x8b, 0x8a,
      0x70, 0x3e, 0xb5, 0x66, 0x48, 0x03, 0xf6, 0x0e, 0x61, 0x35, 0x57, 0xb9, 0x86, 0xc1, 0x1d, 0x9e,
      0xe1, 0xf8, 0x98, 0x11, 0x69, 0xd9, 0x8e, 0x94, 0x9b, 0x1e, 0x87, 0xe9, 0xce, 0x55, 0x28, 0xdf,
      0x8c, 0xa1, 0x89, 0x0d, 0xbf, 0xe6, 0x42, 0x68, 0x41, 0x99, 0x2d, 0x0f, 0xb0, 0x54, 0xbb, 0x16
     ]"

definition sub_byte :: "byte \<Rightarrow> byte" where
  "sub_byte b = aes_sbox ! unat b"

definition xor_bytes :: "byte list \<Rightarrow> byte list \<Rightarrow> byte list" where
  "xor_bytes xs ys = map2 (XOR) xs ys"

definition xtime :: "byte \<Rightarrow> byte" where
  "xtime b = push_bit 1 b XOR (if bit b 7 then 0x1b else 0)"

definition shift_rows :: "byte list \<Rightarrow> byte list" where
  "shift_rows s = map (\<lambda>i. s ! i) [0, 5, 10, 15, 4, 9, 14, 3, 8, 13, 2, 7, 12, 1, 6, 11]"

definition mix_column :: "byte list \<Rightarrow> byte list" where
  "mix_column c =
     map (\<lambda>i. xtime (c ! i) XOR (xtime (c ! ((i + 1) mod 4)) XOR c ! ((i + 1) mod 4))
              XOR c ! ((i + 2) mod 4) XOR c ! ((i + 3) mod 4)) [0..<4]"

definition mix_columns :: "byte list \<Rightarrow> byte list" where
  "mix_columns s = concat (map mix_column (chunks 4 s))"

text \<open>The key schedule: \<open>n\<close> further words of four bytes, with the round constant of next use.\<close>

fun expand_key :: "nat \<Rightarrow> byte \<Rightarrow> byte list list \<Rightarrow> byte list list" where
  "expand_key 0 rcon ws = ws"
| "expand_key (Suc n) rcon ws =
     (let m = length ws; t = last ws;
          t' = (if m mod 8 = 0
                then xor_bytes (map sub_byte (tl t @ [hd t])) [rcon, 0, 0, 0]
                else if m mod 8 = 4 then map sub_byte t else t)
      in expand_key n (if m mod 8 = 0 then xtime rcon else rcon)
           (ws @ [xor_bytes (ws ! (m - 8)) t']))"

definition round_keys :: "byte list \<Rightarrow> byte list list" where
  "round_keys key = map concat (chunks 4 (expand_key 52 1 (chunks 4 key)))"

definition aes_block :: "byte list list \<Rightarrow> byte list \<Rightarrow> byte list" where
  "aes_block rks blk =
     (let s0 = xor_bytes blk (hd rks);
          s1 = foldl (\<lambda>s rk. xor_bytes (mix_columns (shift_rows (map sub_byte s))) rk) s0
                 (butlast (tl rks))
      in xor_bytes (shift_rows (map sub_byte s1)) (last rks))"

section \<open>The mode\<close>

definition be_word128 :: "byte list \<Rightarrow> 128 word" where
  "be_word128 bs = foldl (\<lambda>w b. push_bit 8 w OR ucast b) 0 bs"

definition be_bytes128 :: "128 word \<Rightarrow> byte list" where
  "be_bytes128 w = map (\<lambda>i. ucast (drop_bit (120 - 8 * i) w)) [0..<16]"

text \<open>Multiplication in GF(2^128) with the bit order of the mode.\<close>

definition gf_mult :: "128 word \<Rightarrow> 128 word \<Rightarrow> 128 word" where
  "gf_mult x y =
     fst (foldl (\<lambda>(z, v) i.
            (if bit x (127 - i) then z XOR v else z,
             if bit v 0 then drop_bit 1 v XOR push_bit 120 0xe1 else drop_bit 1 v))
          (0, y) [0..<128])"

definition ghash :: "128 word \<Rightarrow> byte list \<Rightarrow> 128 word" where
  "ghash h bs = foldl (\<lambda>y b. gf_mult (y XOR be_word128 b) h) 0 (chunks 16 bs)"

definition counter_block :: "byte list \<Rightarrow> nat \<Rightarrow> byte list" where
  "counter_block nonce n = nonce @ word_bytes (word_of_nat n)"

definition key_stream :: "byte list list \<Rightarrow> byte list \<Rightarrow> nat \<Rightarrow> byte" where
  "key_stream rks nonce p = aes_block rks (counter_block nonce (p div 16 + 2)) ! (p mod 16)"

definition ctr_crypt :: "byte list list \<Rightarrow> byte list \<Rightarrow> byte list \<Rightarrow> byte list" where
  "ctr_crypt rks nonce bs = map (\<lambda>(p, b). b XOR key_stream rks nonce p) (enumerate 0 bs)"

definition gcm_tag :: "byte list list \<Rightarrow> byte list \<Rightarrow> byte list \<Rightarrow> byte list" where
  "gcm_tag rks nonce c =
     (let h = be_word128 (aes_block rks (replicate 16 0));
          padded = c @ replicate ((16 - length c mod 16) mod 16) 0;
          s = ghash h (padded @ replicate 8 0 @ be_bytes64 (8 * of_nat (length c)))
      in be_bytes128 (s XOR be_word128 (aes_block rks (counter_block nonce 1))))"

text \<open>
  \<open>Seal\<close> and \<open>Open\<close> of the AEAD made from a key, the sealed text without the nonce.
\<close>

definition gcm_seal :: "byte list \<Rightarrow> byte list \<Rightarrow> byte list \<Rightarrow> byte list" where
  "gcm_seal key nonce p =
     (let rks = round_keys key; c = ctr_crypt rks nonce p in c @ gcm_tag rks nonce c)"

definition gcm_open :: "byte list \<Rightarrow> byte list \<Rightarrow> byte list \<Rightarrow> byte list option" where
  "gcm_open key nonce sealed =
     (if length sealed < 16 then None
      else
        (let rks = round_keys key; n = length sealed - 16; c = take n sealed
         in if drop n sealed = gcm_tag rks nonce c then Some (ctr_crypt rks nonce c) else None))"

section \<open>The interface\<close>

text \<open>
  What token.go relies on of its AEAD: opening a sealed text gives the plaintext back, and
  what can be opened is the sealed text of its plaintext.
\<close>

locale aead =
  fixes seal :: "byte list \<Rightarrow> byte list \<Rightarrow> byte list"
    and opn :: "byte list \<Rightarrow> byte list \<Rightarrow> byte list option"
  assumes open_seal: "opn nonce (seal nonce p) = Some p"
    and seal_open: "opn nonce c = Some p \<Longrightarrow> c = seal nonce p"
begin

lemma seal_inject: "seal nonce p = seal nonce q \<longleftrightarrow> p = q"
  by (metis open_seal option.inject)

lemma open_Some: "opn nonce c = Some p \<longleftrightarrow> c = seal nonce p"
  using open_seal seal_open by blast

end

lemma length_ctr [simp]: "length (ctr_crypt rks nonce bs) = length bs"
  by (simp add: ctr_crypt_def)

lemma ctr_nth: "i < length bs \<Longrightarrow> ctr_crypt rks nonce bs ! i = bs ! i XOR key_stream rks nonce i"
  by (simp add: ctr_crypt_def nth_enumerate_eq)

lemma ctr_ctr [simp]: "ctr_crypt rks nonce (ctr_crypt rks nonce bs) = bs"
  by (rule nth_equalityI) (simp_all add: ctr_nth xor.assoc)

lemma length_tag [simp]: "length (gcm_tag rks nonce c) = 16"
  by (simp add: gcm_tag_def be_bytes128_def Let_def)

interpretation gcm: aead "gcm_seal key" "gcm_open key" for key
proof
  show "gcm_open key nonce (gcm_seal key nonce p) = Some p" for nonce p
    by (simp add: gcm_open_def gcm_seal_def Let_def)
  show "c = gcm_seal key nonce p" if "gcm_open key nonce c = Some p" for nonce c p
  proof -
    let ?n = "length c - 16" and ?rks = "round_keys key"
    have "drop ?n c = gcm_tag ?rks nonce (take ?n c)" "p = ctr_crypt ?rks nonce (take ?n c)"
      using that by (auto simp: gcm_open_def Let_def split: if_splits)
    then show ?thesis
      unfolding gcm_seal_def Let_def using append_take_drop_id [of ?n c] by simp
  qed
qed

end
