(* ===== verification/Token.thy ===== *)
theory Token
  imports Aes_Gcm
begin

text \<open>
  token.go: the tokens in which the manifest rewriter hides upstream URLs. A token is the
  unpadded URL-safe base64 of a nonce and a sealed text, the plaintext of which is a
  64-bit expiry in seconds and the payload. Time is in nanoseconds, as \<open>time.Duration\<close>.
\<close>

section \<open>base64.RawURLEncoding\<close>

definition b64_char :: "nat \<Rightarrow> char" where
  "b64_char n =
     char_of (if n < 26 then n + 65 else if n < 52 then n + 71 else if n < 62 then n - 4
              else if n = 62 then 45 else 95)"

definition b64_val :: "char \<Rightarrow> nat option" where
  "b64_val c =
     (let n = (of_char c :: nat)
      in if 65 \<le> n \<and> n \<le> 90 then Some (n - 65)
         else if 97 \<le> n \<and> n \<le> 122 then Some (n - 71)
         else if 48 \<le> n \<and> n \<le> 57 then Some (n + 4)
         else if n = 45 then Some 62
         else if n = 95 then Some 63
         else None)"

fun b64_digits :: "nat list \<Rightarrow> nat list" where
  "b64_digits [] = []"
| "b64_digits [x] = [x div 4, x mod 4 * 16]"
| "b64_digits [x, y] = [x div 4, x mod 4 * 16 + y div 16, y mod 16 * 4]"
| "b64_digits (x # y # z # r) =
     x div 4 # (x mod 4 * 16 + y div 16) # (y mod 16 * 4 + z div 64) # z mod 64 # b64_digits r"

text \<open>The quanta of the decoder: two or three digits left over are one or two bytes.\<close>

fun b64_bytes :: "nat list \<Rightarrow> nat list option" where
  "b64_bytes [] = Some []"
| "b64_bytes [a] = None"
| "b64_bytes [a, b] = Some [a * 4 + b div 16]"
| "b64_bytes [a, b, c] = Some [a * 4 + b div 16, b mod 16 * 16 + c div 4]"
| "b64_bytes (a # b # c # d # r) =
     (case b64_bytes r of
        None \<Rightarrow> None
      | Some bs \<Rightarrow> Some ([a * 4 + b div 16, b mod 16 * 16 + c div 4, c mod 4 * 64 + d] @ bs))"

fun b64_vals :: "string \<Rightarrow> nat list option" where
  "b64_vals [] = Some []"
| "b64_vals (c # s) =
     (case (b64_val c, b64_vals s) of (Some v, Some vs) \<Rightarrow> Some (v # vs) | _ \<Rightarrow> None)"

definition EncodeToString :: "byte list \<Rightarrow> string" where
  "EncodeToString bs = map b64_char (b64_digits (map unat bs))"

text \<open>The decoder skips line feeds and carriage returns.\<close>

definition DecodeString :: "string \<Rightarrow> byte list option" where
  "DecodeString s =
     (case b64_vals (filter (\<lambda>c. c \<noteq> CHR 0x0A \<and> c \<noteq> CHR 0x0D) s) of
        None \<Rightarrow> None
      | Some vs \<Rightarrow> map_option (map word_of_nat) (b64_bytes vs))"

section \<open>Signing and verifying\<close>

definition be_uint64 :: "byte list \<Rightarrow> 64 word" where
  "be_uint64 bs = foldl (\<lambda>w b. push_bit 8 w OR ucast b) 0 bs"

definition string_of :: "byte list \<Rightarrow> string" where
  "string_of bs = map (\<lambda>b. char_of (unat b)) bs"

definition nonceSize :: nat where
  "nonceSize = 12"

text \<open>The key of a signer: the digest of the secret, or random bytes for an empty one.\<close>

definition NewURLSigner :: "string \<Rightarrow> go_error + byte list \<Rightarrow> go_error + byte list" where
  "NewURLSigner secret random =
     (if secret = '''' then random else Inr (Sum256 (bytes_of secret)))"

definition unixSeconds :: "int \<Rightarrow> int" where
  "unixSeconds t = t div 1000000000"

definition tokenExpiry :: "int \<Rightarrow> int \<Rightarrow> int" where
  "tokenExpiry now ttl = (if ttl > 0 then unixSeconds (now + ttl) else 0)"

definition Sign :: "byte list \<Rightarrow> byte list \<Rightarrow> int \<Rightarrow> string \<Rightarrow> int \<Rightarrow> string" where
  "Sign key nonce now payload ttl =
     (let plaintext = be_bytes64 (word_of_int (tokenExpiry now ttl)) @ bytes_of payload
      in EncodeToString (nonce @ gcm_seal key nonce plaintext))"

definition Verify :: "byte list \<Rightarrow> int \<Rightarrow> string \<Rightarrow> go_error + string" where
  "Verify key now token =
     (case DecodeString token of
        None \<Rightarrow> Inl (Msg ''decode token'')
      | Some raw \<Rightarrow>
          if length raw < nonceSize then Inl (Msg ''token too short'')
          else (case gcm_open key (take nonceSize raw) (drop nonceSize raw) of
              None \<Rightarrow> Inl (Msg ''open token'')
            | Some plaintext \<Rightarrow>
                if length plaintext < 8 then Inl (Msg ''token payload too short'')
                else (let expiry = sint (be_uint64 (take 8 plaintext))
                      in if expiry \<noteq> 0 \<and> unixSeconds now > expiry
                         then Inl (Msg ''token expired'')
                         else Inr (string_of (drop 8 plaintext)))))"

section \<open>Lemmas\<close>

lemma b64_val_char: "n < 64 \<Longrightarrow> b64_val (b64_char n) = Some n"
  by (auto simp: b64_val_def b64_char_def Let_def)

lemma b64_char_no_newline: "n < 64 \<Longrightarrow> b64_char n \<noteq> CHR 0x0A \<and> b64_char n \<noteq> CHR 0x0D"
  using b64_val_char [of n] by (auto simp: b64_val_def Let_def)

lemma b64_digits_range: "\<forall>x\<in>set bs. x < 256 \<Longrightarrow> \<forall>d\<in>set (b64_digits bs). d < 64"
  by (induction bs rule: b64_digits.induct) auto

lemma b64_bytes_digits: "\<forall>x\<in>set bs. x < 256 \<Longrightarrow> b64_bytes (b64_digits bs) = Some bs"
  by (induction bs rule: b64_digits.induct) auto

lemma b64_vals_chars: "\<forall>d\<in>set ds. d < 64 \<Longrightarrow> b64_vals (map b64_char ds) = Some ds"
  by (induction ds) (simp_all add: b64_val_char)

lemma Decode_Encode: "DecodeString (EncodeToString bs) = Some bs"
proof -
  have b: "\<forall>x\<in>set (map unat bs). x < 256"
  proof
    fix x assume "x \<in> set (map unat bs)"
    then obtain b :: byte where "x = unat b" by auto
    moreover have "unat b < 2 ^ LENGTH(8)" by (rule unsigned_less)
    ultimately show "x < 256" by simp
  qed
  let ?ds = "b64_digits (map unat bs)"
  have d: "\<forall>d\<in>set ?ds. d < 64" using b by (rule b64_digits_range)
  then have "filter (\<lambda>c. c \<noteq> CHR 0x0A \<and> c \<noteq> CHR 0x0D) (map b64_char ?ds) = map b64_char ?ds"
    by (auto simp: filter_id_conv b64_char_no_newline)
  then show ?thesis
    by (simp add: DecodeString_def EncodeToString_def b64_vals_chars [OF d] b64_bytes_digits [OF b]
        comp_def map_idI)
qed

interpretation b64: codec "\<lambda>_. True" EncodeToString DecodeString
  by unfold_locales (rule Decode_Encode)

lemma string_bytes [simp]: "string_of (bytes_of s) = s"
proof -
  have "unat (of_char c :: byte) = of_char c" for c
  proof -
    have "(of_char c :: nat) < 256" by simp
    then show ?thesis by (subst of_nat_of_char [symmetric]) (simp add: unat_of_nat)
  qed
  then show ?thesis by (simp add: string_of_def bytes_of_def comp_def map_idI)
qed

lemma split8: "(w :: 64 word) = push_bit 8 (drop_bit 8 w) OR ucast (ucast w :: byte)"
  by (rule bit_word_eqI) (auto simp: bit_simps)

lemma be_uint64_bytes [simp]: "be_uint64 (be_bytes64 w) = w"
proof -
  have z: "drop_bit 64 w = 0" by (rule bit_word_eqI) (auto simp: bit_simps)
  have s: "push_bit 8 (drop_bit (n + 8) w) OR ucast (ucast (drop_bit n w) :: byte) = drop_bit n w" for n
    using split8 [of "drop_bit n w"] by (simp add: add.commute)
  show ?thesis
    using s [of 0] s [of 8] s [of 16] s [of 24] s [of 32] s [of 40] s [of 48] s [of 56] z
    by (simp add: be_uint64_def be_bytes64_def upt_rec)
qed

lemma length_be_bytes64 [simp]: "length (be_bytes64 w) = 8"
  by (simp add: be_bytes64_def)

lemma sint_of_i64: "in_i64 i \<Longrightarrow> sint (word_of_int i :: 64 word) = i"
  using i64_word [of i] i64_id by simp

lemma bytes_string [simp]: "bytes_of (string_of bs) = bs"
proof -
  have "of_char (char_of (unat b) :: char) = b" for b :: byte
  proof -
    have "unat b < 2 ^ LENGTH(8)" by (rule unsigned_less)
    then have "of_char (char_of (unat b)) = unat b" by (simp add: of_char_of)
    then show ?thesis by (subst of_nat_of_char [symmetric]) simp
  qed
  then show ?thesis by (simp add: string_of_def bytes_of_def comp_def map_idI)
qed

lemma expiry_word:
  "in_i64 (tokenExpiry now ttl) \<Longrightarrow>
   sint (be_uint64 (be_bytes64 (word_of_int (tokenExpiry now ttl)))) = tokenExpiry now ttl"
  by (simp add: sint_of_i64)

section \<open>Properties\<close>

lemma Verify_Sign:
  assumes "length nonce = nonceSize" and "in_i64 (tokenExpiry t0 ttl)"
  shows "Verify key t1 (Sign key nonce t0 payload ttl) =
         (if ttl \<le> 0 \<or> tokenExpiry t0 ttl = 0 \<or> unixSeconds t1 \<le> unixSeconds (t0 + ttl)
          then Inr payload else Inl (Msg ''token expired''))"
proof -
  let ?p = "be_bytes64 (word_of_int (tokenExpiry t0 ttl)) @ bytes_of payload"
  let ?raw = "nonce @ gcm_seal key nonce ?p"
  have d: "DecodeString (Sign key nonce t0 payload ttl) = Some ?raw"
    by (simp add: Sign_def Let_def b64.dec_enc)
  have o: "gcm_open key (take nonceSize ?raw) (drop nonceSize ?raw) = Some ?p"
    using assms(1) by (simp add: gcm.open_seal)
  have e: "sint (be_uint64 (take 8 ?p)) = tokenExpiry t0 ttl" "drop 8 ?p = bytes_of payload"
    using expiry_word [OF assms(2)] by simp_all
  show ?thesis
    unfolding Verify_def d option.case o Let_def e using assms(1)
    by (auto simp: nonceSize_def tokenExpiry_def)
qed

text \<open>
  While they have not expired the tokens of a key are a codec of payloads; the ones of a
  fixed nonce and instant tell their payloads apart.
\<close>

definition opened :: "byte list \<Rightarrow> int \<Rightarrow> string \<Rightarrow> string option" where
  "opened key now t = (case Verify key now t of Inl _ \<Rightarrow> None | Inr payload \<Rightarrow> Some payload)"

definition token_live :: "byte list \<Rightarrow> int \<Rightarrow> int \<Rightarrow> int \<Rightarrow> bool" where
  "token_live nonce t0 ttl now \<longleftrightarrow>
     length nonce = nonceSize \<and> in_i64 (tokenExpiry t0 ttl) \<and>
     (ttl \<le> 0 \<or> tokenExpiry t0 ttl = 0 \<or> unixSeconds now \<le> unixSeconds (t0 + ttl))"

interpretation token: codec "\<lambda>_. token_live nonce t0 ttl now" "\<lambda>p. Sign key nonce t0 p ttl" "opened key now"
  for key nonce t0 ttl now
  by unfold_locales (auto simp: token_live_def opened_def Verify_Sign)

text \<open>
  C25. A token gives its payload back until it expires: verifying a signed token, with the same
  key, returns the payload as long as the clock has not passed the second of the expiry, and
  for ever when it was signed without a time to live; afterwards it is refused as expired.
\<close>

theorem token_roundtrip:
  assumes "length nonce = nonceSize" and "in_i64 (tokenExpiry t0 ttl)"
  shows "Verify key t1 (Sign key nonce t0 payload ttl) =
         (if ttl \<le> 0 \<or> tokenExpiry t0 ttl = 0 \<or> unixSeconds t1 \<le> unixSeconds (t0 + ttl)
          then Inr payload else Inl (Msg ''token expired''))"
  using assms by (rule Verify_Sign)

theorem token_roundtrip_witness:
  "Verify (replicate 32 7) 5000000000 (Sign (replicate 32 7) (replicate 12 1) 1000000000 ''http://a/'' 4000000000)
     = Inr ''http://a/'' \<and>
   Verify (replicate 32 7) 6000000000 (Sign (replicate 32 7) (replicate 12 1) 1000000000 ''http://a/'' 4000000000)
     = Inl (Msg ''token expired'')"
  using token_roundtrip [of "replicate 12 1" 1000000000 4000000000 "replicate 32 7"]
  by (simp add: nonceSize_def tokenExpiry_def unixSeconds_def i64_bounds)

text \<open>
  C18. Only sealed payloads are accepted: a token that verifies is the base64 of a nonce and
  of the sealing under this key and nonce of an expiry that has not passed and of exactly
  the payload returned, so a token made without the key would have to be a forgery of the
  AEAD.
\<close>

theorem token_authentic:
  assumes "Verify key now token = Inr payload"
  shows "\<exists>nonce ex. length nonce = nonceSize \<and> length ex = 8 \<and>
           DecodeString token = Some (nonce @ gcm_seal key nonce (ex @ bytes_of payload)) \<and>
           (sint (be_uint64 ex) = 0 \<or> unixSeconds now \<le> sint (be_uint64 ex))"
proof -
  obtain raw where raw: "DecodeString token = Some raw" "nonceSize \<le> length raw"
    using assms by (auto simp: Verify_def split: option.splits if_splits)
  obtain p where p: "gcm_open key (take nonceSize raw) (drop nonceSize raw) = Some p" "8 \<le> length p"
    using assms raw by (auto simp: Verify_def Let_def split: option.splits if_splits)
  have pay: "payload = string_of (drop 8 p)"
    and ex: "sint (be_uint64 (take 8 p)) = 0 \<or> unixSeconds now \<le> sint (be_uint64 (take 8 p))"
    using assms raw p by (auto simp: Verify_def Let_def split: if_splits)
  have "drop nonceSize raw = gcm_seal key (take nonceSize raw) p" using p(1) gcm.seal_open by blast
  moreover have "p = take 8 p @ bytes_of payload" by (simp add: pay)
  ultimately have "raw = take nonceSize raw @ gcm_seal key (take nonceSize raw) (take 8 p @ bytes_of payload)"
    by (metis append_take_drop_id)
  with raw p(2) ex show ?thesis
    by (intro exI [of _ "take nonceSize raw"] exI [of _ "take 8 p"]) simp
qed

theorem token_authentic_witness:
  "\<exists>nonce ex. length nonce = nonceSize \<and> length ex = 8 \<and>
     DecodeString (Sign (replicate 32 7) (replicate 12 1) 0 ''u'' 0) =
       Some (nonce @ gcm_seal (replicate 32 7) nonce (ex @ bytes_of ''u''))"
proof -
  let ?p = "be_bytes64 (word_of_int (tokenExpiry 0 0)) @ bytes_of ''u''"
  have d: "DecodeString (Sign (replicate 32 7) (replicate 12 1) 0 ''u'' 0) =
      Some (replicate 12 1 @ gcm_seal (replicate 32 7) (replicate 12 1) ?p)"
    by (simp add: Sign_def Let_def b64.dec_enc)
  have "Verify (replicate 32 7) 0 (Sign (replicate 32 7) (replicate 12 1) 0 ''u'' 0) = Inr ''u''"
    unfolding Verify_def d
    by (simp add: nonceSize_def gcm.open_seal tokenExpiry_def Let_def)
  from token_authentic [OF this] show ?thesis by blast
qed

text \<open>
  Not any change of a token is detected: the base64 decoder skips line feeds, so a token
  with a line feed added anywhere verifies exactly as the token without it.
\<close>

theorem token_malleable:
  "Verify key now (a @ CHR 0x0A # b) = Verify key now (a @ b)"
  by (simp add: Verify_def DecodeString_def)

end
