(* ===== verification/Upstream_Guard.thy ===== *)
theory Upstream_Guard
  imports Go_Url
begin

text \<open>
  The guard against server-side request forgery in jobs.go: \<open>guardUpstreamURL\<close> and
  \<open>isDisallowedIP\<close>, with the part of \<open>net/netip\<close> they use. An address is the list of its
  16-bit groups for IPv6 and the 32-bit word for IPv4; the zone of an IPv6 address plays no
  role. What the resolver answers for a name is an argument.
\<close>

section \<open>Addresses\<close>

datatype addr = V4 "32 word" | V6 "16 word list"

text \<open>\<open>parseIPv4\<close>: four decimal fields without leading zeros, each at most 255.\<close>

definition ipv4_field :: "string \<Rightarrow> nat option" where
  "ipv4_field s =
     (if s = '''' \<or> length s > 3 \<or> \<not> list_all is_digit s then None
      else if length s > 1 \<and> hd s = CHR ''0'' then None
      else case parse_digits 0 s of None \<Rightarrow> None | Some n \<Rightarrow> if n > 255 then None else Some n)"

definition ipv4_word :: "nat list \<Rightarrow> 32 word" where
  "ipv4_word fs = word_of_nat (foldl (\<lambda>a f. 256 * a + f) 0 fs)"

definition parse_ipv4 :: "string \<Rightarrow> (32 word) option" where
  "parse_ipv4 s =
     (case map ipv4_field (split_on (CHR ''.'') s) of
        [Some a, Some b, Some c, Some d] \<Rightarrow> Some (ipv4_word [a, b, c, d])
      | _ \<Rightarrow> None)"

definition hex_group :: "string \<Rightarrow> (16 word) option" where
  "hex_group s =
     (if s = '''' \<or> length s > 4 \<or> \<not> list_all (\<lambda>c. unhex c \<noteq> None) s then None
      else Some (word_of_nat (foldl (\<lambda>a c. 16 * a + the (unhex c)) 0 s)))"

text \<open>The fields of one side of a double colon; the last may be an IPv4 address.\<close>

fun groups :: "string list \<Rightarrow> (16 word list) option" where
  "groups [] = Some []"
| "groups [f] =
     (if CHR ''.'' \<in> set f then
        map_option (\<lambda>w. [word_of_int (uint w div 2 ^ 16), word_of_int (uint w mod 2 ^ 16)]) (parse_ipv4 f)
      else map_option (\<lambda>g. [g]) (hex_group f))"
| "groups (f # fs) =
     (case (hex_group f, groups fs) of (Some g, Some gs) \<Rightarrow> Some (g # gs) | _ \<Rightarrow> None)"

definition side :: "string \<Rightarrow> (16 word list) option" where
  "side s = (if s = '''' then Some [] else groups (split_on (CHR '':'') s))"

text \<open>The text before and after the first double colon.\<close>

fun cut_double :: "string \<Rightarrow> (string \<times> string) option" where
  "cut_double (a # b # s) =
     (if a = CHR '':'' \<and> b = CHR '':'' then Some ([], s)
      else map_option (\<lambda>(x, y). (a # x, y)) (cut_double (b # s)))"
| "cut_double s = None"

definition parse_ipv6 :: "string \<Rightarrow> (16 word list) option" where
  "parse_ipv6 s =
     (case cut_double s of
        None \<Rightarrow> (case groups (split_on (CHR '':'') s) of
                   Some gs \<Rightarrow> if length gs = 8 then Some gs else None
                 | None \<Rightarrow> None)
      | Some (l, r) \<Rightarrow>
          (case (if CHR ''.'' \<in> set l then None else side l, side r) of
             (Some gl, Some gr) \<Rightarrow>
               if length gl + length gr < 8
               then Some (gl @ replicate (8 - length gl - length gr) 0 @ gr) else None
           | _ \<Rightarrow> None))"

text \<open>\<open>netip.ParseAddr\<close>: the first dot, colon or percent sign decides how to read the text.\<close>

definition ParseAddr :: "string \<Rightarrow> addr option" where
  "ParseAddr s =
     (case List.find (\<lambda>c. c \<in> set ''.:%'') s of
        None \<Rightarrow> None
      | Some c \<Rightarrow>
          if c = CHR ''.'' then map_option V4 (parse_ipv4 s)
          else if c = CHR '':'' then
            (case Cut s (CHR ''%'') of
               None \<Rightarrow> map_option V6 (parse_ipv6 s)
             | Some (a, zone) \<Rightarrow> if zone = '''' then None else map_option V6 (parse_ipv6 a))
          else None)"

text \<open>\<open>Unmap\<close>: an IPv4 address written as IPv6 is the IPv4 address.\<close>

definition Unmap :: "addr \<Rightarrow> addr" where
  "Unmap a =
     (case a of
        V6 [g0, g1, g2, g3, g4, g5, g6, g7] \<Rightarrow>
          if g0 = 0 \<and> g1 = 0 \<and> g2 = 0 \<and> g3 = 0 \<and> g4 = 0 \<and> g5 = 0xffff
          then V4 (word_of_int (uint g6 * 2 ^ 16 + uint g7)) else a
      | _ \<Rightarrow> a)"

section \<open>Forbidden ranges\<close>

definition oct :: "nat \<Rightarrow> 32 word \<Rightarrow> int" where
  "oct i w = uint w div 2 ^ (24 - 8 * i) mod 256"

definition IsLoopback :: "addr \<Rightarrow> bool" where
  "IsLoopback a = (case a of V4 w \<Rightarrow> oct 0 w = 127 | V6 g \<Rightarrow> g = [0, 0, 0, 0, 0, 0, 0, 1])"

definition IsPrivate :: "addr \<Rightarrow> bool" where
  "IsPrivate a =
     (case a of
        V4 w \<Rightarrow> oct 0 w = 10 \<or> oct 0 w = 172 \<and> oct 1 w div 16 = 1 \<or> oct 0 w = 192 \<and> oct 1 w = 168
      | V6 g \<Rightarrow> uint (hd g) div 2 ^ 9 = 0xfc div 2)"

definition IsLinkLocalUnicast :: "addr \<Rightarrow> bool" where
  "IsLinkLocalUnicast a =
     (case a of
        V4 w \<Rightarrow> oct 0 w = 169 \<and> oct 1 w = 254
      | V6 g \<Rightarrow> uint (hd g) div 2 ^ 6 = 0xfe80 div 2 ^ 6)"

definition IsLinkLocalMulticast :: "addr \<Rightarrow> bool" where
  "IsLinkLocalMulticast a =
     (case a of
        V4 w \<Rightarrow> oct 0 w = 224 \<and> oct 1 w = 0 \<and> oct 2 w = 0
      | V6 g \<Rightarrow> uint (hd g) div 2 ^ 8 = 0xff \<and> uint (hd g) mod 16 = 2)"

definition IsUnspecified :: "addr \<Rightarrow> bool" where
  "IsUnspecified a = (case a of V4 w \<Rightarrow> w = 0 | V6 g \<Rightarrow> g = replicate 8 0)"

definition isDisallowedIP :: "addr \<Rightarrow> bool" where
  "isDisallowedIP ip \<longleftrightarrow>
     IsLoopback ip \<or> IsPrivate ip \<or> IsLinkLocalUnicast ip \<or> IsLinkLocalMulticast ip \<or> IsUnspecified ip"

section \<open>The guard\<close>

definition guardUpstreamURL :: "(string \<Rightarrow> go_error + addr list) \<Rightarrow> string \<Rightarrow> go_error option" where
  "guardUpstreamURL resolve rawURL =
     (case Parse rawURL of
        None \<Rightarrow> Some (Msg ''invalid upstream URL'')
      | Some parsed \<Rightarrow>
          if u_scheme parsed \<noteq> ''http'' \<and> u_scheme parsed \<noteq> ''https''
          then Some (Msg ''upstream URL must be http(s)'')
          else
            (let host = Hostname parsed
             in if host = '''' then Some (Msg ''upstream URL missing host'')
                else case (case ParseAddr host of
                             Some ip \<Rightarrow> Inr [Unmap ip]
                           | None \<Rightarrow> (case resolve host of
                                        Inl e \<Rightarrow> Inl e
                                      | Inr rs \<Rightarrow> Inr (map Unmap rs))) of
                    Inl e \<Rightarrow> Some (Msg ''resolve upstream host'')
                  | Inr ips \<Rightarrow>
                      if list_ex isDisallowedIP ips
                      then Some (Msg ''upstream host resolves to a disallowed address'') else None))"


section \<open>Properties\<close>

text \<open>The dotted text of an IPv4 address.\<close>

definition dotted :: "nat \<Rightarrow> nat \<Rightarrow> nat \<Rightarrow> nat \<Rightarrow> string" where
  "dotted a b c d = format_nat a @ ''.'' @ format_nat b @ ''.'' @ format_nat c @ ''.'' @ format_nat d"

lemma digit_char_0: "d < 10 \<Longrightarrow> d \<noteq> 0 \<Longrightarrow> digit_char d \<noteq> CHR ''0''"
proof
  assume "d < 10" "d \<noteq> 0" "digit_char d = CHR ''0''"
  moreover have "digit_val (CHR ''0'') = Some 0" by (simp add: digit_val_def)
  ultimately show False using digit_val_char [of d] by simp
qed

lemma format_small:
  assumes "n < 256"
  shows "length (format_nat n) \<le> 3 \<and> (length (format_nat n) > 1 \<longrightarrow> hd (format_nat n) \<noteq> CHR ''0'')"
proof -
  consider "n < 10" | "10 \<le> n" "n < 100" | "100 \<le> n" by linarith
  then show ?thesis
  proof cases
    case 1
    then show ?thesis by (simp add: format_nat.simps [of n])
  next
    case 2
    then have "n div 10 < 10" "n div 10 \<noteq> 0" by auto
    with 2 show ?thesis
      by (simp add: format_nat.simps [of n] format_nat.simps [of "n div 10"] digit_char_0)
  next
    case 3
    then have "n div 10 div 10 < 10" "n div 10 div 10 \<noteq> 0" "\<not> n div 10 < 10" using assms by auto
    with 3 show ?thesis
      by (simp add: format_nat.simps [of n] format_nat.simps [of "n div 10"]
          format_nat.simps [of "n div 10 div 10"] digit_char_0)
  qed
qed

lemma ipv4_field_format: "n < 256 \<Longrightarrow> ipv4_field (format_nat n) = Some n"
  using format_small [of n] by (simp add: ipv4_field_def parse_format_nat format_nat_digits)

lemma not_digit_sep [simp]: "\<not> is_digit (CHR ''.'')" "\<not> is_digit (CHR '':'')" "\<not> is_digit (CHR ''%'')"
  by (simp_all add: is_digit_def digit_val_def)

lemma format_no_sep [simp]:
  "CHR ''.'' \<notin> set (format_nat n)" "CHR '':'' \<notin> set (format_nat n)" "CHR ''%'' \<notin> set (format_nat n)"
  using format_nat_no_sign not_digit_sep by blast+

lemma parse_dotted:
  assumes "a < 256" "b < 256" "c < 256" "d < 256"
  shows "parse_ipv4 (dotted a b c d) = Some (ipv4_word [a, b, c, d])"
  using assms by (simp add: parse_ipv4_def dotted_def split_on_append split_on_single ipv4_field_format)

lemma find_first: "\<forall>x\<in>set s. \<not> P x \<Longrightarrow> P c \<Longrightarrow> List.find P (s @ c # t) = Some c"
  by (induction s) auto

lemma ParseAddr_dotted:
  assumes "a < 256" "b < 256" "c < 256" "d < 256"
  shows "ParseAddr (dotted a b c d) = Some (V4 (ipv4_word [a, b, c, d]))"
proof -
  have "x \<notin> set ''.:%''" if "x \<in> set (format_nat a)" for x
    using format_nat_no_sign [OF that] by auto
  then have "List.find (\<lambda>c. c \<in> set ''.:%'') (dotted a b c d) = Some (CHR ''.'')"
    unfolding dotted_def append_Cons append_Nil by (intro find_first) simp_all
  then show ?thesis by (simp add: ParseAddr_def parse_dotted [OF assms])
qed

lemma ipv4_word_uint:
  assumes "a < 256" "b < 256" "c < 256" "d < 256"
  shows "uint (ipv4_word [a, b, c, d]) = 256 * (256 * (256 * int a + int b) + int c) + int d"
proof -
  let ?n = "256 * (256 * (256 * a + b) + c) + d"
  have "?n < 2 ^ 32" using assms by simp
  then have "uint (word_of_nat ?n :: 32 word) = int ?n"
    by (simp only: unsigned_of_nat len_num1 len_bit0 len_num0 take_bit_nat_eq_self)
      (simp add: take_bit_nat_eq_self)
  then show ?thesis by (simp add: ipv4_word_def)
qed

lemma ipv4_oct:
  assumes "a < 256" "b < 256" "c < 256" "d < 256"
  shows "oct 0 (ipv4_word [a, b, c, d]) = int a" "oct 1 (ipv4_word [a, b, c, d]) = int b"
    "oct 2 (ipv4_word [a, b, c, d]) = int c" "(ipv4_word [a, b, c, d] = 0) = (a = 0 \<and> b = 0 \<and> c = 0 \<and> d = 0)"
proof -
  note w = ipv4_word_uint [OF assms]
  let ?x = "256 * (256 * (256 * int a + int b) + int c) + int d"
  have "?x div 2 ^ 24 = int a" "?x div 2 ^ 16 = 256 * int a + int b"
    "?x div 2 ^ 8 = 256 * (256 * int a + int b) + int c"
    using assms
    by (simp_all add: int_div_pos_eq [of _ _ "int a" "65536 * int b + 256 * int c + int d"]
        int_div_pos_eq [of _ _ "256 * int a + int b" "256 * int c + int d"]
        int_div_pos_eq [of _ _ "256 * (256 * int a + int b) + int c" "int d"])
  moreover have "(256 * (256 * int a + int b) + int c) mod 256 = int c"
    using assms by (simp only: mod_mult_self4) simp
  ultimately show "oct 0 (ipv4_word [a, b, c, d]) = int a" "oct 1 (ipv4_word [a, b, c, d]) = int b"
    "oct 2 (ipv4_word [a, b, c, d]) = int c"
    using assms unfolding oct_def w by simp_all
  show "(ipv4_word [a, b, c, d] = 0) = (a = 0 \<and> b = 0 \<and> c = 0 \<and> d = 0)"
    unfolding word_uint_eq_iff w by auto
qed


text \<open>The same address written as IPv6.\<close>

lemma ParseAddr_mapped:
  assumes "a < 256" "b < 256" "c < 256" "d < 256"
  shows "\<exists>g. ParseAddr (''::ffff:'' @ dotted a b c d) = Some (V6 g) \<and>
           Unmap (V6 g) = V4 (ipv4_word [a, b, c, d])"
proof -
  let ?d = "dotted a b c d" and ?w = "ipv4_word [a, b, c, d]"
  let ?g = "[0, 0, 0, 0, 0, 0xffff, word_of_int (uint ?w div 2 ^ 16), word_of_int (uint ?w mod 2 ^ 16)]"
  have sep: "CHR ''%'' \<notin> set ?d" "CHR '':'' \<notin> set ?d" "CHR ''.'' \<in> set ?d"
    by (simp_all add: dotted_def)
  have "groups (split_on (CHR '':'') (''ffff:'' @ ?d)) =
      Some [0xffff, word_of_int (uint ?w div 2 ^ 16), word_of_int (uint ?w mod 2 ^ 16)]"
    using sep by (simp add: split_on_single parse_dotted [OF assms] hex_group_def unhex_def)
  then have "parse_ipv6 (''::ffff:'' @ ?d) = Some ?g"
    by (simp add: parse_ipv6_def side_def numeral_eq_Suc)
  then have "ParseAddr (''::ffff:'' @ ?d) = Some (V6 ?g)"
    using sep by (simp add: ParseAddr_def Cut_None [THEN iffD2])
  moreover have "Unmap (V6 ?g) = V4 ?w"
  proof -
    have "uint ?w < 2 ^ 32" using uint_lt2p [of ?w] by simp
    then have "0 \<le> uint ?w div 2 ^ 16 \<and> uint ?w div 2 ^ 16 < 2 ^ 16"
      using pos_imp_zdiv_nonneg_iff [of "2 ^ 16" "uint ?w"] by simp
    then have "uint (word_of_int (uint ?w div 2 ^ 16) :: 16 word) = uint ?w div 2 ^ 16"
      "uint (word_of_int (uint ?w mod 2 ^ 16) :: 16 word) = uint ?w mod 2 ^ 16"
      by (simp_all add: unsigned_of_int take_bit_int_eq_self)
    then have "uint (word_of_int (uint ?w div 2 ^ 16) :: 16 word) * 2 ^ 16 +
        uint (word_of_int (uint ?w mod 2 ^ 16) :: 16 word) = uint ?w"
      by (simp only: div_mult_mod_eq)
    then show ?thesis
      by (simp only: Unmap_def addr.case list.case word_of_int_uint simp_thms if_True)
  qed
  ultimately show ?thesis by blast
qed

lemma disallowed_ipv4:
  assumes "a < 256" "b < 256" "c < 256" "d < 256"
  shows "isDisallowedIP (V4 (ipv4_word [a, b, c, d])) \<longleftrightarrow>
      a = 127 \<or> a = 10 \<or> a = 172 \<and> 16 \<le> b \<and> b \<le> 31 \<or> a = 192 \<and> b = 168 \<or>
      a = 169 \<and> b = 254 \<or> a = 224 \<and> b = 0 \<and> c = 0 \<or> a = 0 \<and> b = 0 \<and> c = 0 \<and> d = 0"
proof -
  have "int b div 16 = 1 \<longleftrightarrow> 16 \<le> b \<and> b \<le> 31" by linarith
  then show ?thesis
    by (simp add: isDisallowedIP_def IsLoopback_def IsPrivate_def IsLinkLocalUnicast_def
        IsLinkLocalMulticast_def IsUnspecified_def ipv4_oct [OF assms] del: One_nat_def)
qed

lemma guard_dotted:
  assumes "Parse raw = Some u" and "u_scheme u = ''http'' \<or> u_scheme u = ''https''" and "Hostname u = dotted a b c d"
    and "a < 256" "b < 256" "c < 256" "d < 256" and "\<not> isDisallowedIP (V4 (ipv4_word [a, b, c, d]))"
  shows "guardUpstreamURL resolve raw = None"
proof -
  have "Hostname u \<noteq> ''''" using assms(3) by (auto simp: dotted_def)
  moreover obtain ip where "ParseAddr (Hostname u) = Some ip" "Unmap ip = V4 (ipv4_word [a, b, c, d])"
    using assms(3) ParseAddr_dotted [OF assms(4-7)] by (auto simp: Unmap_def)
  ultimately show ?thesis using assms(1,2,8) by (auto simp: guardUpstreamURL_def)
qed



end
