(* ===== verification/Go_Json.thy ===== *)
theory Go_Json
  imports Go_Float
begin

text \<open>
  Go's \<open>encoding/json\<close> as far as the program uses it: the reader for values, with the
  decoding of strings, and the writer for strings. A duplicate key of an object is kept;
  where Go decodes into a map the last one counts.
\<close>

section \<open>UTF-8\<close>

definition code_of :: "char \<Rightarrow> nat" where
  "code_of c = of_char c"

definition in_range :: "nat \<Rightarrow> nat \<Rightarrow> char \<Rightarrow> bool" where
  "in_range a b c \<longleftrightarrow> a \<le> code_of c \<and> code_of c \<le> b"

text \<open>The length of the well-formed sequence at the front, None when there is none.\<close>

definition utf8_len :: "string \<Rightarrow> nat option" where
  "utf8_len s =
     (case s of
        [] \<Rightarrow> None
      | c # r \<Rightarrow>
          (let n = code_of c;
               tail = (\<lambda>k. length r \<ge> k \<and> list_all (in_range 0x80 0xBF) (take k r))
           in if n < 0x80 then Some 1
              else if 0xC2 \<le> n \<and> n \<le> 0xDF \<and> tail 1 then Some 2
              else if n = 0xE0 \<and> tail 2 \<and> in_range 0xA0 0xBF (hd r) then Some 3
              else if n = 0xED \<and> tail 2 \<and> in_range 0x80 0x9F (hd r) then Some 3
              else if 0xE1 \<le> n \<and> n \<le> 0xEF \<and> n \<noteq> 0xED \<and> tail 2 then Some 3
              else if n = 0xF0 \<and> tail 3 \<and> in_range 0x90 0xBF (hd r) then Some 4
              else if n = 0xF4 \<and> tail 3 \<and> in_range 0x80 0x8F (hd r) then Some 4
              else if 0xF1 \<le> n \<and> n \<le> 0xF3 \<and> tail 3 then Some 4
              else None))"

definition utf8_encode :: "nat \<Rightarrow> string" where
  "utf8_encode n =
     (if n < 0x80 then [char_of n]
      else if n < 0x800 then [char_of (0xC0 + n div 64), char_of (0x80 + n mod 64)]
      else if n < 0x10000 then
        [char_of (0xE0 + n div 4096), char_of (0x80 + n div 64 mod 64), char_of (0x80 + n mod 64)]
      else
        [char_of (0xF0 + n div 262144), char_of (0x80 + n div 4096 mod 64),
         char_of (0x80 + n div 64 mod 64), char_of (0x80 + n mod 64)])"

text \<open>The replacement character, U+FFFD.\<close>

definition replacement :: string where
  "replacement = [CHR 0xEF, CHR 0xBF, CHR 0xBD]"

function valid_utf8 :: "string \<Rightarrow> bool" where
  "valid_utf8 s =
     (case s of [] \<Rightarrow> True
      | c # r \<Rightarrow> (case utf8_len s of None \<Rightarrow> False | Some n \<Rightarrow> valid_utf8 (drop (n - 1) r)))"
  by pat_completeness auto
termination by (relation "measure length") auto

declare valid_utf8.simps [simp del]

section \<open>Reading a string\<close>

definition simple_escape :: "char \<Rightarrow> char option" where
  "simple_escape e =
     map_of [(CHR 0x22, CHR 0x22), (CHR 0x5C, CHR 0x5C), (CHR ''/'', CHR ''/''), (CHR ''b'', CHR 0x08),
             (CHR ''f'', CHR 0x0C), (CHR ''n'', CHR 0x0A), (CHR ''r'', CHR 0x0D), (CHR ''t'', CHR 0x09)] e"

definition getu4 :: "string \<Rightarrow> nat option" where
  "getu4 s =
     (case map unhex (take 4 s) of
        [Some a, Some b, Some c, Some d] \<Rightarrow> Some (((a * 16 + b) * 16 + c) * 16 + d)
      | _ \<Rightarrow> None)"

definition surrogate_pair :: "nat \<Rightarrow> string \<Rightarrow> nat option" where
  "surrogate_pair x s =
     (if take 2 s = [CHR 0x5C, CHR ''u''] then
        (case getu4 (drop 2 s) of
           None \<Rightarrow> None
         | Some y \<Rightarrow>
             if 0xD800 \<le> x \<and> x < 0xDC00 \<and> 0xDC00 \<le> y \<and> y < 0xE000
             then Some ((x - 0xD800) * 1024 + (y - 0xDC00) + 0x10000) else None)
      else None)"

definition emit :: "string \<Rightarrow> (string \<times> 'a) option \<Rightarrow> (string \<times> 'a) option" where
  "emit t x = map_option (apfst ((@) t)) x"

text \<open>What stands behind an opening quotation mark: the decoded string and the rest.\<close>

fun unquote :: "string \<Rightarrow> (string \<times> string) option" where
  "unquote [] = None"
| "unquote (c # s) =
     (if c = CHR 0x22 then Some ([], s)
      else if code_of c < 0x20 then None
      else if c = CHR 0x5C then
        (case s of
           [] \<Rightarrow> None
         | e # r \<Rightarrow>
             (case simple_escape e of
                Some b \<Rightarrow> emit [b] (unquote r)
              | None \<Rightarrow>
                  if e \<noteq> CHR ''u'' then None
                  else (case getu4 r of
                      None \<Rightarrow> None
                    | Some x \<Rightarrow>
                        if 0xD800 \<le> x \<and> x < 0xE000 then
                          (case surrogate_pair x (drop 4 r) of
                             Some y \<Rightarrow> emit (utf8_encode y) (unquote (drop 10 r))
                           | None \<Rightarrow> emit replacement (unquote (drop 4 r)))
                        else emit (utf8_encode x) (unquote (drop 4 r)))))
      else (case utf8_len (c # s) of
          Some n \<Rightarrow> emit (take n (c # s)) (unquote (drop (n - 1) s))
        | None \<Rightarrow> emit replacement (unquote s)))"

section \<open>Values\<close>

datatype json =
    JNull
  | JBool bool
  | JNum string
  | JStr string
  | JArr "json list"
  | JObj "(string \<times> json) list"

definition json_space :: "char \<Rightarrow> bool" where
  "json_space c \<longleftrightarrow> c \<in> {CHR '' '', CHR 0x09, CHR 0x0A, CHR 0x0D}"

definition skip_space :: "string \<Rightarrow> string" where
  "skip_space s = dropWhile json_space s"

text \<open>A number as the grammar has it: its text and the rest.\<close>

definition digits1 :: "string \<Rightarrow> (string \<times> string) option" where
  "digits1 s = (let d = takeWhile is_digit s in if d = '''' then None else Some (d, drop (length d) s))"

definition number_int :: "string \<Rightarrow> (string \<times> string) option" where
  "number_int s = (if HasPrefix s ''0'' then Some (''0'', tl s) else digits1 s)"

definition number_frac :: "string \<Rightarrow> (string \<times> string) option" where
  "number_frac s = (if HasPrefix s ''.'' then emit ''.'' (digits1 (tl s)) else Some ('''', s))"

definition number_exp :: "string \<Rightarrow> (string \<times> string) option" where
  "number_exp s =
     (if s \<noteq> '''' \<and> lower_char (hd s) = CHR ''e'' then
        (let r = tl s
         in if r \<noteq> '''' \<and> hd r \<in> {CHR ''+'', CHR ''-''} then emit [hd s, hd r] (digits1 (tl r))
            else emit [hd s] (digits1 r))
      else Some ('''', s))"

definition json_number :: "string \<Rightarrow> (string \<times> string) option" where
  "json_number s =
     (let (sign, s1) = (if HasPrefix s ''-'' then (''-'', tl s) else ('''', s))
      in case number_int s1 of
           None \<Rightarrow> None
         | Some (i, s2) \<Rightarrow>
             (case number_frac s2 of
                None \<Rightarrow> None
              | Some (f, s3) \<Rightarrow>
                  (case number_exp s3 of
                     None \<Rightarrow> None
                   | Some (e, s4) \<Rightarrow> Some (sign @ i @ f @ e, s4))))"

definition maxNestingDepth :: int where
  "maxNestingDepth = 10000"

text \<open>
  The reader. The first argument is fuel: every turn takes a byte or starts a value, so twice
  the length of the text is enough; the second is the depth that is left.
\<close>

fun parse_value :: "nat \<Rightarrow> int \<Rightarrow> string \<Rightarrow> (json \<times> string) option"
and parse_elems :: "nat \<Rightarrow> int \<Rightarrow> string \<Rightarrow> (json list \<times> string) option"
and parse_members :: "nat \<Rightarrow> int \<Rightarrow> string \<Rightarrow> ((string \<times> json) list \<times> string) option"
where
  "parse_value 0 d s = None"
| "parse_value (Suc n) d s0 =
     (case skip_space s0 of
        [] \<Rightarrow> None
      | c # s \<Rightarrow>
          if c = CHR 0x22 then map_option (apfst JStr) (unquote s)
          else if c = CHR ''['' then
            (if d \<le> 0 then None
             else if HasPrefix (skip_space s) '']'' then Some (JArr [], tl (skip_space s))
             else map_option (apfst JArr) (parse_elems n (d - 1) s))
          else if c = CHR ''{'' then
            (if d \<le> 0 then None
             else if HasPrefix (skip_space s) ''}'' then Some (JObj [], tl (skip_space s))
             else map_option (apfst JObj) (parse_members n (d - 1) s))
          else if HasPrefix (c # s) ''true'' then Some (JBool True, drop 3 s)
          else if HasPrefix (c # s) ''false'' then Some (JBool False, drop 4 s)
          else if HasPrefix (c # s) ''null'' then Some (JNull, drop 3 s)
          else map_option (apfst JNum) (json_number (c # s)))"
| "parse_elems 0 d s = None"
| "parse_elems (Suc n) d s =
     (case parse_value n d s of
        None \<Rightarrow> None
      | Some (v, r) \<Rightarrow>
          (case skip_space r of
             [] \<Rightarrow> None
           | c # r' \<Rightarrow>
               if c = CHR '']'' then Some ([v], r')
               else if c = CHR '','' then map_option (apfst (Cons v)) (parse_elems n d r')
               else None))"
| "parse_members 0 d s = None"
| "parse_members (Suc n) d s =
     (case skip_space s of
        [] \<Rightarrow> None
      | q # s1 \<Rightarrow>
          if q \<noteq> CHR 0x22 then None
          else (case unquote s1 of
              None \<Rightarrow> None
            | Some (k, s2) \<Rightarrow>
                (case skip_space s2 of
                   [] \<Rightarrow> None
                 | c # s3 \<Rightarrow>
                     if c \<noteq> CHR '':'' then None
                     else (case parse_value n d s3 of
                         None \<Rightarrow> None
                       | Some (v, r) \<Rightarrow>
                           (case skip_space r of
                              [] \<Rightarrow> None
                            | c # r' \<Rightarrow>
                                if c = CHR ''}'' then Some ([(k, v)], r')
                                else if c = CHR '','' then map_option (apfst (Cons (k, v))) (parse_members n d r')
                                else None)))))"

text \<open>A whole text: nothing but space may follow.\<close>

definition parse_json :: "string \<Rightarrow> json option" where
  "parse_json s =
     (case parse_value (2 * length s + 2) maxNestingDepth s of
        None \<Rightarrow> None
      | Some (v, r) \<Rightarrow> if skip_space r = '''' then Some v else None)"

text \<open>Decoding into \<open>any\<close> fails, too, for a number that is out of the range of a float.\<close>

fun numbers_ok :: "json \<Rightarrow> bool" where
  "numbers_ok (JNum t) = (ParseFloat t \<noteq> None)"
| "numbers_ok (JArr xs) = list_all numbers_ok xs"
| "numbers_ok (JObj kvs) = list_all (\<lambda>kv. numbers_ok (snd kv)) kvs"
| "numbers_ok _ = True"

section \<open>Writing a string\<close>

definition hex2 :: "nat \<Rightarrow> string" where
  "hex2 n = (let h = (\<lambda>d. char_of (if d < 10 then d + 48 else d + 87)) in [h (n div 16), h (n mod 16)])"

definition escape_byte :: "char \<Rightarrow> string" where
  "escape_byte c =
     (if c = CHR 0x22 \<or> c = CHR 0x5C then [CHR 0x5C, c]
      else if c = CHR 0x08 then [CHR 0x5C, CHR ''b'']
      else if c = CHR 0x0C then [CHR 0x5C, CHR ''f'']
      else if c = CHR 0x0A then [CHR 0x5C, CHR ''n'']
      else if c = CHR 0x0D then [CHR 0x5C, CHR ''r'']
      else if c = CHR 0x09 then [CHR 0x5C, CHR ''t'']
      else if code_of c < 0x20 \<or> c \<in> {CHR ''<'', CHR ''>'', CHR ''&''}
      then [CHR 0x5C] @ ''u00'' @ hex2 (code_of c)
      else [c])"

text \<open>U+2028 and U+2029 are E2 80 A8 and E2 80 A9.\<close>

fun quote_body :: "string \<Rightarrow> string" where
  "quote_body [] = []"
| "quote_body (c # s) =
     (if code_of c < 0x80 then escape_byte c @ quote_body s
      else case utf8_len (c # s) of
        None \<Rightarrow> [CHR 0x5C] @ ''ufffd'' @ quote_body s
      | Some n \<Rightarrow>
          if take n (c # s) = [CHR 0xE2, CHR 0x80, CHR 0xA8] then [CHR 0x5C] @ ''u2028'' @ quote_body (drop (n - 1) s)
          else if take n (c # s) = [CHR 0xE2, CHR 0x80, CHR 0xA9] then [CHR 0x5C] @ ''u2029'' @ quote_body (drop (n - 1) s)
          else take n (c # s) @ quote_body (drop (n - 1) s))"

definition json_quote :: "string \<Rightarrow> string" where
  "json_quote s = [CHR 0x22] @ quote_body s @ [CHR 0x22]"


section \<open>What is written is read back\<close>

text \<open>The text with every byte that belongs to no character replaced, as \<open>ToValidUTF8\<close> does per byte.\<close>

fun to_valid :: "string \<Rightarrow> string" where
  "to_valid [] = []"
| "to_valid (c # s) =
     (case utf8_len (c # s) of
        None \<Rightarrow> replacement @ to_valid s
      | Some n \<Rightarrow> take n (c # s) @ to_valid (drop (n - 1) s))"

lemma emit_Some [simp]: "emit t (Some (a, b)) = Some (t @ a, b)"
  by (simp add: emit_def)

lemma utf8_len_ascii: "code_of c < 0x80 \<Longrightarrow> utf8_len (c # s) = Some 1"
  by (simp add: utf8_len_def)

lemma utf8_len_cases:
  assumes "utf8_len s = Some n"
  obtains "n = 1" "s \<noteq> []" | "n = 2" "length s \<ge> 2" | "n = 3" "length s \<ge> 3" | "n = 4" "length s \<ge> 4"
  using assms by (cases s) (auto simp: utf8_len_def Let_def split: if_splits)

lemma utf8_len_take:
  assumes "utf8_len s = Some n"
  shows "utf8_len (take n s @ t) = Some n"
proof -
  obtain c r where s: "s = c # r" using assms by (cases s) (simp_all add: utf8_len_def)
  have k: "take k (take m r @ t) = take k r \<and> length (take m r @ t) \<ge> k"
    if "k \<le> m" "length r \<ge> m" for k m
    using that by simp
  have h: "hd (take m r @ t) = hd r" if "m > 0" "length r \<ge> m" for m
    using that by (cases r; cases m) auto
  show ?thesis using assms
  proof (cases rule: utf8_len_cases)
    case 1
    with assms show ?thesis by (simp add: s utf8_len_def Let_def split: if_splits)
  next
    case 2
    with assms show ?thesis
      using k [of 1 1] by (simp add: s utf8_len_def Let_def split: if_splits)
  next
    case 3
    with assms show ?thesis
      using k [of 1 2] k [of 2 2] h [of 2] by (simp add: s utf8_len_def Let_def split: if_splits)
  next
    case 4
    with assms show ?thesis
      using k [of 1 3] k [of 2 3] k [of 3 3] h [of 3]
      by (simp add: s utf8_len_def Let_def split: if_splits)
  qed
qed

lemma utf8_len_bounds: "utf8_len s = Some n \<Longrightarrow> 1 \<le> n \<and> n \<le> length s"
  by (erule utf8_len_cases) (auto simp: Suc_le_eq)

lemma unhex_hex_digit:
  assumes "d < 16"
  shows "unhex (char_of (if d < 10 then d + 48 else d + 87)) = Some d"
proof (cases "d < 10")
  case True
  then show ?thesis by (simp add: unhex_def)
next
  case False
  with assms show ?thesis by (simp add: unhex_def)
qed

lemma chr_eq: "of_char c = (n::nat) \<Longrightarrow> char_of n = c"
  by auto

lemma getu4_byte: "n < 256 \<Longrightarrow> getu4 (''00'' @ hex2 n @ t) = Some n"
proof -
  assume "n < 256"
  then have "n div 16 < 16" by simp
  then have "unhex (char_of (if n div 16 < 10 then n div 16 + 48 else n div 16 + 87)) = Some (n div 16)"
    "unhex (char_of (if n mod 16 < 10 then n mod 16 + 48 else n mod 16 + 87)) = Some (n mod 16)"
    by (simp_all only: unhex_hex_digit mod_less_divisor zero_less_numeral)
  moreover have "unhex (CHR ''0'') = Some 0" by (simp add: unhex_def)
  ultimately show ?thesis by (simp add: getu4_def hex2_def Let_def)
qed

lemma unquote_u: "getu4 r = Some x \<Longrightarrow> x < 0xD800 \<or> 0xE000 \<le> x \<Longrightarrow>
   unquote (CHR 0x5C # CHR ''u'' # r) = emit (utf8_encode x) (unquote (drop 4 r))"
  by (simp add: simple_escape_def code_of_def) (auto simp del: unquote.simps)


lemma unquote_escape_byte:
  assumes "code_of c < 0x80"
  shows "unquote (escape_byte c @ t) = emit [c] (unquote t)"
proof -
  define special where "special \<longleftrightarrow> code_of c < 0x20 \<or> c \<in> {CHR ''<'', CHR ''>'', CHR ''&''}"
  define simple where
    "simple \<longleftrightarrow> c \<in> {CHR 0x22, CHR 0x5C, CHR 0x08, CHR 0x0C, CHR 0x0A, CHR 0x0D, CHR 0x09}"
  have esc: "\<not> simple \<Longrightarrow> escape_byte c =
      (if special then [CHR 0x5C] @ ''u00'' @ hex2 (code_of c) else [c])"
    by (simp add: escape_byte_def simple_def special_def)
  show ?thesis
  proof (cases simple)
    case True
    then have "c = CHR 0x22 \<or> c = CHR 0x5C \<or> c = CHR 0x08 \<or> c = CHR 0x0C \<or> c = CHR 0x0A \<or>
        c = CHR 0x0D \<or> c = CHR 0x09"
      by (simp add: simple_def)
    then show ?thesis
      by (elim disjE) (simp_all add: escape_byte_def simple_escape_def code_of_def)
  next
    case False
    show ?thesis
    proof (cases special)
      case True
      have "getu4 (''00'' @ hex2 (code_of c) @ t) = Some (code_of c)"
        using assms by (intro getu4_byte) simp
      then have "unquote (CHR 0x5C # CHR ''u'' # ''00'' @ hex2 (code_of c) @ t) =
          emit (utf8_encode (code_of c)) (unquote (drop 4 (''00'' @ hex2 (code_of c) @ t)))"
        by (rule unquote_u) (use assms in simp)
      moreover have "drop 4 (''00'' @ hex2 (code_of c) @ t) = t"
        by (simp add: hex2_def Let_def)
      moreover have "utf8_encode (code_of c) = [c]"
        using assms by (simp add: utf8_encode_def code_of_def)
      ultimately show ?thesis
        using True by (simp only: esc [OF False] if_True append_Cons append_Nil append_assoc)
    next
      case plain: False
      then have "c \<noteq> CHR 0x22" "c \<noteq> CHR 0x5C" "\<not> code_of c < 0x20"
        using False by (auto simp: simple_def special_def)
      then show ?thesis using plain assms by (simp add: esc [OF False] utf8_len_ascii)
    qed
  qed
qed

lemma unquote_raw:
  assumes "utf8_len (c # s) = Some n" and "code_of c \<ge> 0x80"
  shows "unquote (take n (c # s) @ t) = emit (take n (c # s)) (unquote t)"
proof -
  obtain m where n: "n = Suc m" "m \<le> length s"
    using utf8_len_bounds [OF assms(1)] by (cases n) auto
  have "c \<noteq> CHR 0x22" "c \<noteq> CHR 0x5C" using assms(2) by (auto simp: code_of_def)
  moreover have "utf8_len (c # take m s @ t) = Some n"
    using utf8_len_take [OF assms(1), of t] n by simp
  ultimately show ?thesis using assms(2) n by simp
qed

lemma unquote_replacement: "unquote (CHR 0x5C # ''ufffd'' @ t) = emit replacement (unquote t)"
proof -
  have "getu4 (''fffd'' @ t) = Some 0xFFFD" by (simp add: getu4_def unhex_def)
  then have "unquote (CHR 0x5C # CHR ''u'' # ''fffd'' @ t) =
      emit (utf8_encode 0xFFFD) (unquote (drop 4 (''fffd'' @ t)))"
    by (rule unquote_u) simp
  moreover have "utf8_encode 0xFFFD = replacement"
    by (simp add: utf8_encode_def replacement_def chr_eq)
  ultimately show ?thesis by (simp del: unquote.simps)
qed

lemma unquote_separators:
  "unquote (CHR 0x5C # ''u2028'' @ t) = emit [CHR 0xE2, CHR 0x80, CHR 0xA8] (unquote t)"
  "unquote (CHR 0x5C # ''u2029'' @ t) = emit [CHR 0xE2, CHR 0x80, CHR 0xA9] (unquote t)"
proof -
  have g: "getu4 (''2028'' @ t) = Some 0x2028" "getu4 (''2029'' @ t) = Some 0x2029"
    by (simp_all add: getu4_def unhex_def)
  have e: "utf8_encode 0x2028 = [CHR 0xE2, CHR 0x80, CHR 0xA8]"
    "utf8_encode 0x2029 = [CHR 0xE2, CHR 0x80, CHR 0xA9]"
    by (simp_all add: utf8_encode_def chr_eq)
  show "unquote (CHR 0x5C # ''u2028'' @ t) = emit [CHR 0xE2, CHR 0x80, CHR 0xA8] (unquote t)"
    using unquote_u [OF g(1)] e(1) by (simp del: unquote.simps)
  show "unquote (CHR 0x5C # ''u2029'' @ t) = emit [CHR 0xE2, CHR 0x80, CHR 0xA9] (unquote t)"
    using unquote_u [OF g(2)] e(2) by (simp del: unquote.simps)
qed

text \<open>Reading back a written string gives the string with its stray bytes replaced.\<close>

lemma unquote_quote_body:
  "unquote (quote_body s @ CHR 0x22 # r) = Some (to_valid s, r)"
proof (induction s rule: quote_body.induct)
  case 1
  show ?case by simp
next
  case (2 c s)
  show ?case
  proof (cases "code_of c < 0x80")
    case True
    then show ?thesis
      using unquote_escape_byte [OF True, of "quote_body s @ CHR 0x22 # r"] "2.IH"(1)
      by (simp add: utf8_len_ascii)
  next
    case False
    show ?thesis
    proof (cases "utf8_len (c # s)")
      case None
      then show ?thesis
        using False "2.IH"(2) unquote_replacement [of "quote_body s @ CHR 0x22 # r"] by simp
    next
      case (Some n)
      define t where "t = quote_body (drop (n - 1) s) @ CHR 0x22 # r"
      consider "take n (c # s) = [CHR 0xE2, CHR 0x80, CHR 0xA8]"
        | "take n (c # s) = [CHR 0xE2, CHR 0x80, CHR 0xA9]"
        | "take n (c # s) \<noteq> [CHR 0xE2, CHR 0x80, CHR 0xA8]"
          "take n (c # s) \<noteq> [CHR 0xE2, CHR 0x80, CHR 0xA9]"
        by blast
      then show ?thesis
      proof cases
        case 1
        have "unquote t = Some (to_valid (drop (n - 1) s), r)"
          unfolding t_def by (rule "2.IH"(3) [OF False Some 1])
        moreover have "quote_body (c # s) @ CHR 0x22 # r = CHR 0x5C # ''u2028'' @ t"
          using False Some 1 by (simp add: t_def)
        ultimately show ?thesis using Some 1 by (simp only: unquote_separators) simp
      next
        case 2
        have "unquote t = Some (to_valid (drop (n - 1) s), r)"
          unfolding t_def by (rule "2.IH"(4) [OF False Some _ 2]) (simp add: 2)
        moreover have "quote_body (c # s) @ CHR 0x22 # r = CHR 0x5C # ''u2029'' @ t"
          using False Some 2 by (simp add: t_def)
        ultimately show ?thesis using Some 2 by (simp only: unquote_separators) simp
      next
        case 3
        have "unquote t = Some (to_valid (drop (n - 1) s), r)"
          unfolding t_def by (rule "2.IH"(5) [OF False Some 3])
        moreover have "quote_body (c # s) @ CHR 0x22 # r = take n (c # s) @ t"
          using False Some 3 by (simp add: t_def)
        ultimately show ?thesis
          using unquote_raw [OF Some, of t] False Some by (simp only:) simp
      qed
    qed
  qed
qed

lemma to_valid_id: "valid_utf8 s \<Longrightarrow> to_valid s = s"
proof (induction s rule: to_valid.induct)
  case (2 c s)
  then obtain n where n: "utf8_len (c # s) = Some n" "valid_utf8 (drop (n - 1) s)"
    by (auto simp: valid_utf8.simps [of "c # s"] split: option.splits)
  then show ?case using "2.IH"(2) utf8_len_bounds [OF n(1)] by (cases n) auto
qed simp

lemma valid_utf8_ascii: "\<forall>c\<in>set s. code_of c < 0x80 \<Longrightarrow> valid_utf8 s"
  by (induction s) (simp_all add: valid_utf8.simps utf8_len_ascii)

end
