(* ===== verification/Log_Level.thy ===== *)
theory Log_Level
  imports Go_Strings
begin

text \<open>
  The levels of \<open>log/slog\<close> the program uses, in their order, and \<open>parseLogLevel\<close>, which
  server/logger.go and wrapper/logger.go both have.
\<close>

datatype level = Debug | Info | Warn | Error

fun severity :: "level \<Rightarrow> int" where
  "severity Debug = - 4"
| "severity Info = 0"
| "severity Warn = 4"
| "severity Error = 8"

lemma severity_inj: "severity a = severity b \<longleftrightarrow> a = b"
  by (cases a; cases b) simp_all

instantiation level :: linorder
begin

definition less_eq_level :: "level \<Rightarrow> level \<Rightarrow> bool" where
  "less_eq_level a b \<longleftrightarrow> severity a \<le> severity b"

definition less_level :: "level \<Rightarrow> level \<Rightarrow> bool" where
  "less_level a b \<longleftrightarrow> severity a < severity b"

instance
  by standard (auto simp: less_eq_level_def less_level_def severity_inj)

end

text \<open>\<open>slog.HandlerOptions.Level\<close>: a handler takes the records from its level on.\<close>

definition enabled :: "level \<Rightarrow> level \<Rightarrow> bool" where
  "enabled handler record \<longleftrightarrow> handler \<le> record"

definition parseLogLevel :: "string \<Rightarrow> go_error + level" where
  "parseLogLevel s =
     (let l = ToLower (TrimSpace s)
      in if l = '''' \<or> l = ''info'' then Inr Info
         else if l = ''debug'' then Inr Debug
         else if l = ''warn'' \<or> l = ''warning'' then Inr Warn
         else if l = ''error'' then Inr Error
         else Inl (Msg ''invalid log level''))"

end
