(* ===== verification/Config.thy ===== *)
theory Config
  imports Go_Json Ffmpeg Log_Level
begin

text \<open>
  config.go: \<open>LoadConfig\<close>, which reads the environment, then the flags, and checks the
  result, with its parsers for sizes, durations, the proxy, the backend and the extra
  arguments. The environment is a function that gives the empty text for a variable that is
  not set; the default cache directory and the conversion of a float outside the range of
  \<open>int64\<close> are arguments. The flag package ends the process on a bad flag, which is the
  outcome \<open>Exits\<close> with the status.
\<close>

section \<open>Parsers\<close>

definition GiB :: int where "GiB = 2 ^ 30"
definition MiB :: int where "MiB = 2 ^ 20"
definition KiB :: int where "KiB = 2 ^ 10"

definition sizeUnits :: "(string \<times> int) list" where
  "sizeUnits =
     [(''GIB'', GiB), (''GB'', GiB), (''G'', GiB), (''MIB'', MiB), (''MB'', MiB), (''M'', MiB),
      (''KIB'', KiB), (''KB'', KiB), (''K'', KiB), (''B'', 1)]"

fun size_loop :: "(f64 \<Rightarrow> int) \<Rightarrow> string \<Rightarrow> string \<Rightarrow> (string \<times> int) list \<Rightarrow> go_error + int" where
  "size_loop oob trimmed upper [] =
     (case ParseInt trimmed of
        None \<Rightarrow> Inl (Msg ''invalid size'')
      | Some bytes \<Rightarrow> if bytes < 0 then Inl (Msg ''size must not be negative'') else Inr bytes)"
| "size_loop oob trimmed upper ((suf, factor) # units) =
     (case CutSuffix upper suf of
        None \<Rightarrow> size_loop oob trimmed upper units
      | Some n \<Rightarrow>
          (let number = TrimSpace n
           in if number = '''' then size_loop oob trimmed upper units
              else case ParseFloat number of
                  None \<Rightarrow> Inl (Msg ''invalid size'')
                | Some amount \<Rightarrow>
                    if f64_neg amount then Inl (Msg ''size must not be negative'')
                    else Inr (int64_of_f64 oob (f64_mult amount (f64_of_int factor)))))"

definition parseSize :: "(f64 \<Rightarrow> int) \<Rightarrow> string \<Rightarrow> go_error + int" where
  "parseSize oob v =
     (let trimmed = TrimSpace v
      in if trimmed = '''' then Inl (Msg ''empty size'')
         else size_loop oob trimmed (ToUpper trimmed) sizeUnits)"

definition parseDuration :: "(f64 \<Rightarrow> int) \<Rightarrow> string \<Rightarrow> go_error + int" where
  "parseDuration oob v =
     (case ParseDuration v of
        Some d \<Rightarrow> Inr d
      | None \<Rightarrow>
          (case ParseFloat v of
             None \<Rightarrow> Inl (Msg ''time: invalid duration'')
           | Some seconds \<Rightarrow> Inr (int64_of_f64 oob (f64_mult seconds (f64_of_int Second)))))"

definition normalizeHWBackend :: "string \<Rightarrow> go_error + hwBackend" where
  "normalizeHWBackend v0 =
     (let v = ToLower (TrimSpace v0)
      in if v = '''' \<or> v = ''software'' \<or> v = ''libx264'' then Inr hwSoftware
         else if h264Backends v \<noteq> None then Inr v
         else Inl (Msg ''unsupported VRCVP_FFMPEG_HWACCEL''))"

text \<open>
  \<open>parseExtraArgsJSON\<close>: an array of strings; null is no array, and in the array the empty
  string.
\<close>

definition json_string :: "json \<Rightarrow> string option" where
  "json_string j = (case j of JStr s \<Rightarrow> Some s | JNull \<Rightarrow> Some '''' | _ \<Rightarrow> None)"

definition unmarshal_strings :: "string \<Rightarrow> string list option" where
  "unmarshal_strings v =
     (case parse_json v of
        Some JNull \<Rightarrow> Some []
      | Some (JArr xs) \<Rightarrow> those (map json_string xs)
      | _ \<Rightarrow> None)"

definition parseExtraArgsJSON :: "string \<Rightarrow> go_error + string list" where
  "parseExtraArgsJSON v =
     (case unmarshal_strings v of
        None \<Rightarrow> Inl (Msg ''invalid JSON array'')
      | Some args \<Rightarrow>
          if list_ex (\<lambda>a. TrimSpace a = '''') args then Inl (Msg ''extra arg must not be empty'') else Inr args)"

definition parseProxyURL :: "string \<Rightarrow> go_error + url option" where
  "parseProxyURL v =
     (let trimmed = TrimSpace v
      in if trimmed = '''' then Inr None
         else case Parse trimmed of
             None \<Rightarrow> Inl (Msg ''invalid proxy URL'')
           | Some u \<Rightarrow>
               if u_scheme u \<notin> {''http'', ''https'', ''socks5'', ''socks5h''}
               then Inl (Msg ''unsupported proxy scheme'')
               else if u_host u = '''' then Inl (Msg ''proxy URL must include a host'')
               else Inr (Some u))"

section \<open>The configuration\<close>

record Config =
  Listen :: string
  ShutdownTimeout :: int
  CacheDir :: string
  CacheMaxSize :: int
  YtdlpPath :: string
  FfmpegPath :: string
  FfprobePath :: string
  CookiesFile :: string
  Secret :: string
  SegmentCacheTTL :: int
  SegmentCacheSize :: int
  LogLevel :: string
  Proxy :: string
  GameCommand :: "string list"
  YtdlpFormat :: string
  YtdlpExtraArgs :: "string list"
  FfmpegHWAccel :: string
  FfmpegHWDevice :: string
  FfmpegBackend :: hwBackend
  TranscodePreset :: string
  TranscodeCRF :: string
  TranscodeVideoBitrate :: string
  TranscodeMaxrate :: string
  TranscodeBufsize :: string
  TranscodeAudioBitrate :: string

definition progressiveFormat :: string where
  "progressiveFormat =
     ''best[protocol^=http][acodec!=none][vcodec!=none][ext=mp4]/best[acodec!=none][vcodec!=none]/best''"

definition default_config :: "string \<Rightarrow> Config" where
  "default_config cacheDir =
     \<lparr>Listen = ''127.0.0.1:8080'', ShutdownTimeout = 5 * Second, CacheDir = cacheDir,
      CacheMaxSize = 10 * GiB, YtdlpPath = ''yt-dlp'', FfmpegPath = ''ffmpeg'', FfprobePath = ''ffprobe'',
      CookiesFile = '''', Secret = '''', SegmentCacheTTL = 5 * 60 * Second, SegmentCacheSize = 512,
      LogLevel = ''info'', Proxy = '''', GameCommand = [], YtdlpFormat = progressiveFormat,
      YtdlpExtraArgs = [], FfmpegHWAccel = hwSoftware, FfmpegHWDevice = '''', FfmpegBackend = '''',
      TranscodePreset = ''veryfast'', TranscodeCRF = ''23'', TranscodeVideoBitrate = '''',
      TranscodeMaxrate = ''8M'', TranscodeBufsize = ''16M'', TranscodeAudioBitrate = ''192k''\<rparr>"

datatype 'a outcome = Exits nat | Fails go_error | Gives 'a

fun and_then :: "'a outcome \<Rightarrow> ('a \<Rightarrow> 'b outcome) \<Rightarrow> 'b outcome" where
  "and_then (Exits n) f = Exits n"
| "and_then (Fails e) f = Fails e"
| "and_then (Gives x) f = f x"

definition lift_error :: "go_error + 'a \<Rightarrow> ('a \<Rightarrow> 'b) \<Rightarrow> 'b outcome" where
  "lift_error r f = (case r of Inl e \<Rightarrow> Fails e | Inr x \<Rightarrow> Gives (f x))"

section \<open>The environment\<close>

type_synonym setter = "string \<Rightarrow> Config \<Rightarrow> Config outcome"

definition env_setters :: "(f64 \<Rightarrow> int) \<Rightarrow> (string \<times> setter) list" where
  "env_setters oob =
     [(''VRCVP_LISTEN'', \<lambda>v c. Gives (c\<lparr>Listen := v\<rparr>)),
      (''VRCVP_SHUTDOWN_TIMEOUT'', \<lambda>v c. lift_error (parseDuration oob v) (\<lambda>t. c\<lparr>ShutdownTimeout := t\<rparr>)),
      (''VRCVP_CACHE_DIR'', \<lambda>v c. Gives (c\<lparr>CacheDir := v\<rparr>)),
      (''VRCVP_CACHE_MAX_SIZE'', \<lambda>v c. lift_error (parseSize oob v) (\<lambda>n. c\<lparr>CacheMaxSize := n\<rparr>)),
      (''VRCVP_YTDLP_PATH'', \<lambda>v c. Gives (c\<lparr>YtdlpPath := v\<rparr>)),
      (''VRCVP_FFMPEG_PATH'', \<lambda>v c. Gives (c\<lparr>FfmpegPath := v\<rparr>)),
      (''VRCVP_FFPROBE_PATH'', \<lambda>v c. Gives (c\<lparr>FfprobePath := v\<rparr>)),
      (''VRCVP_COOKIES_FILE'', \<lambda>v c. Gives (c\<lparr>CookiesFile := v\<rparr>)),
      (''VRCVP_SECRET'', \<lambda>v c. Gives (c\<lparr>Secret := v\<rparr>)),
      (''VRCVP_SEGMENT_CACHE_TTL'', \<lambda>v c. lift_error (parseDuration oob v) (\<lambda>t. c\<lparr>SegmentCacheTTL := t\<rparr>)),
      (''VRCVP_SEGMENT_CACHE_SIZE'',
         \<lambda>v c. case ParseInt v of None \<Rightarrow> Fails (Msg ''VRCVP_SEGMENT_CACHE_SIZE'')
                               | Some n \<Rightarrow> Gives (c\<lparr>SegmentCacheSize := n\<rparr>)),
      (''VRCVP_LOG_LEVEL'', \<lambda>v c. Gives (c\<lparr>LogLevel := v\<rparr>)),
      (''VRCVP_PROXY'', \<lambda>v c. Gives (c\<lparr>Proxy := v\<rparr>)),
      (''VRCVP_YTDLP_FORMAT'', \<lambda>v c. Gives (c\<lparr>YtdlpFormat := v\<rparr>)),
      (''VRCVP_YTDLP_EXTRA_ARGS_JSON'',
         \<lambda>v c. lift_error (parseExtraArgsJSON v) (\<lambda>xs. c\<lparr>YtdlpExtraArgs := xs\<rparr>)),
      (''VRCVP_FFMPEG_HWACCEL'', \<lambda>v c. Gives (c\<lparr>FfmpegHWAccel := v\<rparr>)),
      (''VRCVP_FFMPEG_HW_DEVICE'', \<lambda>v c. Gives (c\<lparr>FfmpegHWDevice := v\<rparr>)),
      (''VRCVP_TRANSCODE_PRESET'', \<lambda>v c. Gives (c\<lparr>TranscodePreset := v\<rparr>)),
      (''VRCVP_TRANSCODE_CRF'', \<lambda>v c. Gives (c\<lparr>TranscodeCRF := v\<rparr>)),
      (''VRCVP_TRANSCODE_VIDEO_BITRATE'', \<lambda>v c. Gives (c\<lparr>TranscodeVideoBitrate := v\<rparr>)),
      (''VRCVP_TRANSCODE_MAXRATE'', \<lambda>v c. Gives (c\<lparr>TranscodeMaxrate := v\<rparr>)),
      (''VRCVP_TRANSCODE_BUFSIZE'', \<lambda>v c. Gives (c\<lparr>TranscodeBufsize := v\<rparr>)),
      (''VRCVP_TRANSCODE_AUDIO_BITRATE'', \<lambda>v c. Gives (c\<lparr>TranscodeAudioBitrate := v\<rparr>))]"

fun load_env :: "(string \<Rightarrow> string) \<Rightarrow> (string \<times> setter) list \<Rightarrow> Config \<Rightarrow> Config outcome" where
  "load_env env [] c = Gives c"
| "load_env env ((name, put) # rest) c =
     (let v = TrimSpace (env name)
      in and_then (if v \<noteq> '''' then put v c else Gives c) (load_env env rest))"

section \<open>The flags\<close>

text \<open>The two flags with a text of their own are kept beside the configuration.\<close>

record flag_state =
  fs_cfg :: Config
  fs_cacheMaxSize :: string
  fs_extraArgs :: string

definition set_cfg :: "(Config \<Rightarrow> Config) \<Rightarrow> flag_state \<Rightarrow> flag_state" where
  "set_cfg f st = st\<lparr>fs_cfg := f (fs_cfg st)\<rparr>"

type_synonym flag_setter = "string \<Rightarrow> flag_state \<Rightarrow> flag_state option"

definition flag_string :: "(string \<Rightarrow> Config \<Rightarrow> Config) \<Rightarrow> flag_setter" where
  "flag_string f v st = Some (set_cfg (f v) st)"

definition flag_value :: "(string \<Rightarrow> int option) \<Rightarrow> (int \<Rightarrow> Config \<Rightarrow> Config) \<Rightarrow> flag_setter" where
  "flag_value p f v st = (case p v of None \<Rightarrow> None | Some i \<Rightarrow> Some (set_cfg (f i) st))"

definition flag_table :: "(string \<times> flag_setter) list" where
  "flag_table =
     [(''listen'', flag_string (\<lambda>v. Listen_update (\<lambda>_. v))),
      (''shutdown-timeout'', flag_value ParseDuration (\<lambda>v. ShutdownTimeout_update (\<lambda>_. v))),
      (''cache-dir'', flag_string (\<lambda>v. CacheDir_update (\<lambda>_. v))),
      (''cache-max-size'', \<lambda>v st. Some (st\<lparr>fs_cacheMaxSize := v\<rparr>)),
      (''ytdlp-path'', flag_string (\<lambda>v. YtdlpPath_update (\<lambda>_. v))),
      (''ffmpeg-path'', flag_string (\<lambda>v. FfmpegPath_update (\<lambda>_. v))),
      (''ffprobe-path'', flag_string (\<lambda>v. FfprobePath_update (\<lambda>_. v))),
      (''cookies-file'', flag_string (\<lambda>v. CookiesFile_update (\<lambda>_. v))),
      (''secret'', flag_string (\<lambda>v. Secret_update (\<lambda>_. v))),
      (''segment-cache-ttl'', flag_value ParseDuration (\<lambda>v. SegmentCacheTTL_update (\<lambda>_. v))),
      (''segment-cache-size'', flag_value ParseInt0 (\<lambda>v. SegmentCacheSize_update (\<lambda>_. v))),
      (''log-level'', flag_string (\<lambda>v. LogLevel_update (\<lambda>_. v))),
      (''proxy'', flag_string (\<lambda>v. Proxy_update (\<lambda>_. v))),
      (''ytdlp-format'', flag_string (\<lambda>v. YtdlpFormat_update (\<lambda>_. v))),
      (''ytdlp-extra-args-json'', \<lambda>v st. Some (st\<lparr>fs_extraArgs := v\<rparr>)),
      (''ffmpeg-hwaccel'', flag_string (\<lambda>v. FfmpegHWAccel_update (\<lambda>_. v))),
      (''ffmpeg-hw-device'', flag_string (\<lambda>v. FfmpegHWDevice_update (\<lambda>_. v))),
      (''transcode-preset'', flag_string (\<lambda>v. TranscodePreset_update (\<lambda>_. v))),
      (''transcode-crf'', flag_string (\<lambda>v. TranscodeCRF_update (\<lambda>_. v))),
      (''transcode-video-bitrate'', flag_string (\<lambda>v. TranscodeVideoBitrate_update (\<lambda>_. v))),
      (''transcode-maxrate'', flag_string (\<lambda>v. TranscodeMaxrate_update (\<lambda>_. v))),
      (''transcode-bufsize'', flag_string (\<lambda>v. TranscodeBufsize_update (\<lambda>_. v))),
      (''transcode-audio-bitrate'', flag_string (\<lambda>v. TranscodeAudioBitrate_update (\<lambda>_. v)))]"

text \<open>
  \<open>FlagSet.Parse\<close>: one or two dashes, the value behind an equals sign or in the next
  argument; two dashes alone end the flags, and so does the first argument without a dash.
\<close>

definition flag_name :: "string \<Rightarrow> string" where
  "flag_name s = (if HasPrefix s ''--'' then drop 2 s else drop 1 s)"

fun parse_flags :: "flag_state \<Rightarrow> string list \<Rightarrow> (flag_state \<times> string list) outcome" where
  "parse_flags st [] = Gives (st, [])"
| "parse_flags st (s # args) =
     (if length s < 2 \<or> hd s \<noteq> CHR ''-'' then Gives (st, s # args)
      else if s = ''--'' then Gives (st, args)
      else
        (let whole = flag_name s
         in if whole = '''' \<or> hd whole = CHR ''-'' \<or> hd whole = CHR ''='' then Exits 2
            else
              (let (name, given) = (case Cut whole (CHR ''='') of
                     None \<Rightarrow> (whole, None) | Some (n, v) \<Rightarrow> (n, Some v))
               in case map_of flag_table name of
                    None \<Rightarrow> if name = ''help'' \<or> name = ''h'' then Exits 0 else Exits 2
                  | Some put \<Rightarrow>
                      (case given of
                         Some v \<Rightarrow> (case put v st of None \<Rightarrow> Exits 2 | Some st' \<Rightarrow> parse_flags st' args)
                       | None \<Rightarrow>
                           (case args of
                              [] \<Rightarrow> Exits 2
                            | v # rest \<Rightarrow>
                                (case put v st of None \<Rightarrow> Exits 2 | Some st' \<Rightarrow> parse_flags st' rest))))))"

section \<open>Checks\<close>

definition after_flags :: "(f64 \<Rightarrow> int) \<Rightarrow> flag_state \<times> string list \<Rightarrow> Config outcome" where
  "after_flags oob p =
     (let (st, rest) = p;
          size = TrimSpace (fs_cacheMaxSize st);
          extra = TrimSpace (fs_extraArgs st)
      in and_then
           (if size \<noteq> '''' then lift_error (parseSize oob size) (\<lambda>n. (fs_cfg st)\<lparr>CacheMaxSize := n\<rparr>)
            else Gives (fs_cfg st))
           (\<lambda>c. and_then
              (if extra \<noteq> '''' then lift_error (parseExtraArgsJSON extra) (\<lambda>xs. c\<lparr>YtdlpExtraArgs := xs\<rparr>)
               else Gives c)
              (\<lambda>c. Gives (c\<lparr>GameCommand := rest\<rparr>))))"

definition validate :: "Config \<Rightarrow> Config outcome" where
  "validate c =
     (if TrimSpace (Listen c) = '''' then Fails (Msg ''listen address must not be empty'')
      else if ShutdownTimeout c \<le> 0 then Fails (Msg ''shutdown timeout must be greater than zero'')
      else if TrimSpace (CacheDir c) = '''' then Fails (Msg ''cache directory must not be empty'')
      else if CacheMaxSize c \<le> 0 then Fails (Msg ''cache max size must be greater than zero'')
      else if SegmentCacheSize c < 0 then Fails (Msg ''segment cache size must not be negative'')
      else if SegmentCacheTTL c < 0 then Fails (Msg ''segment cache ttl must not be negative'')
      else case parseLogLevel (LogLevel c) of Inl e \<Rightarrow> Fails e | Inr _ \<Rightarrow>
           (case parseProxyURL (Proxy c) of Inl e \<Rightarrow> Fails e | Inr _ \<Rightarrow>
            (case normalizeHWBackend (FfmpegHWAccel c) of Inl e \<Rightarrow> Fails e | Inr b \<Rightarrow>
               if b = hwVAAPI \<and> TrimSpace (FfmpegHWDevice c) = '''' then Fails (Msg ''vaapi requires a device'')
               else Gives (c\<lparr>FfmpegBackend := b\<rparr>))))"

definition LoadConfig :: "(f64 \<Rightarrow> int) \<Rightarrow> string \<Rightarrow> (string \<Rightarrow> string) \<Rightarrow> string list \<Rightarrow> Config outcome" where
  "LoadConfig oob cacheDir env args =
     and_then (load_env env (env_setters oob) (default_config cacheDir))
       (\<lambda>c. and_then (parse_flags \<lparr>fs_cfg = c, fs_cacheMaxSize = '''', fs_extraArgs = ''''\<rparr> args)
          (\<lambda>p. and_then (after_flags oob p) validate))"


section \<open>Properties of the sizes\<close>

lemma ToUpper_id: "\<forall>c\<in>set s. is_digit c \<or> c \<in> set ''GIBMK'' \<Longrightarrow> ToUpper s = s"
proof (induction s)
  case (Cons c s)
  then have c: "is_digit c \<or> c \<in> set ''GIBMK''" by simp
  then have "upper_char c = c" "c \<noteq> CHR 0xC4" "c \<noteq> CHR 0xC5"
    by (auto simp: is_digit_def digit_val_def upper_char_def Let_def split: if_splits)
  with Cons show ?case by simp
qed simp

lemma solid_unit: "c \<in> set ''GIBMK'' \<Longrightarrow> solid c"
  by (auto simp: solid_def space_encodings_def)

lemma size_loop_skip:
  "\<not> suffix s u \<Longrightarrow> size_loop oob t u ((s, f) # units) = size_loop oob t u units"
  by (simp add: CutSuffix_def)

lemma size_loop_hit:
  assumes "n < 2 ^ 53" "0 \<le> f" "int n * f < 2 ^ 53" "f < 2 ^ 53"
  shows "size_loop oob t (format_nat n @ s) ((s, f) # units) = Inr (int n * f)"
proof -
  obtain x where x: "ParseFloat (format_nat n) = Some x" "is_whole x n"
    using ParseFloat_digits [OF assms(1)] by blast
  have y: "is_whole (f64_of_int f) (nat f)" using assms by (intro f64_of_int_whole) auto
  have less: "n * nat f < 2 ^ 53"
  proof -
    have "int (n * nat f) < int (2 ^ 53)" using assms(2,3) by simp
    then show ?thesis by (simp only: of_nat_less_iff)
  qed
  have "int64_of_f64 oob (f64_mult x (f64_of_int f)) = int (n * nat f)"
    by (rule int64_of_whole [OF f64_mult_whole [OF x(2) y less] less])
  moreover have "\<not> f64_neg x" by (rule int64_of_whole(2) [OF x(2) assms(1)])
  moreover have "TrimSpace (format_nat n) = format_nat n"
    by (rule TrimSpace_digits [OF format_nat_digits])
  ultimately show ?thesis using x(1) assms(2) by (simp add: Let_def)
qed

lemma suffix_rev: "suffix s (d @ t) \<longleftrightarrow> prefix (rev s) (rev t @ rev d)"
  by (simp add: suffix_to_prefix)

lemma size_loop_units:
  assumes "(suf, f) \<in> set sizeUnits" and "n < 2 ^ 53" "int n * f < 2 ^ 53"
  shows "size_loop oob t (format_nat n @ suf) sizeUnits = Inr (int n * f)"
proof -
  obtain x xs where rev: "rev (format_nat n) = x # xs" by (cases "rev (format_nat n)") auto
  then have "is_digit x" using format_nat_no_sign [of x n] by (metis list.set_intros(1) set_rev)
  then have x: "x \<noteq> CHR ''G''" "x \<noteq> CHR ''M''" "x \<noteq> CHR ''K''" "x \<noteq> CHR ''I''" "x \<noteq> CHR ''B''"
    by (auto simp: is_digit_def digit_val_def)
  note skip = size_loop_skip suffix_rev rev x x [symmetric]
  have hit: "size_loop oob t (format_nat n @ suf) ((suf, f) # units) = Inr (int n * f)" for units
    using assms by (intro size_loop_hit) (auto simp: sizeUnits_def GiB_def MiB_def KiB_def)
  have "suf = ''GIB'' \<or> suf = ''GB'' \<or> suf = ''G'' \<or> suf = ''MIB'' \<or> suf = ''MB'' \<or> suf = ''M'' \<or>
      suf = ''KIB'' \<or> suf = ''KB'' \<or> suf = ''K'' \<or> suf = ''B''"
    using assms(1) by (auto simp: sizeUnits_def)
  then show ?thesis
    using assms(1) hit
    by (elim disjE) (simp_all add: sizeUnits_def skip del: size_loop.simps)
qed

text \<open>
  parseSize: a whole number with a unit of the table is read as that many bytes, exactly, as long
  as the result is below \<open>2 ^ 53\<close>, although it is computed in floating point; a number without a
  unit is exact up to the largest \<open>int64\<close>.
\<close>

theorem parseSize_exact:
  assumes "(suf, f) \<in> set sizeUnits" and "int n * f < 2 ^ 53" and "int k \<le> max_i64"
  shows "parseSize oob (format_nat n @ suf) = Inr (int n * f) \<and> parseSize oob (format_nat k) = Inr (int k)"
proof
  have f: "1 \<le> f" "set suf \<subseteq> set ''GIBMK''" "suf \<noteq> ''''"
    using assms(1) by (auto simp: sizeUnits_def GiB_def MiB_def KiB_def)
  then have "int n * 1 \<le> int n * f" by (intro mult_left_mono) auto
  then have "int n < int (2 ^ 53)" using assms(2) by simp
  then have n: "n < 2 ^ 53" by (simp only: of_nat_less_iff)
  have chars: "\<forall>c\<in>set (format_nat n @ suf). is_digit c \<or> c \<in> set ''GIBMK''"
    using f(2) format_nat_no_sign by auto
  have "solid (hd (format_nat n @ suf))" using hd_format_nat [of n] solid_digit by simp
  moreover have "last suf \<in> set ''GIBMK''" using f(2,3) last_in_set by blast
  then have "solid (last (format_nat n @ suf))" using f(3) solid_unit by simp
  ultimately have "TrimSpace (format_nat n @ suf) = format_nat n @ suf" by (intro TrimSpace_solid) simp
  then show "parseSize oob (format_nat n @ suf) = Inr (int n * f)"
    using ToUpper_id [OF chars] size_loop_units [OF assms(1) n assms(2)] by (simp add: parseSize_def)
next
  obtain x xs where rev: "rev (format_nat k) = x # xs" by (cases "rev (format_nat k)") auto
  then have "is_digit x" using format_nat_no_sign [of x k] by (metis list.set_intros(1) set_rev)
  then have x: "x \<noteq> CHR ''G''" "x \<noteq> CHR ''M''" "x \<noteq> CHR ''K''" "x \<noteq> CHR ''B''"
    by (auto simp: is_digit_def digit_val_def)
  have suf: "suffix s (format_nat k) \<longleftrightarrow> prefix (rev s) (x # xs)" for s
    by (simp add: suffix_to_prefix rev)
  have "TrimSpace (format_nat k) = format_nat k" by (rule TrimSpace_digits [OF format_nat_digits])
  moreover have "ToUpper (format_nat k) = format_nat k"
    by (rule ToUpper_id) (use format_nat_no_sign in blast)
  moreover have "ParseInt (format_nat k) = Some (int k)"
    using decimal.dec_enc [of "int k"] assms(3) by (simp add: FormatInt_nonneg i64_bounds)
  ultimately show "parseSize oob (format_nat k) = Inr (int k)"
    by (simp add: parseSize_def sizeUnits_def CutSuffix_def suf x [symmetric])
qed

theorem parseSize_exact_witness:
  "parseSize (\<lambda>_. 0) (format_nat 500 @ ''MB'') = Inr 524288000"
proof -
  have "(''MB'', MiB) \<in> set sizeUnits" by (simp add: sizeUnits_def)
  then show ?thesis
    using parseSize_exact [of "''MB''" MiB 500 0 "\<lambda>_. 0"] by (simp add: MiB_def max_i64_def)
qed


section \<open>Properties of the configuration\<close>

lemma and_then_Gives: "and_then x f = Gives y \<longleftrightarrow> (\<exists>z. x = Gives z \<and> f z = Gives y)"
  by (cases x) simp_all

lemma normalizeHWBackend_known:
  "normalizeHWBackend v = Inr b \<Longrightarrow> b \<noteq> '''' \<and> h264Backends b \<noteq> None"
  by (auto simp: normalizeHWBackend_def h264Backends_def hw_names Let_def split: if_splits)

lemma validate_Gives:
  assumes "validate c0 = Gives c"
  shows "TrimSpace (Listen c) \<noteq> '''' \<and> 0 < ShutdownTimeout c \<and> TrimSpace (CacheDir c) \<noteq> '''' \<and>
    0 < CacheMaxSize c \<and> 0 \<le> SegmentCacheSize c \<and> 0 \<le> SegmentCacheTTL c \<and>
    (\<exists>l. parseLogLevel (LogLevel c) = Inr l) \<and> (\<exists>p. parseProxyURL (Proxy c) = Inr p) \<and>
    normalizeHWBackend (FfmpegHWAccel c) = Inr (FfmpegBackend c) \<and>
    (FfmpegBackend c = hwVAAPI \<longrightarrow> TrimSpace (FfmpegHWDevice c) \<noteq> '''')"
  using assms unfolding validate_def
  by (simp split: if_splits sum.splits) auto

lemma LoadConfig_validated: "LoadConfig oob dir env args = Gives c \<Longrightarrow> \<exists>c0. validate c0 = Gives c"
  by (auto simp: LoadConfig_def and_then_Gives)

lemma backend_configured:
  assumes "normalizeHWBackend x = Inr b" and "o_backend opts = b"
  shows "h264Backends b = Some (backend (newFfmpegRunner path opts))"
proof -
  have "b \<noteq> ''''" "h264Backends b \<noteq> None" using normalizeHWBackend_known [OF assms(1)] by simp_all
  then show ?thesis using assms(2) by (auto simp: newFfmpegRunner_def backend_def)
qed

text \<open>
  C38. LoadConfig: a configuration that is handed out has an address to listen on, positive
  timeouts and a positive cache budget, a known log level, a proxy URL that parses, and a
  backend of the table: the ffmpeg runner built from it uses exactly this backend and never
  falls back to another, and VAAPI comes with a device.
\<close>

theorem config_valid:
  assumes "LoadConfig oob dir env args = Gives c"
  shows "TrimSpace (Listen c) \<noteq> '''' \<and> TrimSpace (CacheDir c) \<noteq> '''' \<and>
    0 < ShutdownTimeout c \<and> 0 < CacheMaxSize c \<and> 0 \<le> SegmentCacheSize c \<and> 0 \<le> SegmentCacheTTL c \<and>
    (\<exists>l. parseLogLevel (LogLevel c) = Inr l) \<and> (\<exists>p. parseProxyURL (Proxy c) = Inr p) \<and>
    h264Backends (FfmpegBackend c) =
      Some (backend (newFfmpegRunner (FfmpegPath c) (opts\<lparr>o_backend := FfmpegBackend c\<rparr>))) \<and>
    (is_vaapi (backend (newFfmpegRunner (FfmpegPath c) (opts\<lparr>o_backend := FfmpegBackend c\<rparr>))) \<longrightarrow>
      TrimSpace (FfmpegHWDevice c) \<noteq> '''')"
proof -
  obtain c0 where "validate c0 = Gives c" using LoadConfig_validated [OF assms] by blast
  note valid = validate_Gives [OF this]
  then have "FfmpegBackend c \<noteq> ''''" using normalizeHWBackend_known by blast
  have "h264Backends (FfmpegBackend c) =
      Some (backend (newFfmpegRunner (FfmpegPath c) (opts\<lparr>o_backend := FfmpegBackend c\<rparr>)))"
    by (rule backend_configured) (use valid in auto)
  moreover have "is_vaapi (backend (newFfmpegRunner (FfmpegPath c) (opts\<lparr>o_backend := FfmpegBackend c\<rparr>))) \<longleftrightarrow>
      FfmpegBackend c = hwVAAPI"
    using \<open>FfmpegBackend c \<noteq> ''''\<close> by (simp add: backend_vaapi newFfmpegRunner_def hw_names)
  ultimately show ?thesis using valid by simp
qed

lemma default_loads: "\<exists>c. LoadConfig (\<lambda>_. 0) ''/c'' (\<lambda>_. '''') [] = Gives c"
proof -
  have none: "load_env (\<lambda>_. '''') ps c = Gives c" for ps c
    by (induction ps) (auto simp: TrimSpace_solid Let_def)
  have info: "TrimSpace ''info'' = ''info''" "TrimSpace ''software'' = ''software''"
    "TrimSpace ''127.0.0.1:8080'' = ''127.0.0.1:8080''" "TrimSpace ''/c'' = ''/c''" "TrimSpace '''' = ''''"
    by (rule TrimSpace_solid; simp add: solid_def space_encodings_def)+
  have "LoadConfig (\<lambda>_. 0) ''/c'' (\<lambda>_. '''') [] = Gives ((default_config ''/c'')\<lparr>FfmpegBackend := hwSoftware\<rparr>)"
    by (simp add: LoadConfig_def none after_flags_def validate_def default_config_def info parseLogLevel_def
        lower_char_def parseProxyURL_def normalizeHWBackend_def hw_names Second_def GiB_def)
  then show ?thesis by blast
qed

theorem config_valid_witness:
  "case LoadConfig (\<lambda>_. 0) ''/c'' (\<lambda>_. '''') [] of Gives c \<Rightarrow> 0 < CacheMaxSize c | _ \<Rightarrow> False"
proof -
  obtain c where c: "LoadConfig (\<lambda>_. 0) ''/c'' (\<lambda>_. '''') [] = Gives c" using default_loads by blast
  show ?thesis using config_valid [OF c] unfolding c by simp
qed

text \<open>No name of a flag can be taken for a dash or cut at an equals sign.\<close>

lemma flag_names:
  "map_of flag_table name = Some put \<Longrightarrow>
   name \<noteq> '''' \<and> hd name \<noteq> CHR ''-'' \<and> hd name \<noteq> CHR ''='' \<and> CHR ''='' \<notin> set name"
proof -
  assume "map_of flag_table name = Some put"
  then have "name \<in> fst ` set flag_table" by (metis domI dom_map_of_conv_image_fst)
  moreover have "\<forall>n\<in>fst ` set flag_table.
      n \<noteq> '''' \<and> hd n \<noteq> CHR ''-'' \<and> hd n \<noteq> CHR ''='' \<and> CHR ''='' \<notin> set n"
    by (simp add: flag_table_def)
  ultimately show ?thesis by blast
qed

text \<open>
  The flags: every flag may be written with one or two dashes, its value in the same
  argument behind an equals sign or in the next argument, and all four forms mean the same,
  whatever the value looks like.
\<close>

theorem flag_spellings:
  assumes "map_of flag_table name = Some put"
  shows "parse_flags st ((''--'' @ name) # v # args) =
           (case put v st of None \<Rightarrow> Exits 2 | Some st' \<Rightarrow> parse_flags st' args) \<and>
         parse_flags st ((''-'' @ name) # v # args) = parse_flags st ((''--'' @ name) # v # args) \<and>
         parse_flags st ((''--'' @ name @ ''='' @ v) # args) = parse_flags st ((''--'' @ name) # v # args) \<and>
         parse_flags st ((''-'' @ name @ ''='' @ v) # args) = parse_flags st ((''--'' @ name) # v # args)"
proof -
  note n = flag_names [OF assms]
  then obtain c r where name: "name = c # r" "c \<noteq> CHR ''-''" "c \<noteq> CHR ''=''" "CHR ''='' \<notin> set r"
    by (cases name) auto
  have cut: "Cut name (CHR ''='') = None" "Cut (name @ ''='' @ v) (CHR ''='') = Some (name, v)"
    using n Cut_append [of "CHR ''=''" name v] by (simp_all add: Cut_None)
  have long: "flag_name (''--'' @ s) = s" for s by (simp add: flag_name_def HasPrefix_def)
  have short: "flag_name (''-'' @ c # s) = c # s" for s
    using name(2) by (simp add: flag_name_def HasPrefix_def)
  show ?thesis
    using assms cut long [of name] long [of "name @ ''='' @ v"] short [of r] short [of "r @ ''='' @ v"]
    by (simp add: name Let_def)
qed

theorem flag_spellings_witness:
  "parse_flags \<lparr>fs_cfg = default_config ''/c'', fs_cacheMaxSize = '''', fs_extraArgs = ''''\<rparr> [''-cache-max-size=--x''] =
     Gives (\<lparr>fs_cfg = default_config ''/c'', fs_cacheMaxSize = ''--x'', fs_extraArgs = ''''\<rparr>, [])"
  using flag_spellings [of "''cache-max-size''" "\<lambda>v st. Some (st\<lparr>fs_cacheMaxSize := v\<rparr>)"
      "\<lparr>fs_cfg = default_config ''/c'', fs_cacheMaxSize = '''', fs_extraArgs = ''''\<rparr>" "''--x''" "[]"]
  by (simp add: flag_table_def)

end
