(* ===== verification/Disk_Cache.thy ===== *)
theory Disk_Cache
  imports Sha256 "HOL-Library.AList" "HOL-Library.Char_ord" "HOL-Library.List_Lexorder"
    "HOL-Library.Multiset"
begin

text \<open>
  cache.go and cachekeys.go: the ids of finished videos, the cache directory with its LRU
  eviction, and the keys of the in-memory cache.

  A directory is the list of its entries, each name once, in the order \<open>ReadDir\<close> gives
  them; a path is a directory and the name of an entry in it, which is what
  \<open>filepath.Join\<close> makes of a name without a separator. What the operating system may refuse
  (a rename, a removal) is an argument.
\<close>

section \<open>Ids and paths\<close>

definition normalizeURL :: "string \<Rightarrow> string" where
  "normalizeURL rawURL =
     (let trimmed = TrimSpace rawURL
      in case Cut trimmed (CHR ''#'') of None \<Rightarrow> trimmed | Some (before, _) \<Rightarrow> before)"

definition cacheID :: "string \<Rightarrow> string" where
  "cacheID rawURL = hex (Sum256 (bytes_of (normalizeURL rawURL)))"

text \<open>The pattern is 64 characters out of a-f and 0-9, and nothing else.\<close>

definition validateID :: "string \<Rightarrow> bool" where
  "validateID i \<longleftrightarrow> length i = 64 \<and> list_all is_hex i"

type_synonym path = "string \<times> string"

section \<open>The directory\<close>

datatype node = Dir | Reg (n_size: int) (n_mod: int)

type_synonym directory = "(string \<times> node) list"

record cache =
  c_dir :: string
  c_tmpDir :: string
  c_maxSize :: int
  c_main :: directory
  c_tmp :: directory

text \<open>
  \<open>NewCache\<close> on a disk with these directories: \<open>tmp0\<close> is what \<open>ReadDir\<close> finds in the
  temporary directory (None: it fails), and the entries that can be removed are.
\<close>

definition NewCache ::
  "string \<Rightarrow> int \<Rightarrow> go_error option \<Rightarrow> directory \<Rightarrow> directory \<Rightarrow> bool \<Rightarrow> (string \<Rightarrow> bool) \<Rightarrow> go_error + cache"
where
  "NewCache dir maxSize mkdir_err main0 tmp0 readdir_ok removable =
     (case mkdir_err of
        Some e \<Rightarrow> Inl e
      | None \<Rightarrow>
          Inr \<lparr>c_dir = dir, c_tmpDir = dir @ ''/tmp'', c_maxSize = maxSize, c_main = main0,
               c_tmp = (if readdir_ok then filter (\<lambda>(n, _). \<not> removable n) tmp0 else tmp0)\<rparr>)"

definition cachePath :: "cache \<Rightarrow> string \<Rightarrow> go_error + path" where
  "cachePath c i = (if \<not> validateID i then Inl (Msg ''invalid cache id'') else Inr (c_dir c, i @ ''.mp4''))"

definition Has :: "cache \<Rightarrow> string \<Rightarrow> bool" where
  "Has c i =
     (case cachePath c i of
        Inl _ \<Rightarrow> False
      | Inr (_, n) \<Rightarrow> (case map_of (c_main c) n of Some (Reg _ _) \<Rightarrow> True | _ \<Rightarrow> False))"

fun set_mod :: "int \<Rightarrow> node \<Rightarrow> node" where
  "set_mod t Dir = Dir"
| "set_mod t (Reg sz _) = Reg sz t"

definition Touch :: "int \<Rightarrow> cache \<Rightarrow> string \<Rightarrow> cache \<times> go_error option" where
  "Touch now c i =
     (case cachePath c i of
        Inl e \<Rightarrow> (c, Some e)
      | Inr (_, n) \<Rightarrow>
          (case map_of (c_main c) n of
             None \<Rightarrow> (c, Some (OsError ''no such file or directory''))
           | Some nd \<Rightarrow> (c\<lparr>c_main := AList.update n (set_mod now nd) (c_main c)\<rparr>, None)))"

definition tempPath :: "cache \<Rightarrow> string \<Rightarrow> string \<Rightarrow> path" where
  "tempPath c i token = (c_tmpDir c, i @ ''.'' @ token @ ''.part'')"

text \<open>\<open>randomToken\<close> of jobs.go: eight random bytes, or the clock when there are none.\<close>

definition randomToken :: "byte list option \<Rightarrow> int \<Rightarrow> string" where
  "randomToken rnd unixNano = (case rnd of Some b \<Rightarrow> hex b | None \<Rightarrow> FormatInt unixNano)"

section \<open>Eviction\<close>

record cacheEntry =
  ce_path :: string
  ce_size :: int
  ce_mod :: int

definition entry_of :: "string \<times> node \<Rightarrow> cacheEntry option" where
  "entry_of = (\<lambda>(n, nd). case nd of
       Dir \<Rightarrow> None
     | Reg sz t \<Rightarrow> if \<not> HasSuffix n ''.mp4'' then None
                  else Some \<lparr>ce_path = n, ce_size = sz, ce_mod = t\<rparr>)"

text \<open>The entries and their total; \<open>None\<close> is a \<open>ReadDir\<close> that fails.\<close>

definition scanLocked :: "directory option \<Rightarrow> int \<times> cacheEntry list" where
  "scanLocked d =
     (case d of
        None \<Rightarrow> (0, [])
      | Some d' \<Rightarrow>
          (let es = List.map_filter entry_of d' in (foldl add64 0 (map ce_size es), es)))"

definition Size :: "cache \<Rightarrow> int" where
  "Size c = fst (scanLocked (Some (c_main c)))"

fun evict_loop ::
  "(string \<Rightarrow> bool) \<Rightarrow> int \<Rightarrow> cacheEntry list \<Rightarrow> int \<Rightarrow> directory \<Rightarrow> directory"
where
  "evict_loop removable maxSize [] tot d = d"
| "evict_loop removable maxSize (e # es) tot d =
     (if tot \<le> maxSize then d
      else if \<not> removable (ce_path e) then evict_loop removable maxSize es tot d
      else evict_loop removable maxSize es (sub64 tot (ce_size e)) (AList.delete (ce_path e) d))"

text \<open>\<open>srt\<close> is the sort by modification time, which leaves the order of equal ones open.\<close>

definition evictLocked ::
  "(cacheEntry list \<Rightarrow> cacheEntry list) \<Rightarrow> (string \<Rightarrow> bool) \<Rightarrow> int \<Rightarrow> directory \<Rightarrow> directory"
where
  "evictLocked srt removable maxSize d =
     (case scanLocked (Some d) of
        (tot, es) \<Rightarrow> if tot \<le> maxSize then d else evict_loop removable maxSize (srt es) tot d)"

text \<open>
  \<open>finalize\<close>: the rename moves the file with its modification time, replaces a file of the
  same name and fails on a missing file or a directory in its place.
\<close>

definition finalize ::
  "(cacheEntry list \<Rightarrow> cacheEntry list) \<Rightarrow> (string \<Rightarrow> bool) \<Rightarrow> go_error option \<Rightarrow> string \<Rightarrow> string \<Rightarrow>
   cache \<Rightarrow> cache \<times> go_error option"
where
  "finalize srt removable rename_err tmpName i c =
     (case cachePath c i of
        Inl e \<Rightarrow> (c, Some e)
      | Inr (_, final) \<Rightarrow>
          (case (rename_err, map_of (c_tmp c) tmpName, map_of (c_main c) final) of
             (Some e, _, _) \<Rightarrow> (c, Some e)
           | (None, None, _) \<Rightarrow> (c, Some (OsError ''no such file or directory''))
           | (None, Some Dir, _) \<Rightarrow> (c, Some (OsError ''not a directory''))
           | (None, Some (Reg sz t), Some Dir) \<Rightarrow> (c, Some (OsError ''file exists''))
           | (None, Some (Reg sz t), _) \<Rightarrow>
               (c\<lparr>c_tmp := AList.delete tmpName (c_tmp c),
                  c_main := evictLocked srt removable (c_maxSize c)
                              (AList.update final (Reg sz t) (c_main c))\<rparr>, None)))"

section \<open>Ids in the paths of requests\<close>

definition cacheIDFromPath :: "string \<Rightarrow> string \<Rightarrow> string option" where
  "cacheIDFromPath path pre =
     (case CutPrefix path pre of
        None \<Rightarrow> None
      | Some rest \<Rightarrow>
          (case CutSuffix rest ''.mp4'' of
             None \<Rightarrow> None
           | Some i \<Rightarrow> if \<not> validateID i then None else Some i))"

section \<open>Keys of the in-memory cache\<close>

text \<open>An \<open>http.Header\<close>: canonical names with their values; \<open>Get\<close> is the first value.\<close>

type_synonym header = "(string \<times> string list) list"

definition header_get :: "header \<Rightarrow> string \<Rightarrow> string" where
  "header_get h n = (case map_of h n of Some (v # _) \<Rightarrow> v | _ \<Rightarrow> '''')"

definition hlsManifestKey :: "string \<Rightarrow> string" where
  "hlsManifestKey url = ''hls_manifest:'' @ url"

definition mpdManifestKey :: "string \<Rightarrow> string" where
  "mpdManifestKey url = ''mpd_manifest:'' @ url"

fun join_nul :: "string list \<Rightarrow> string" where
  "join_nul [] = ''''"
| "join_nul [s] = s"
| "join_nul (s # ss) = s @ CHR 0x00 # join_nul ss"

definition headerDigest :: "header \<Rightarrow> string" where
  "headerDigest headers =
     (if headers = [] then ''noauth''
      else
        (let parts = List.map_filter
               (\<lambda>name. if header_get headers name \<noteq> ''''
                       then Some (ToLower name @ ''='' @ header_get headers name) else None)
               [''Authorization'', ''Cookie'', ''Referer'', ''User-Agent'']
         in if parts = [] then ''noauth''
            else hex (take 8 (Sum256 (bytes_of (join_nul (sort parts)))))))"

definition hlsSegmentKey :: "string \<Rightarrow> header \<Rightarrow> string" where
  "hlsSegmentKey url headers = ''hls_segment:'' @ url @ '':'' @ headerDigest headers"

section \<open>The sort: an interface\<close>

text \<open>
  What the eviction relies on of \<open>slices.SortFunc\<close> with the comparison of modification
  times: a permutation in ascending order. The order of entries of the same time is open.
\<close>

locale lru_order =
  fixes srt :: "cacheEntry list \<Rightarrow> cacheEntry list"
  assumes srt_mset: "mset (srt es) = mset es"
    and srt_sorted: "sorted (map ce_mod (srt es))"
begin

lemma srt_set: "set (srt es) = set es"
  by (metis srt_mset set_mset_mset)

lemma srt_sum: "(\<Sum>e\<leftarrow>srt es. ce_size e) = (\<Sum>e\<leftarrow>es. ce_size e)"
proof -
  have "mset (map ce_size (srt es)) = mset (map ce_size es)" by (simp add: srt_mset)
  then show ?thesis by (metis sum_mset_sum_list)
qed

lemma srt_distinct: "distinct (map ce_path es) \<Longrightarrow> distinct (map ce_path (srt es))"
proof -
  have "mset (map ce_path (srt es)) = mset (map ce_path es)" by (simp add: srt_mset)
  then show "distinct (map ce_path es) \<Longrightarrow> distinct (map ce_path (srt es))"
    by (metis mset_eq_imp_distinct_iff)
qed

lemma srt_split:
  assumes "a \<in> set (take k (srt es))" and "b \<in> set (drop k (srt es))"
  shows "ce_mod a \<le> ce_mod b"
proof -
  have "sorted (map ce_mod (take k (srt es)) @ map ce_mod (drop k (srt es)))"
    using srt_sorted [of es] by (metis append_take_drop_id map_append)
  with assms show ?thesis by (force simp: sorted_append)
qed

lemma srt_last:
  assumes "0 < k" and "k \<le> length es" and "a \<in> set (take k (srt es))"
  shows "ce_mod a \<le> ce_mod (srt es ! (k - 1))"
proof -
  have len: "length (srt es) = length es" by (metis srt_mset mset_eq_length)
  obtain i where "i < k" "i < length (srt es)" "a = srt es ! i"
    using assms(3) by (auto simp: in_set_conv_nth)
  moreover have "map ce_mod (srt es) ! i \<le> map ce_mod (srt es) ! (k - 1)"
    using srt_sorted [of es] assms(1,2) len calculation by (intro sorted_nth_mono) simp_all
  ultimately show ?thesis using assms(1,2) len by simp
qed

end

interpretation by_age: lru_order "sort_key ce_mod"
  by unfold_locales simp_all

section \<open>Lemmas on the directory\<close>

definition entries :: "directory \<Rightarrow> cacheEntry list" where
  "entries d = List.map_filter entry_of d"

definition dir_size :: "directory \<Rightarrow> int" where
  "dir_size d = (\<Sum>e\<leftarrow>entries d. ce_size e)"

definition dir_ok :: "directory \<Rightarrow> bool" where
  "dir_ok d \<longleftrightarrow> distinct (map fst d) \<and> (\<forall>e\<in>set (entries d). 0 \<le> ce_size e) \<and> dir_size d \<le> max_i64"

lemma entries_simps [simp]:
  "entries [] = []"
  "entries (x # d) = (case entry_of x of None \<Rightarrow> entries d | Some e \<Rightarrow> e # entries d)"
  "entries (d @ d') = entries d @ entries d'"
  by (simp_all add: entries_def map_filter_def split: option.split)

lemma entry_path: "entry_of (n, nd) = Some e \<Longrightarrow> ce_path e = n \<and> (\<exists>sz t. nd = Reg sz t) \<and> HasSuffix n ''.mp4''"
  by (auto simp: entry_of_def split: node.splits if_splits)

lemma entries_in: "e \<in> set (entries d) \<longleftrightarrow> (\<exists>x\<in>set d. entry_of x = Some e)"
  by (induction d) (auto split: option.splits)

lemma entries_paths: "e \<in> set (entries d) \<Longrightarrow> ce_path e \<in> fst ` set d"
  by (force simp: entries_in dest: entry_path)

lemma entries_distinct: "distinct (map fst d) \<Longrightarrow> distinct (map ce_path (entries d))"
proof (induction d)
  case (Cons x d)
  then show ?case using entry_path entries_paths by (cases x) (force split: option.splits)
qed simp

text \<open>A file taken out takes its entry with it.\<close>

lemma entries_filter:
  "entries (filter (\<lambda>x. fst x \<notin> N) d) = filter (\<lambda>e. ce_path e \<notin> N) (entries d)"
proof (induction d)
  case (Cons x d)
  then show ?case by (cases x) (auto dest: entry_path split: option.splits)
qed simp

lemma delete_filter: "AList.delete k d = filter (\<lambda>x. fst x \<noteq> k) d"
  by (simp add: AList.delete_eq case_prod_beta' eq_commute [of k])

lemma sum_filter_split:
  "(\<Sum>e\<leftarrow>filter P es. f e) = (\<Sum>e\<leftarrow>es. f e) - (\<Sum>e\<leftarrow>filter (\<lambda>e. \<not> P e) es. (f e :: int))"
  by (induction es) auto

text \<open>With a total that fits an \<open>int64\<close>, the running sum does not wrap around.\<close>

lemma foldl_add64:
  assumes "\<forall>x\<in>set xs. 0 \<le> x" and "0 \<le> a" and "a + sum_list xs \<le> max_i64"
  shows "foldl add64 a xs = a + sum_list xs"
  using assms
proof (induction xs arbitrary: a)
  case (Cons x xs)
  have "0 \<le> sum_list xs" using Cons.prems by (intro sum_list_nonneg) simp
  then have "add64 a x = a + x" using Cons.prems by (intro add64_nonneg) auto
  with Cons show ?case by (simp add: add.assoc)
qed simp

lemma scan_ok: "dir_ok d \<Longrightarrow> scanLocked (Some d) = (dir_size d, entries d)"
  using foldl_add64 [of "map ce_size (entries d)" 0]
  by (auto simp: scanLocked_def Let_def dir_ok_def dir_size_def entries_def [symmetric])

text \<open>The loop removes the entries before the place where the rest fits.\<close>

lemma evict_loop_prefix:
  assumes "\<forall>e\<in>set es. 0 \<le> ce_size e" and "(\<Sum>e\<leftarrow>es. ce_size e) \<le> tot" and "tot \<le> max_i64"
    and "0 \<le> maxSize" and "tot \<le> maxSize + (\<Sum>e\<leftarrow>es. ce_size e)" and "\<And>n. removable n"
  shows "\<exists>k\<le>length es.
    evict_loop removable maxSize es tot d = filter (\<lambda>x. fst x \<notin> ce_path ` set (take k es)) d \<and>
    tot - (\<Sum>e\<leftarrow>take k es. ce_size e) \<le> maxSize \<and>
    (0 < k \<longrightarrow> maxSize < tot - (\<Sum>e\<leftarrow>take (k - 1) es. ce_size e))"
  using assms(1-3,5)
proof (induction es arbitrary: tot d)
  case Nil
  then show ?case by auto
next
  case (Cons e es)
  show ?case
  proof (cases "tot \<le> maxSize")
    case True
    then show ?thesis by (intro exI [of _ 0]) simp
  next
    case False
    have s: "0 \<le> (\<Sum>e\<leftarrow>es. ce_size e)" using Cons.prems by (intro sum_list_nonneg) auto
    have t: "sub64 tot (ce_size e) = tot - ce_size e"
      using Cons.prems s assms(4) False by (intro sub64_nonneg) auto
    obtain k where k: "k \<le> length es"
      "evict_loop removable maxSize es (tot - ce_size e) (AList.delete (ce_path e) d) =
         filter (\<lambda>x. fst x \<notin> ce_path ` set (take k es)) (AList.delete (ce_path e) d)"
      "tot - ce_size e - (\<Sum>e\<leftarrow>take k es. ce_size e) \<le> maxSize"
      "0 < k \<longrightarrow> maxSize < tot - ce_size e - (\<Sum>e\<leftarrow>take (k - 1) es. ce_size e)"
      using Cons.IH [of "tot - ce_size e" "AList.delete (ce_path e) d"] Cons.prems by auto
    have "evict_loop removable maxSize (e # es) tot d =
        filter (\<lambda>x. fst x \<notin> ce_path ` set (take (Suc k) (e # es))) d"
      using False assms(6) k(2) by (simp add: t delete_filter conj_commute)
    then show ?thesis using k False
      by (intro exI [of _ "Suc k"]) (cases k, auto)
  qed
qed

lemma filter_take_keys:
  assumes "distinct (map f xs)"
  shows "filter (\<lambda>x. f x \<in> f ` set (take k xs)) xs = take k xs"
proof -
  have "distinct (map f (take k xs) @ map f (drop k xs))"
    using assms by (metis append_take_drop_id map_append)
  then have "f ` set (take k xs) \<inter> f ` set (drop k xs) = {}" by simp
  then have "\<forall>x\<in>set (drop k xs). f x \<notin> f ` set (take k xs)" by blast
  then have "filter (\<lambda>x. f x \<in> f ` set (take k xs)) (drop k xs) = []" by (simp add: filter_empty_conv)
  moreover have "filter (\<lambda>x. f x \<in> f ` set (take k xs)) (take k xs) = take k xs"
    by (simp add: filter_id_conv)
  ultimately show ?thesis by (metis append_take_drop_id filter_append append_Nil2)
qed

lemma dir_ok_filter:
  assumes "dir_ok d"
  shows "dir_ok (filter (\<lambda>x. fst x \<notin> N) d)"
proof -
  have nonneg: "\<forall>e\<in>set (entries d). 0 \<le> ce_size e" using assms by (simp add: dir_ok_def)
  have "0 \<le> (\<Sum>e\<leftarrow>filter (\<lambda>e. \<not> ce_path e \<notin> N) (entries d). ce_size e)"
    using nonneg by (intro sum_list_nonneg) auto
  then have "dir_size (filter (\<lambda>x. fst x \<notin> N) d) \<le> dir_size d"
    unfolding dir_size_def entries_filter by (subst sum_filter_split) simp
  with assms show ?thesis by (auto simp: dir_ok_def entries_filter distinct_map_filter)
qed

context lru_order
begin

text \<open>
  The result of an eviction: the first \<open>k\<close> entries by age are removed, with the least
  \<open>k\<close> for which the rest fits.
\<close>

lemma evictLocked_first:
  assumes ok: "dir_ok d" and mx: "0 \<le> maxSize" and rm: "\<And>n. removable n"
  shows "\<exists>k\<le>length (entries d).
    evictLocked srt removable maxSize d =
      filter (\<lambda>x. fst x \<notin> ce_path ` set (take k (srt (entries d)))) d \<and>
    dir_size (evictLocked srt removable maxSize d) =
      dir_size d - (\<Sum>e\<leftarrow>take k (srt (entries d)). ce_size e) \<and>
    dir_size (evictLocked srt removable maxSize d) \<le> maxSize \<and>
    (0 < k \<longrightarrow> maxSize < dir_size (evictLocked srt removable maxSize d)
                         + ce_size (srt (entries d) ! (k - 1)))"
proof -
  let ?S = "srt (entries d)"
  have len: "length ?S = length (entries d)" by (metis srt_mset mset_eq_length)
  have sum: "(\<Sum>e\<leftarrow>?S. ce_size e) = dir_size d" by (simp add: srt_sum dir_size_def)
  have dist: "distinct (map ce_path ?S)"
    using ok by (intro srt_distinct entries_distinct) (simp add: dir_ok_def)
  have "\<exists>k\<le>length ?S.
      evictLocked srt removable maxSize d = filter (\<lambda>x. fst x \<notin> ce_path ` set (take k ?S)) d \<and>
      dir_size d - (\<Sum>e\<leftarrow>take k ?S. ce_size e) \<le> maxSize \<and>
      (0 < k \<longrightarrow> maxSize < dir_size d - (\<Sum>e\<leftarrow>take (k - 1) ?S. ce_size e))"
  proof (cases "dir_size d \<le> maxSize")
    case True
    with ok show ?thesis by (intro exI [of _ 0]) (simp add: evictLocked_def scan_ok)
  next
    case False
    have nonneg: "\<forall>e\<in>set ?S. 0 \<le> ce_size e" using ok by (simp add: srt_set dir_ok_def)
    have "evictLocked srt removable maxSize d = evict_loop removable maxSize ?S (dir_size d) d"
      using False ok by (simp add: evictLocked_def scan_ok)
    with evict_loop_prefix [where removable = removable and maxSize = maxSize
        and es = "?S" and tot = "dir_size d" and d = d] nonneg rm ok mx sum
    show ?thesis by (simp add: dir_ok_def)
  qed
  then obtain k where k: "k \<le> length ?S"
    and res: "evictLocked srt removable maxSize d = filter (\<lambda>x. fst x \<notin> ce_path ` set (take k ?S)) d"
    and fits: "dir_size d - (\<Sum>e\<leftarrow>take k ?S. ce_size e) \<le> maxSize"
    and least: "0 < k \<longrightarrow> maxSize < dir_size d - (\<Sum>e\<leftarrow>take (k - 1) ?S. ce_size e)"
    by blast
  let ?P = "\<lambda>e. ce_path e \<in> ce_path ` set (take k ?S)"
  have "mset (filter ?P (entries d)) = mset (filter ?P ?S)" by (simp add: srt_mset)
  also have "filter ?P ?S = take k ?S" using dist by (rule filter_take_keys)
  finally have "mset (map ce_size (filter ?P (entries d))) = mset (map ce_size (take k ?S))" by simp
  then have "(\<Sum>e\<leftarrow>filter ?P (entries d). ce_size e) = (\<Sum>e\<leftarrow>take k ?S. ce_size e)"
    by (metis sum_mset_sum_list)
  then have size: "dir_size (evictLocked srt removable maxSize d)
      = dir_size d - (\<Sum>e\<leftarrow>take k ?S. ce_size e)"
    unfolding res dir_size_def entries_filter by (subst sum_filter_split) simp
  have "take k ?S = take (k - 1) ?S @ [?S ! (k - 1)]" if "0 < k"
    using that k by (cases k) (simp_all add: take_Suc_conv_app_nth)
  with size k res fits least len show ?thesis by (intro exI [of _ k]) auto
qed

end

lemma nth_take_mem: "i < k \<Longrightarrow> i < length xs \<Longrightarrow> xs ! i \<in> set (take k xs)"
  by (auto simp: in_set_conv_nth intro: exI [of _ i])

lemma entry_of_node:
  "entry_of x = Some e \<Longrightarrow>
   ce_path e = fst x \<and> ce_size e = n_size (snd x) \<and> ce_mod e = n_mod (snd x) \<and>
   HasSuffix (fst x) ''.mp4'' \<and> snd x \<noteq> Dir"
  by (cases x) (auto simp: entry_of_def split: node.splits if_splits)

lemma entry_of_video: "HasSuffix (fst x) ''.mp4'' \<Longrightarrow> snd x \<noteq> Dir \<Longrightarrow> \<exists>e. entry_of x = Some e"
  by (cases x) (auto simp: entry_of_def split: node.splits)

lemma dir_entry_unique:
  assumes "dir_ok d" and "x \<in> set d" and "e \<in> set (entries d)" and "fst x = ce_path e"
  shows "entry_of x = Some e"
proof -
  obtain y where y: "y \<in> set d" "entry_of y = Some e" using assms(3) by (auto simp: entries_in)
  then have "fst y = fst x" using assms(4) entry_of_node by metis
  with assms(1,2) y(1) have "y = x" by (auto simp: dir_ok_def distinct_map inj_on_def)
  with y(2) show ?thesis by simp
qed

context lru_order
begin

lemma evicted_entry:
  assumes "dir_ok d" and "e \<in> set (take k (srt (entries d)))" and "x \<in> set d" and "fst x = ce_path e"
  shows "entry_of x = Some e"
proof (rule dir_entry_unique [OF assms(1,3) _ assms(4)])
  show "e \<in> set (entries d)" using assms(2) set_take_subset srt_set by fastforce
qed

lemma evictLocked_lru_rule:
  assumes ok: "dir_ok d" and mx: "0 \<le> maxSize"
  defines "d' \<equiv> evictLocked srt (\<lambda>_. True) maxSize d"
  shows "dir_size d' \<le> maxSize"
    and "set d' \<subseteq> set d"
    and "a \<in> set d \<Longrightarrow> a \<notin> set d' \<Longrightarrow> HasSuffix (fst a) ''.mp4'' \<and> snd a \<noteq> Dir"
    and "a \<in> set d \<Longrightarrow> a \<notin> set d' \<Longrightarrow> b \<in> set d' \<Longrightarrow> HasSuffix (fst b) ''.mp4'' \<Longrightarrow> snd b \<noteq> Dir \<Longrightarrow>
         n_mod (snd a) \<le> n_mod (snd b)"
    and "d' \<noteq> d \<Longrightarrow> \<exists>a\<in>set d - set d'. (\<forall>c\<in>set d - set d'. n_mod (snd c) \<le> n_mod (snd a)) \<and>
         maxSize < dir_size d' + n_size (snd a)"
    and "dir_ok d'"
proof -
  let ?S = "srt (entries d)"
  obtain k where k: "k \<le> length (entries d)"
    and d': "d' = filter (\<lambda>x. fst x \<notin> ce_path ` set (take k ?S)) d"
    and fits: "dir_size d' \<le> maxSize"
    and least: "0 < k \<longrightarrow> maxSize < dir_size d' + ce_size (?S ! (k - 1))"
    using evictLocked_first [where removable = "\<lambda>_. True", OF ok mx TrueI] unfolding d'_def by blast
  have len: "length ?S = length (entries d)" by (metis srt_mset mset_eq_length)
  have gone: "\<exists>e\<in>set (take k ?S). entry_of a = Some e" if "a \<in> set d" "a \<notin> set d'" for a
  proof -
    from that obtain e where e: "e \<in> set (take k ?S)" "fst a = ce_path e" unfolding d' by auto
    from evicted_entry [OF ok e(1) that(1) e(2)] e(1) show ?thesis by blast
  qed
  show "dir_size d' \<le> maxSize" "set d' \<subseteq> set d" by (rule fits) (auto simp: d')
  show "dir_ok d'" unfolding d' by (rule dir_ok_filter [OF ok])
  show "HasSuffix (fst a) ''.mp4'' \<and> snd a \<noteq> Dir" if "a \<in> set d" "a \<notin> set d'"
    using gone [OF that] entry_of_node by blast
  show "n_mod (snd a) \<le> n_mod (snd b)"
    if a: "a \<in> set d" "a \<notin> set d'" and b: "b \<in> set d'" "HasSuffix (fst b) ''.mp4''" "snd b \<noteq> Dir"
  proof -
    obtain e where e: "e \<in> set (take k ?S)" "entry_of a = Some e" using gone [OF a] by blast
    obtain g where g: "entry_of b = Some g" using entry_of_video [OF b(2,3)] by blast
    then have "g \<in> set ?S" using b(1) by (auto simp: d' srt_set entries_in)
    moreover have "g \<notin> set (take k ?S)"
    proof
      assume "g \<in> set (take k ?S)"
      then have "ce_path g \<in> ce_path ` set (take k ?S)" by (rule imageI)
      with b(1) entry_of_node [OF g] show False by (simp add: d')
    qed
    ultimately have "g \<in> set (drop k ?S)" by (metis Un_iff append_take_drop_id set_append)
    from srt_split [OF e(1) this] entry_of_node [OF e(2)] entry_of_node [OF g] show ?thesis by simp
  qed
  show "\<exists>a\<in>set d - set d'. (\<forall>c\<in>set d - set d'. n_mod (snd c) \<le> n_mod (snd a)) \<and>
         maxSize < dir_size d' + n_size (snd a)" if "d' \<noteq> d"
  proof -
    have "0 < k" using that by (cases k) (simp_all add: d')
    then have in_take: "?S ! (k - 1) \<in> set (take k ?S)"
      using k len by (intro nth_take_mem) simp_all
    then obtain a where a: "a \<in> set d" "entry_of a = Some (?S ! (k - 1))"
      by (metis in_take entries_in in_set_takeD srt_set)
    have "fst a \<in> ce_path ` set (take k ?S)"
      using imageI [OF in_take, of ce_path] entry_of_node [OF a(2)] by simp
    then have "a \<notin> set d'" by (simp add: d')
    moreover have "n_mod (snd c) \<le> n_mod (snd a)" if c: "c \<in> set d" "c \<notin> set d'" for c
    proof -
      obtain e where "e \<in> set (take k ?S)" "entry_of c = Some e" using gone [OF c] by blast
      with srt_last [OF \<open>0 < k\<close> k, of e] entry_of_node [OF a(2)] entry_of_node [of c e] show ?thesis by simp
    qed
    moreover have "maxSize < dir_size d' + n_size (snd a)"
      using entry_of_node [OF a(2)] least \<open>0 < k\<close> by simp
    ultimately show ?thesis using a(1) by blast
  qed
qed

end

lemma entries_update:
  "distinct (map fst d) \<Longrightarrow> 0 \<le> sz \<Longrightarrow> \<forall>e\<in>set (entries d). 0 \<le> ce_size e \<Longrightarrow>
   dir_size (AList.update k (Reg sz t) d) \<le> dir_size d + sz \<and>
   (\<forall>e\<in>set (entries (AList.update k (Reg sz t) d)). 0 \<le> ce_size e)"
proof (induction d)
  case Nil
  then show ?case by (simp add: dir_size_def entry_of_def)
next
  case (Cons x d)
  then show ?case
    by (cases x) (auto simp: dir_size_def entry_of_def split: node.splits if_splits)
qed

lemma dir_ok_update:
  assumes "dir_ok d" and "0 \<le> sz" and "dir_size d + sz \<le> max_i64"
  shows "dir_ok (AList.update k (Reg sz t) d)"
  using assms entries_update [of d sz k t] by (auto simp: dir_ok_def distinct_update)

lemma update_mem: "(k, v) \<in> set (AList.update k v d)"
  by (induction d) auto

lemma set_update_rest:
  "x \<in> set (AList.update k v d) \<Longrightarrow> x = (k, v) \<or> x \<in> set d"
  by (induction d) (auto split: if_splits)

lemma valid_no_separator:
  assumes "validateID i"
  shows "CHR ''/'' \<notin> set i" and "CHR ''.'' \<notin> set i" and "CHR 0x5C \<notin> set i"
  using assms by (auto simp: validateID_def is_hex_def list_all_iff Let_def)

lemma HasSuffix_append [simp]: "HasSuffix (s @ p) p"
  by (simp add: HasSuffix_def suffix_def)

text \<open>The newest video is removed only after every other one.\<close>

lemma newest_goes_last:
  assumes "lru_order srt" and "dir_ok d" and "0 \<le> maxSize"
    and "(n, Reg sz t) \<in> set d"
    and older: "\<And>x. x \<in> set d \<Longrightarrow> x \<noteq> (n, Reg sz t) \<Longrightarrow> snd x \<noteq> Dir \<Longrightarrow> n_mod (snd x) < t"
    and gone: "(n, Reg sz t) \<notin> set (evictLocked srt (\<lambda>_. True) maxSize d)"
  shows "entries (evictLocked srt (\<lambda>_. True) maxSize d) = []" and "maxSize < sz"
proof -
  let ?e = "evictLocked srt (\<lambda>_. True) maxSize d"
  note lru = lru_order.evictLocked_lru_rule [OF assms(1-3)]
  show empty: "entries ?e = []"
  proof (rule ccontr)
    assume "entries ?e \<noteq> []"
    then have "hd (entries ?e) \<in> set (entries ?e)" by (rule hd_in_set)
    then obtain b g where b: "b \<in> set ?e" "entry_of b = Some g"
      unfolding entries_in by blast
    note nb = entry_of_node [OF b(2)]
    from lru(4) [OF assms(4) gone b(1)] nb have "t \<le> n_mod (snd b)" by simp
    moreover have "n_mod (snd b) < t" using older [of b] lru(2) b(1) nb gone by blast
    ultimately show False by simp
  qed
  have "?e \<noteq> d" using gone assms(4) by auto
  from lru(5) [OF this] obtain a where a: "a \<in> set d - set ?e"
      "\<forall>x\<in>set d - set ?e. n_mod (snd x) \<le> n_mod (snd a)" "maxSize < dir_size ?e + n_size (snd a)"
    by blast
  have "t \<le> n_mod (snd a)" using a(2) assms(4) gone by (metis DiffI node.sel(2) snd_conv)
  moreover have "snd a \<noteq> Dir" using lru(3) [of a] a(1) by blast
  ultimately have "a = (n, Reg sz t)" using older [of a] a(1) by (metis DiffD1 not_le)
  with a(3) empty show "maxSize < sz" by (simp add: dir_size_def)
qed

lemma sum_list_member_le:
  assumes "(x::int) \<in> set xs" and "\<forall>y\<in>set xs. 0 \<le> y"
  shows "x \<le> sum_list xs"
  using assms
proof (induction xs)
  case (Cons y ys)
  have "0 \<le> sum_list ys" using Cons.prems by (intro sum_list_nonneg) simp
  with Cons show ?case by auto
qed simp

lemma size_member:
  assumes "dir_ok d" and "(n, Reg sz t) \<in> set d" and "HasSuffix n ''.mp4''"
  shows "sz \<le> dir_size d"
proof -
  have "\<lparr>ce_path = n, ce_size = sz, ce_mod = t\<rparr> \<in> set (entries d)"
    using assms(2,3) by (force simp: entries_in entry_of_def)
  then have "sz \<in> set (map ce_size (entries d))" by force
  moreover have "\<forall>x\<in>set (map ce_size (entries d)). 0 \<le> x" using assms(1) by (simp add: dir_ok_def)
  ultimately show ?thesis unfolding dir_size_def by (rule sum_list_member_le)
qed

text \<open>What a successful \<open>finalize\<close> does.\<close>

lemma finalize_ok:
  assumes "validateID i" and "map_of (c_tmp c) tmpName = Some (Reg sz t)"
    and "map_of (c_main c) (i @ ''.mp4'') \<noteq> Some Dir"
  shows "finalize srt rm None tmpName i c =
    (c\<lparr>c_tmp := AList.delete tmpName (c_tmp c),
       c_main := evictLocked srt rm (c_maxSize c) (AList.update (i @ ''.mp4'') (Reg sz t) (c_main c))\<rparr>, None)"
  using assms by (auto simp: finalize_def cachePath_def split: option.splits node.splits)

section \<open>Properties\<close>

text \<open>
  C17. The eviction is least recently used, sufficient and minimal: afterwards the videos fit
  the budget; only files \<open>*.mp4\<close> were removed; no video that was removed is newer than one
  that was kept; and when anything was removed, the newest of the removed videos would not
  have fitted. This holds for every order the sort may give to videos of the same age.
\<close>

theorem evictLocked_lru:
  assumes "lru_order srt" and "dir_ok d" and "0 \<le> maxSize"
    and "d' = evictLocked srt (\<lambda>_. True) maxSize d"
  shows "dir_size d' \<le> maxSize \<and> set d' \<subseteq> set d \<and>
         (\<forall>a\<in>set d - set d'. HasSuffix (fst a) ''.mp4'' \<and> snd a \<noteq> Dir) \<and>
         (\<forall>a\<in>set d - set d'. \<forall>b\<in>set d'. HasSuffix (fst b) ''.mp4'' \<and> snd b \<noteq> Dir \<longrightarrow>
            n_mod (snd a) \<le> n_mod (snd b)) \<and>
         (d' \<noteq> d \<longrightarrow> (\<exists>a\<in>set d - set d'. (\<forall>c\<in>set d - set d'. n_mod (snd c) \<le> n_mod (snd a)) \<and>
            maxSize < dir_size d' + n_size (snd a)))"
  using lru_order.evictLocked_lru_rule [OF assms(1-3)] unfolding assms(4) by blast

definition demo_dir :: directory where
  "demo_dir = [(''a.mp4'', Reg 4 30), (''tmp'', Dir), (''b.mp4'', Reg 3 10), (''x.txt'', Reg 9 1),
     (''c.mp4'', Reg 2 20)]"

lemma demo_dir_ok: "dir_ok demo_dir"
  by code_simp

theorem evictLocked_lru_witness:
  "evictLocked (sort_key ce_mod) (\<lambda>_. True) 6 demo_dir =
     [(''a.mp4'', Reg 4 30), (''tmp'', Dir), (''x.txt'', Reg 9 1), (''c.mp4'', Reg 2 20)] \<and>
   dir_size (evictLocked (sort_key ce_mod) (\<lambda>_. True) 6 demo_dir) \<le> 6"
proof -
  have "evictLocked (sort_key ce_mod) (\<lambda>_. True) 6 demo_dir =
     [(''a.mp4'', Reg 4 30), (''tmp'', Dir), (''x.txt'', Reg 9 1), (''c.mp4'', Reg 2 20)]"
    by code_simp
  with evictLocked_lru [OF by_age.lru_order_axioms demo_dir_ok _ refl, of 6] show ?thesis by simp
qed

text \<open>
  A finished download can be served: when the rename succeeds, the file fits the budget
  and is newer than every other video, \<open>finalize\<close> leaves it in the cache under its id,
  with the size and the time it had as a temporary file, and the cache within its budget.
\<close>

theorem finalize_publishes:
  assumes "lru_order srt" and "dir_ok (c_main c)" and "dir_size (c_main c) + sz \<le> max_i64"
    and "validateID i" and "map_of (c_tmp c) tmpName = Some (Reg sz t)"
    and "map_of (c_main c) (i @ ''.mp4'') \<noteq> Some Dir"
    and "0 \<le> sz" and "sz \<le> c_maxSize c"
    and "\<forall>x\<in>set (c_main c). snd x \<noteq> Dir \<longrightarrow> n_mod (snd x) < t"
    and "finalize srt (\<lambda>_. True) None tmpName i c = (c', err)"
  shows "err = None \<and> Has c' i \<and> map_of (c_main c') (i @ ''.mp4'') = Some (Reg sz t) \<and>
         map_of (c_tmp c') tmpName = None \<and> dir_size (c_main c') \<le> c_maxSize c'"
proof -
  let ?f = "i @ ''.mp4''"
  let ?d = "AList.update ?f (Reg sz t) (c_main c)"
  let ?e = "evictLocked srt (\<lambda>_. True) (c_maxSize c) ?d"
  have ok: "dir_ok ?d" using assms by (intro dir_ok_update)
  have mx: "0 \<le> c_maxSize c" using assms(7,8) by simp
  have c': "c' = c\<lparr>c_tmp := AList.delete tmpName (c_tmp c), c_main := ?e\<rparr>" "err = None"
    using finalize_ok [OF assms(4,5,6), of srt "\<lambda>_. True"] assms(10) by auto
  have new: "(?f, Reg sz t) \<in> set ?d" by (rule update_mem)
  have others: "n_mod (snd x) < t" if "x \<in> set ?d" "x \<noteq> (?f, Reg sz t)" "snd x \<noteq> Dir" for x
    using that assms(9) set_update_rest [OF that(1)] by blast
  have "(?f, Reg sz t) \<in> set ?e"
    using newest_goes_last(2) [OF assms(1) ok mx new others] assms(8) by fastforce
  moreover note lru = lru_order.evictLocked_lru_rule [OF assms(1) ok mx]
  ultimately have "map_of ?e ?f = Some (Reg sz t)" by (simp add: dir_ok_def)
  then show ?thesis using c' lru(1) assms(4)
    by (simp add: Has_def cachePath_def delete_conv')
qed

definition demo_id :: string where
  "demo_id = replicate 64 (CHR ''a'')"

lemma demo_id_valid: "validateID demo_id"
  by code_simp

definition demo_cache :: "int \<Rightarrow> cache" where
  "demo_cache n =
     \<lparr>c_dir = ''/cache'', c_tmpDir = ''/cache/tmp'', c_maxSize = n, c_main = demo_dir,
      c_tmp = [(''v.part'', Reg 5 40)]\<rparr>"

lemma demo_cache_facts:
  "dir_ok (c_main (demo_cache n))" "dir_size (c_main (demo_cache n)) + 5 \<le> max_i64"
  "map_of (c_tmp (demo_cache n)) ''v.part'' = Some (Reg 5 40)"
  "map_of (c_main (demo_cache n)) (demo_id @ ''.mp4'') \<noteq> Some Dir"
  "\<forall>x\<in>set (c_main (demo_cache n)). snd x \<noteq> Dir \<longrightarrow> n_mod (snd x) < 40"
proof -
  show "dir_size (c_main (demo_cache n)) + 5 \<le> max_i64"
    by (simp add: demo_cache_def) code_simp
  have "map_of demo_dir (demo_id @ ''.mp4'') \<noteq> Some Dir" by code_simp
  then show "map_of (c_main (demo_cache n)) (demo_id @ ''.mp4'') \<noteq> Some Dir" by (simp add: demo_cache_def)
qed (simp_all add: demo_cache_def demo_dir_ok, simp add: demo_dir_def)

theorem finalize_publishes_witness:
  "Has (fst (finalize (sort_key ce_mod) (\<lambda>_. True) None ''v.part'' demo_id (demo_cache 8))) demo_id"
  using finalize_publishes [OF by_age.lru_order_axioms demo_cache_facts(1,2) demo_id_valid
      demo_cache_facts(3,4) _ _ demo_cache_facts(5) surjective_pairing, of 8]
  by (simp add: demo_cache_def)

text \<open>
  A video larger than the budget empties the cache: \<open>finalize\<close> moves it in, the
  eviction removes every older video and then the new one too, and \<open>finalize\<close> still
  reports success, so the request that follows finds nothing.
\<close>

theorem oversized_video_flushes_cache:
  assumes "lru_order srt" and "dir_ok (c_main c)" and "dir_size (c_main c) + sz \<le> max_i64"
    and "validateID i" and "map_of (c_tmp c) tmpName = Some (Reg sz t)"
    and "map_of (c_main c) (i @ ''.mp4'') \<noteq> Some Dir"
    and "0 \<le> c_maxSize c" and "c_maxSize c < sz"
    and "\<forall>x\<in>set (c_main c). snd x \<noteq> Dir \<longrightarrow> n_mod (snd x) < t"
    and "finalize srt (\<lambda>_. True) None tmpName i c = (c', err)"
  shows "err = None \<and> entries (c_main c') = [] \<and> \<not> Has c' i"
proof -
  let ?f = "i @ ''.mp4''"
  let ?d = "AList.update ?f (Reg sz t) (c_main c)"
  let ?e = "evictLocked srt (\<lambda>_. True) (c_maxSize c) ?d"
  have ok: "dir_ok ?d" using assms by (intro dir_ok_update) simp_all
  have c': "c' = c\<lparr>c_tmp := AList.delete tmpName (c_tmp c), c_main := ?e\<rparr>" "err = None"
    using finalize_ok [OF assms(4,5,6), of srt "\<lambda>_. True"] assms(10) by auto
  note lru = lru_order.evictLocked_lru_rule [OF assms(1) ok assms(7)]
  have new: "(?f, Reg sz t) \<in> set ?d" by (rule update_mem)
  have others: "n_mod (snd x) < t" if "x \<in> set ?d" "x \<noteq> (?f, Reg sz t)" "snd x \<noteq> Dir" for x
    using that assms(9) set_update_rest [OF that(1)] by blast
  have "(?f, Reg sz t) \<notin> set ?e"
    using size_member [OF lru(6), of ?f sz t] lru(1) assms(8) by auto
  from newest_goes_last(1) [OF assms(1) ok assms(7) new others this]
  have e: "entries ?e = []" by simp
  have "\<not> Has c' i"
  proof
    assume "Has c' i"
    then obtain a b where "(?f, Reg a b) \<in> set ?e"
      using c' assms(4) by (auto simp: Has_def cachePath_def split: option.splits node.splits dest: map_of_SomeD)
    then have "entries ?e \<noteq> []"
      using entries_in [of _ ?e] entry_of_video [of "(?f, Reg a b)"] by fastforce
    with e show False by simp
  qed
  with c' e show ?thesis by simp
qed

theorem oversized_video_flushes_cache_witness:
  "entries (c_main (fst (finalize (sort_key ce_mod) (\<lambda>_. True) None ''v.part'' demo_id (demo_cache 4)))) = []"
  using oversized_video_flushes_cache [OF by_age.lru_order_axioms demo_cache_facts(1,2) demo_id_valid
      demo_cache_facts(3,4) _ _ demo_cache_facts(5) surjective_pairing, of 4]
  by (simp add: demo_cache_def)

section \<open>Properties of ids and keys\<close>

text \<open>
  C37. Ids are file names: the id of every URL is a valid id, which the paths the server
  hands out carry back unchanged; and an id accepted from the path of a request is the
  whole component before \<open>.mp4\<close>, contains no separator and no dot, and names the file
  \<open><id>.mp4\<close> directly in the cache directory.
\<close>

theorem cache_ids_are_file_names:
  "validateID (cacheID url) \<and>
   cacheIDFromPath (pre @ cacheID url @ ''.mp4'') pre = Some (cacheID url) \<and>
   (cacheIDFromPath path pre = Some i \<longrightarrow>
      path = pre @ i @ ''.mp4'' \<and> CHR ''/'' \<notin> set i \<and> CHR 0x5C \<notin> set i \<and> CHR ''.'' \<notin> set i \<and>
      length i = 64 \<and> cachePath c i = Inr (c_dir c, i @ ''.mp4''))"
proof (intro conjI impI)
  show v: "validateID (cacheID url)"
    using hex_chars length_hex length_Sum256 by (simp add: validateID_def cacheID_def)
  then show "cacheIDFromPath (pre @ cacheID url @ ''.mp4'') pre = Some (cacheID url)"
    by (simp add: cacheIDFromPath_def)
  assume "cacheIDFromPath path pre = Some i"
  then have i: "path = pre @ i @ ''.mp4''" "validateID i"
    by (auto simp: cacheIDFromPath_def CutPrefix_Some CutSuffix_Some split: option.splits if_splits)
  show "path = pre @ i @ ''.mp4''" by (rule i(1))
  show "CHR ''/'' \<notin> set i" "CHR 0x5C \<notin> set i" "CHR ''.'' \<notin> set i"
    using valid_no_separator [OF i(2)] by simp_all
  show "length i = 64" using i(2) by (simp add: validateID_def)
  show "cachePath c i = Inr (c_dir c, i @ ''.mp4'')" using i(2) by (simp add: cachePath_def)
qed

theorem cache_ids_are_file_names_witness:
  "CHR ''/'' \<notin> set demo_id \<and> cachePath (demo_cache 8) demo_id = Inr (''/cache'', demo_id @ ''.mp4'')"
proof -
  have "cacheIDFromPath (''/video/'' @ demo_id @ ''.mp4'') ''/video/'' = Some demo_id"
    by code_simp
  then show ?thesis
    using cache_ids_are_file_names [of "''u''" "''/video/''" "''/video/'' @ demo_id @ ''.mp4''" demo_id
        "demo_cache 8"]
    by (simp add: demo_cache_def)
qed

lemma is_hex_no_colon: "list_all is_hex s \<Longrightarrow> CHR '':'' \<notin> set s"
  by (auto simp: list_all_iff is_hex_def Let_def)

lemma headerDigest_no_colon: "CHR '':'' \<notin> set (headerDigest h)"
proof -
  have "headerDigest h = ''noauth'' \<or> (\<exists>b. headerDigest h = hex b)"
    unfolding headerDigest_def Let_def by (simp only: split: if_split) blast
  then show ?thesis
  proof
    assume "\<exists>b. headerDigest h = hex b"
    then obtain b where "headerDigest h = hex b" ..
    then show ?thesis using is_hex_no_colon [OF hex_chars [of b]] by simp
  qed simp
qed

text \<open>
  The keys of the in-memory cache do not collide: keys of different categories differ,
  the key of a manifest determines its URL, and the key of a segment determines its URL and
  the digest of the request headers, whatever colons the URL contains.
\<close>

lemma cache_keys_injective:
  "(hlsManifestKey u = hlsManifestKey v \<longleftrightarrow> u = v) \<and>
   (mpdManifestKey u = mpdManifestKey v \<longleftrightarrow> u = v) \<and>
   (hlsSegmentKey u h = hlsSegmentKey v g \<longleftrightarrow> u = v \<and> headerDigest h = headerDigest g) \<and>
   hlsManifestKey u \<noteq> mpdManifestKey v \<and> hlsManifestKey u \<noteq> hlsSegmentKey v h \<and>
   mpdManifestKey u \<noteq> hlsSegmentKey v h"
proof (intro conjI)
  show "hlsSegmentKey u h = hlsSegmentKey v g \<longleftrightarrow> u = v \<and> headerDigest h = headerDigest g"
  proof
    assume "hlsSegmentKey u h = hlsSegmentKey v g"
    then have eq: "u @ CHR '':'' # headerDigest h = v @ CHR '':'' # headerDigest g"
      by (simp add: hlsSegmentKey_def)
    have "Some (headerDigest h) = Some (headerDigest g)"
      using after_last_append [OF headerDigest_no_colon, of u h]
        after_last_append [OF headerDigest_no_colon, of v g] eq by simp
    with eq show "u = v \<and> headerDigest h = headerDigest g" by simp
  qed (simp add: hlsSegmentKey_def)
qed (simp_all add: hlsManifestKey_def mpdManifestKey_def hlsSegmentKey_def)

text \<open>
  The normalisation of URLs stops short: a space before the fragment survives it, so the
  normalisation is not idempotent and two URLs that differ only in a fragment and the white
  space around it get different texts to hash.
\<close>

theorem normalizeURL_not_idempotent:
  "normalizeURL ''http://a/ #t'' = ''http://a/ '' \<and>
   normalizeURL (normalizeURL ''http://a/ #t'') = ''http://a/'' \<and> normalizeURL ''http://a/#t'' = ''http://a/''"
  by code_simp

section \<open>Temporary files\<close>

lemma hex_digit_inj: "a < 16 \<Longrightarrow> b < 16 \<Longrightarrow> hex_digit a = hex_digit b \<Longrightarrow> a = b"
proof -
  assume "a < 16" "b < 16" "hex_digit a = hex_digit b"
  moreover have "\<forall>a\<in>set [0..<16]. \<forall>b\<in>set [0..<16]. hex_digit a = hex_digit b \<longrightarrow> a = b" by code_simp
  ultimately show "a = b" by simp
qed

lemma hex_inj: "hex a = hex b \<Longrightarrow> a = b"
proof (induction a arbitrary: b)
  case Nil
  then show ?case by (cases b) (simp_all add: hex_def)
next
  case (Cons x a)
  then obtain y b' where b: "b = y # b'" by (cases b) (simp_all add: hex_def)
  have lt: "unat z div 16 < 16" "unat z mod 16 < 16" for z :: byte
    using unsigned_less [of z, where 'a = nat] by simp_all
  have "hex_digit (unat x div 16) = hex_digit (unat y div 16)" "hex_digit (unat x mod 16) = hex_digit (unat y mod 16)"
    and rest: "hex a = hex b'" using Cons.prems b by (simp_all add: hex_def)
  then have "unat x div 16 = unat y div 16" "unat x mod 16 = unat y mod 16" using hex_digit_inj lt by blast+
  then have "unat x = unat y" by (metis div_mult_mod_eq)
  then have "x = y" by (simp add: word_unat_eq_iff)
  with Cons.IH [OF rest] b show ?case by simp
qed

text \<open>
  Two downloads share a temporary file only if they are of the same id and were given the same
  random bytes; and no temporary name is one that \<open>scanLocked\<close> takes for a video.
\<close>

theorem temp_paths_apart:
  assumes "validateID i" and "validateID j" and "length a = 8" and "length b = 8"
  shows "(tempPath c i (randomToken (Some a) t) = tempPath c j (randomToken (Some b) u) \<longleftrightarrow> i = j \<and> a = b) \<and>
    entry_of (snd (tempPath c i (randomToken (Some a) t)), nd) = None"
proof
  have "length i = length j" using assms(1,2) by (simp add: validateID_def)
  then show "tempPath c i (randomToken (Some a) t) = tempPath c j (randomToken (Some b) u) \<longleftrightarrow> i = j \<and> a = b"
    using hex_inj by (auto simp: tempPath_def randomToken_def)
  show "entry_of (snd (tempPath c i (randomToken (Some a) t)), nd) = None"
    by (simp add: entry_of_def tempPath_def HasSuffix_def suffix_def append_eq_append_conv2 append_eq_Cons_conv split: node.split)
qed

theorem temp_paths_apart_witness:
  "tempPath (demo_cache 8) demo_id (randomToken (Some (replicate 8 0)) 0) \<noteq>
   tempPath (demo_cache 8) demo_id (randomToken (Some (replicate 8 1)) 0)"
proof -
  have "validateID demo_id" by code_simp
  from temp_paths_apart [OF this this, of "replicate 8 0" "replicate 8 1"] show ?thesis by simp
qed

end
