(* ===== verification/Ffprobe.thy ===== *)
theory Ffprobe
  imports Ffmpeg Go_Json Go_Float
begin

text \<open>
  ffprobe.go: the command line of ffprobe, the reading of its report by \<open>json.Unmarshal\<close> into the
  structs, and what is asked of a report. What the process prints, and how it ends, is an
  argument.
\<close>

section \<open>The report\<close>

record ffprobeFormat =
  ff_Filename :: string
  ff_FormatName :: string
  ff_FormatLongName :: string
  ff_Duration :: string
  ff_Size :: string
  ff_BitRate :: string
  ff_ProbeScore :: int

record ffprobeStream =
  st_Index :: int
  st_CodecName :: string
  st_CodecType :: string
  st_Width :: int
  st_Height :: int
  st_BitRate :: string
  st_Duration :: string

record ffprobeResult =
  Format :: ffprobeFormat
  Streams :: "ffprobeStream list"

definition zero_format :: ffprobeFormat where
  "zero_format = \<lparr>ff_Filename = '''', ff_FormatName = '''', ff_FormatLongName = '''', ff_Duration = '''', ff_Size = '''',
     ff_BitRate = '''', ff_ProbeScore = 0\<rparr>"

definition zero_stream :: ffprobeStream where
  "zero_stream = \<lparr>st_Index = 0, st_CodecName = '''', st_CodecType = '''', st_Width = 0, st_Height = 0, st_BitRate = '''',
     st_Duration = ''''\<rparr>"

section \<open>Reading it\<close>

text \<open>
  \<open>json.Unmarshal\<close> into a struct: a value goes to the field whose name equals the key up to case,
  others are skipped; null leaves a field as it is; a value of another type is an error, and
  so is a number that is not written as an integer of 64 bits for a field of type int.
\<close>

definition put_string :: "(string \<Rightarrow> 'r \<Rightarrow> 'r) \<Rightarrow> json \<Rightarrow> 'r \<Rightarrow> 'r option" where
  "put_string upd v r = (case v of JStr s \<Rightarrow> Some (upd s r) | JNull \<Rightarrow> Some r | _ \<Rightarrow> None)"

definition put_int :: "(int \<Rightarrow> 'r \<Rightarrow> 'r) \<Rightarrow> json \<Rightarrow> 'r \<Rightarrow> 'r option" where
  "put_int upd v r =
     (case v of
        JNum s \<Rightarrow> (case ParseInt s of Some i \<Rightarrow> Some (upd i r) | None \<Rightarrow> None)
      | JNull \<Rightarrow> Some r
      | _ \<Rightarrow> None)"

type_synonym 'r field_table = "(string \<times> (json \<Rightarrow> 'r \<Rightarrow> 'r option)) list"

definition put_named :: "'r field_table \<Rightarrow> string \<Rightarrow> json \<Rightarrow> 'r \<Rightarrow> 'r option" where
  "put_named table k v r =
     (case List.find (\<lambda>(n, _). EqualFold n k) table of None \<Rightarrow> Some r | Some (_, put) \<Rightarrow> put v r)"

fun put_all :: "'r field_table \<Rightarrow> (string \<times> json) list \<Rightarrow> 'r \<Rightarrow> 'r option" where
  "put_all table [] r = Some r"
| "put_all table ((k, v) # kvs) r =
     (case put_named table k v r of Some r' \<Rightarrow> put_all table kvs r' | None \<Rightarrow> None)"

definition put_struct :: "'r field_table \<Rightarrow> json \<Rightarrow> 'r \<Rightarrow> 'r option" where
  "put_struct table v r = (case v of JObj kvs \<Rightarrow> put_all table kvs r | JNull \<Rightarrow> Some r | _ \<Rightarrow> None)"

text \<open>A slice: an element that is there already is read into, others start at zero.\<close>

fun put_slice :: "'r field_table \<Rightarrow> 'r \<Rightarrow> json list \<Rightarrow> 'r list \<Rightarrow> 'r list option" where
  "put_slice table zero [] old = Some []"
| "put_slice table zero (v # vs) old =
     (case put_struct table v (case old of [] \<Rightarrow> zero | r # _ \<Rightarrow> r) of
        None \<Rightarrow> None
      | Some r \<Rightarrow> map_option ((#) r) (put_slice table zero vs (tl old)))"

definition format_fields :: "ffprobeFormat field_table" where
  "format_fields =
     [(''filename'', put_string (\<lambda>s. ff_Filename_update (\<lambda>_. s))),
      (''format_name'', put_string (\<lambda>s. ff_FormatName_update (\<lambda>_. s))),
      (''format_long_name'', put_string (\<lambda>s. ff_FormatLongName_update (\<lambda>_. s))),
      (''duration'', put_string (\<lambda>s. ff_Duration_update (\<lambda>_. s))),
      (''size'', put_string (\<lambda>s. ff_Size_update (\<lambda>_. s))),
      (''bit_rate'', put_string (\<lambda>s. ff_BitRate_update (\<lambda>_. s))),
      (''probe_score'', put_int (\<lambda>i. ff_ProbeScore_update (\<lambda>_. i)))]"

definition stream_fields :: "ffprobeStream field_table" where
  "stream_fields =
     [(''index'', put_int (\<lambda>i. st_Index_update (\<lambda>_. i))),
      (''codec_name'', put_string (\<lambda>s. st_CodecName_update (\<lambda>_. s))),
      (''codec_type'', put_string (\<lambda>s. st_CodecType_update (\<lambda>_. s))),
      (''width'', put_int (\<lambda>i. st_Width_update (\<lambda>_. i))),
      (''height'', put_int (\<lambda>i. st_Height_update (\<lambda>_. i))),
      (''bit_rate'', put_string (\<lambda>s. st_BitRate_update (\<lambda>_. s))),
      (''duration'', put_string (\<lambda>s. st_Duration_update (\<lambda>_. s)))]"

definition result_fields :: "ffprobeResult field_table" where
  "result_fields =
     [(''format'', \<lambda>v r. map_option (\<lambda>f. r\<lparr>Format := f\<rparr>) (put_struct format_fields v (Format r))),
      (''streams'', \<lambda>v r.
         (case v of
            JArr vs \<Rightarrow> map_option (\<lambda>ss. r\<lparr>Streams := ss\<rparr>) (put_slice stream_fields zero_stream vs (Streams r))
          | JNull \<Rightarrow> Some (r\<lparr>Streams := []\<rparr>)
          | _ \<Rightarrow> None))]"

definition unmarshal_probe :: "string \<Rightarrow> ffprobeResult option" where
  "unmarshal_probe t =
     (case parse_json t of
        None \<Rightarrow> None
      | Some v \<Rightarrow> put_struct result_fields v \<lparr>Format = zero_format, Streams = []\<rparr>)"

section \<open>The process\<close>

record ffprobeRunner =
  pr_path :: string

definition newFfprobeRunner :: "string \<Rightarrow> ffprobeRunner" where
  "newFfprobeRunner path = \<lparr>pr_path = (if path = '''' then ''ffprobe'' else path)\<rparr>"

definition probe_args :: "string \<Rightarrow> (string \<times> string) list \<Rightarrow> string list" where
  "probe_args srcURL headers =
     [''-hide_banner'', ''-loglevel'', ''error'', ''-print_format'', ''json'', ''-show_format'', ''-show_streams''] @
     inputArgs srcURL headers"

text \<open>\<open>exec\<close>: for a command, its error, what it prints and the pieces of its standard error.\<close>

definition runProbe ::
  "ffprobeRunner \<Rightarrow> (string list \<Rightarrow> go_error option \<times> string \<times> string list) \<Rightarrow> string \<Rightarrow> (string \<times> string) list \<Rightarrow>
   go_error + ffprobeResult" where
  "runProbe f exec srcURL headers =
     (case exec (pr_path f # probe_args srcURL headers) of
        (Some e, out, ps) \<Rightarrow> Inl (Msg (''ffprobe: '' @ error_text e @ '': '' @ tb_string (stderr_tail ps)))
      | (None, out, ps) \<Rightarrow>
          (case unmarshal_probe out of
             None \<Rightarrow> Inl (Msg ''ffprobe: parse json'')
           | Some r \<Rightarrow> Inr r))"

section \<open>What is asked of a report\<close>

definition firstStream :: "ffprobeResult \<Rightarrow> string \<Rightarrow> ffprobeStream option" where
  "firstStream r codecType = List.find (\<lambda>s. st_CodecType s = codecType) (Streams r)"

definition parseSeconds :: "string \<Rightarrow> f64" where
  "parseSeconds v =
     (case ParseFloat (TrimSpace v) of
        None \<Rightarrow> Fin 0 0
      | Some x \<Rightarrow> if f64_neg x then Fin 0 0 else x)"

definition f64_pos :: "f64 \<Rightarrow> bool" where
  "f64_pos x = (case x of NaN \<Rightarrow> False | Inf neg \<Rightarrow> \<not> neg | Fin m e \<Rightarrow> m > 0)"

definition durationSeconds :: "ffprobeResult \<Rightarrow> f64" where
  "durationSeconds r =
     (let d = parseSeconds (ff_Duration (Format r));
          sd = (\<lambda>t. case firstStream r t of Some s \<Rightarrow> parseSeconds (st_Duration s) | None \<Rightarrow> Fin 0 0)
      in if f64_pos d then d
         else if f64_pos (sd ''video'') then sd ''video''
         else if f64_pos (sd ''audio'') then sd ''audio''
         else Fin 0 0)"

section \<open>A report is read as it was meant\<close>

text \<open>The objects ffprobe prints.\<close>

definition format_json :: "ffprobeFormat \<Rightarrow> (string \<times> json) list" where
  "format_json f =
     [(''filename'', JStr (ff_Filename f)), (''format_name'', JStr (ff_FormatName f)),
      (''format_long_name'', JStr (ff_FormatLongName f)), (''duration'', JStr (ff_Duration f)), (''size'', JStr (ff_Size f)),
      (''bit_rate'', JStr (ff_BitRate f)), (''probe_score'', JNum (FormatInt (ff_ProbeScore f)))]"

definition stream_json :: "ffprobeStream \<Rightarrow> (string \<times> json) list" where
  "stream_json s =
     [(''index'', JNum (FormatInt (st_Index s))), (''codec_name'', JStr (st_CodecName s)),
      (''codec_type'', JStr (st_CodecType s)), (''width'', JNum (FormatInt (st_Width s))),
      (''height'', JNum (FormatInt (st_Height s))), (''bit_rate'', JStr (st_BitRate s)), (''duration'', JStr (st_Duration s))]"

lemma format_named:
  "put_named format_fields ''filename'' = put_string (\<lambda>s. ff_Filename_update (\<lambda>_. s))"
  "put_named format_fields ''format_name'' = put_string (\<lambda>s. ff_FormatName_update (\<lambda>_. s))"
  "put_named format_fields ''format_long_name'' = put_string (\<lambda>s. ff_FormatLongName_update (\<lambda>_. s))"
  "put_named format_fields ''duration'' = put_string (\<lambda>s. ff_Duration_update (\<lambda>_. s))"
  "put_named format_fields ''size'' = put_string (\<lambda>s. ff_Size_update (\<lambda>_. s))"
  "put_named format_fields ''bit_rate'' = put_string (\<lambda>s. ff_BitRate_update (\<lambda>_. s))"
  "put_named format_fields ''probe_score'' = put_int (\<lambda>i. ff_ProbeScore_update (\<lambda>_. i))"
  by (simp_all add: fun_eq_iff put_named_def format_fields_def EqualFold_def lower_char_def)

lemma stream_named:
  "put_named stream_fields ''index'' = put_int (\<lambda>i. st_Index_update (\<lambda>_. i))"
  "put_named stream_fields ''codec_name'' = put_string (\<lambda>s. st_CodecName_update (\<lambda>_. s))"
  "put_named stream_fields ''codec_type'' = put_string (\<lambda>s. st_CodecType_update (\<lambda>_. s))"
  "put_named stream_fields ''width'' = put_int (\<lambda>i. st_Width_update (\<lambda>_. i))"
  "put_named stream_fields ''height'' = put_int (\<lambda>i. st_Height_update (\<lambda>_. i))"
  "put_named stream_fields ''bit_rate'' = put_string (\<lambda>s. st_BitRate_update (\<lambda>_. s))"
  "put_named stream_fields ''duration'' = put_string (\<lambda>s. st_Duration_update (\<lambda>_. s))"
  by (simp_all add: fun_eq_iff put_named_def stream_fields_def EqualFold_def lower_char_def)

lemma put_int_format: "in_i64 i \<Longrightarrow> put_int upd (JNum (FormatInt i)) r = Some (upd i r)"
  by (simp add: put_int_def decimal.dec_enc)

lemma put_string_text: "put_string upd (JStr s) r = Some (upd s r)"
  by (simp add: put_string_def)

definition stream_ok :: "ffprobeStream \<Rightarrow> bool" where
  "stream_ok s \<longleftrightarrow> in_i64 (st_Index s) \<and> in_i64 (st_Width s) \<and> in_i64 (st_Height s)"

lemma format_read: "in_i64 (ff_ProbeScore f) \<Longrightarrow> put_struct format_fields (JObj (format_json f)) g = Some f"
  by (cases f; cases g) (simp add: put_struct_def format_json_def format_named put_int_format put_string_text)

lemma stream_read: "stream_ok s \<Longrightarrow> put_struct stream_fields (JObj (stream_json s)) z = Some s"
  by (cases s; cases z) (simp add: put_struct_def stream_json_def stream_ok_def stream_named put_int_format put_string_text)

lemma streams_read:
  "list_all stream_ok ss \<Longrightarrow> put_slice stream_fields z (map (\<lambda>s. JObj (stream_json s)) ss) old = Some ss"
  by (induction ss arbitrary: old) (simp_all add: stream_read)

text \<open>
  The probe: a report that ffprobe prints is read back as the container and the streams it
  describes, in order, and the duration taken from it is the container's when it is positive; a
  process that fails gives an error with the end of its standard error and no report.
\<close>

theorem probe_reads_report:
  assumes "exec (pr_path f # probe_args url hs) = (err, out, ps)"
    and "parse_json out = Some (JObj [(''streams'', JArr (map (\<lambda>s. JObj (stream_json s)) ss)), (''format'', JObj (format_json fm))])"
    and "list_all stream_ok ss" and "in_i64 (ff_ProbeScore fm)"
  shows "runProbe f exec url hs =
    (case err of
       None \<Rightarrow> Inr \<lparr>Format = fm, Streams = ss\<rparr>
     | Some e \<Rightarrow> Inl (Msg (''ffprobe: '' @ error_text e @ '': '' @
         TrimSpace (drop (length (concat ps) - 8192) (concat ps)))))"
proof -
  have "put_named result_fields ''streams'' = (\<lambda>v r. (case v of
            JArr vs \<Rightarrow> map_option (\<lambda>ss. r\<lparr>Streams := ss\<rparr>) (put_slice stream_fields zero_stream vs (Streams r))
          | JNull \<Rightarrow> Some (r\<lparr>Streams := []\<rparr>)
          | _ \<Rightarrow> None))"
    "put_named result_fields ''format'' = (\<lambda>v r. map_option (\<lambda>f. r\<lparr>Format := f\<rparr>) (put_struct format_fields v (Format r)))"
    by (simp_all add: fun_eq_iff put_named_def result_fields_def EqualFold_def lower_char_def)
  then have "unmarshal_probe out = Some \<lparr>Format = fm, Streams = ss\<rparr>"
    using assms(2) streams_read [OF assms(3)] format_read [OF assms(4)]
    by (simp add: unmarshal_probe_def put_struct_def [of result_fields])
  then show ?thesis
    using assms(1) by (simp add: runProbe_def tb_string_def stderr_tail_buf split: option.split)
qed

definition demo_report :: string where
  "demo_report = concat (map (\<lambda>c. if c = CHR ''!'' then [CHR 0x22] else [c])
     ''{!streams!:[{!index!:0,!codec_name!:!h264!,!codec_type!:!video!,!width!:640,!height!:360,!bit_rate!:!1000!,!duration!:!2.5!}],!format!:{!filename!:!a!,!format_name!:!mp4!,!format_long_name!:!MP4!,!duration!:!2.5!,!size!:!9!,!bit_rate!:!1000!,!probe_score!:100}}'')"

theorem probe_reads_report_witness:
  "runProbe (newFfprobeRunner '''') (\<lambda>_. (None, demo_report, [])) ''http://h/v'' [] =
    Inr \<lparr>Format = \<lparr>ff_Filename = ''a'', ff_FormatName = ''mp4'', ff_FormatLongName = ''MP4'', ff_Duration = ''2.5'',
           ff_Size = ''9'', ff_BitRate = ''1000'', ff_ProbeScore = 100\<rparr>,
         Streams = [\<lparr>st_Index = 0, st_CodecName = ''h264'', st_CodecType = ''video'', st_Width = 640, st_Height = 360,
           st_BitRate = ''1000'', st_Duration = ''2.5''\<rparr>]\<rparr>"
proof -
  let ?f = "\<lparr>ff_Filename = ''a'', ff_FormatName = ''mp4'', ff_FormatLongName = ''MP4'', ff_Duration = ''2.5'',
    ff_Size = ''9'', ff_BitRate = ''1000'', ff_ProbeScore = 100\<rparr>"
  let ?s = "\<lparr>st_Index = 0, st_CodecName = ''h264'', st_CodecType = ''video'', st_Width = 640, st_Height = 360,
    st_BitRate = ''1000'', st_Duration = ''2.5''\<rparr>"
  have "parse_json demo_report =
      Some (JObj [(''streams'', JArr (map (\<lambda>s. JObj (stream_json s)) [?s])), (''format'', JObj (format_json ?f))])"
    by code_simp
  from probe_reads_report [OF refl this, of "newFfprobeRunner ''''"] show ?thesis
    by (simp add: stream_ok_def i64_bounds)
qed

end
