(* ===== verification/Extractor.thy ===== *)
theory Extractor
  imports Config Disk_Cache Ffprobe
begin

text \<open>
  extractor.go and yt-dlp.go: from the JSON document yt-dlp prints to the stream to
  serve. What the processes yt-dlp and ffprobe print, and whether they fail, are arguments. A
  Go map is an association list; of two entries for a key the last one counts, as it does
  when Go decodes an object.
\<close>

section \<open>Metadata\<close>

type_synonym ytdlpMetadata = "(string \<times> json) list"

definition get :: "ytdlpMetadata \<Rightarrow> string \<Rightarrow> json option" where
  "get m k = map_of (rev m) k"

definition put :: "string \<Rightarrow> json \<Rightarrow> ytdlpMetadata \<Rightarrow> ytdlpMetadata" where
  "put k v m = filter (\<lambda>p. fst p \<noteq> k) m @ [(k, v)]"

definition text_of :: "json option \<Rightarrow> string option" where
  "text_of j = (case j of Some (JStr s) \<Rightarrow> Some s | _ \<Rightarrow> None)"

text \<open>\<open>stringField\<close>: a text that is not empty.\<close>

definition stringField :: "ytdlpMetadata \<Rightarrow> string \<Rightarrow> string option" where
  "stringField m k = (case text_of (get m k) of Some s \<Rightarrow> if s \<noteq> '''' then Some s else None | None \<Rightarrow> None)"

definition field_or_empty :: "ytdlpMetadata \<Rightarrow> string \<Rightarrow> string" where
  "field_or_empty m k = (case stringField m k of Some s \<Rightarrow> s | None \<Rightarrow> '''')"

definition boolField :: "ytdlpMetadata \<Rightarrow> string \<Rightarrow> bool" where
  "boolField m k =
     (case get m k of Some (JBool b) \<Rightarrow> b | Some (JStr s) \<Rightarrow> EqualFold s ''true'' | _ \<Rightarrow> False)"

section \<open>Endpoints\<close>

datatype Endpoint = EndpointProgressive | EndpointHLS | EndpointDASH

fun endpoint_string :: "Endpoint \<Rightarrow> string" where
  "endpoint_string EndpointHLS = ''hls''"
| "endpoint_string EndpointDASH = ''dash''"
| "endpoint_string EndpointProgressive = ''progressive''"

definition endpointFromProtocol :: "string \<Rightarrow> Endpoint option" where
  "endpointFromProtocol protocol =
     (let p = ToLower protocol
      in if Contains p ''m3u8'' then Some EndpointHLS
         else if Contains p ''dash'' then Some EndpointDASH
         else if HasPrefix p ''http'' then Some EndpointProgressive
         else None)"

definition endpointFromURL :: "string \<Rightarrow> Endpoint" where
  "endpointFromURL streamURL =
     (let path = (case Parse streamURL of Some u \<Rightarrow> u_path u | None \<Rightarrow> streamURL)
      in if HasSuffix path ''.m3u8'' \<or> HasSuffix path ''.m3u'' then EndpointHLS
         else if HasSuffix path ''.mpd'' then EndpointDASH
         else EndpointProgressive)"

definition classifyEndpoint :: "ytdlpMetadata \<Rightarrow> string \<Rightarrow> Endpoint" where
  "classifyEndpoint m streamURL =
     (case stringField m ''protocol'' of
        None \<Rightarrow> endpointFromURL streamURL
      | Some protocol \<Rightarrow>
          (case endpointFromProtocol protocol of Some e \<Rightarrow> e | None \<Rightarrow> endpointFromURL streamURL))"

section \<open>Codecs\<close>

definition mp4FriendlyVideo :: "string \<Rightarrow> bool" where
  "mp4FriendlyVideo vcodec =
     (let c = ToLower vcodec
      in c = '''' \<or> c = ''none'' \<or> HasPrefix c ''avc'' \<or> HasPrefix c ''h264'' \<or> HasPrefix c ''mp4v'')"

definition mp4FriendlyAudio :: "string \<Rightarrow> bool" where
  "mp4FriendlyAudio acodec =
     (let c = ToLower acodec in c = '''' \<or> c = ''none'' \<or> HasPrefix c ''mp4a'' \<or> HasPrefix c ''aac'')"

definition transcodeFromCodecs :: "string \<Rightarrow> string \<Rightarrow> bool" where
  "transcodeFromCodecs vcodec acodec \<longleftrightarrow> \<not> mp4FriendlyVideo vcodec \<or> \<not> mp4FriendlyAudio acodec"

definition needsTranscode :: "ytdlpMetadata \<Rightarrow> bool" where
  "needsTranscode m = transcodeFromCodecs (field_or_empty m ''vcodec'') (field_or_empty m ''acodec'')"

text \<open>\<open>decideTranscode\<close>: \<open>probe\<close> is what the probe of the stream gives, if it is run.\<close>

definition decideTranscode :: "go_error + ffprobeResult \<Rightarrow> ytdlpMetadata \<Rightarrow> Endpoint \<Rightarrow> bool \<Rightarrow> bool" where
  "decideTranscode probe m endpoint isLive =
     (let vcodec = field_or_empty m ''vcodec'';
          acodec = field_or_empty m ''acodec'';
          codec = (\<lambda>res c t. if c = '''' then (case firstStream res t of Some s \<Rightarrow> st_CodecName s | None \<Rightarrow> '''')
                             else c)
      in if (vcodec = '''' \<or> acodec = '''') \<and> endpoint = EndpointProgressive \<and> \<not> isLive then
           (case probe of
              Inr res \<Rightarrow> transcodeFromCodecs (codec res vcodec ''video'') (codec res acodec ''audio'')
            | Inl _ \<Rightarrow> transcodeFromCodecs vcodec acodec)
         else transcodeFromCodecs vcodec acodec)"

section \<open>Headers\<close>

text \<open>\<open>CanonicalMIMEHeaderKey\<close>: unchanged when a byte cannot be in a header name.\<close>

definition token_char :: "char \<Rightarrow> bool" where
  "token_char c \<longleftrightarrow> is_alpha c \<or> is_digit c \<or> c \<in> set ''!#$%&*+-.^_`|~'' \<union> {CHR 0x27}"

fun canonical_loop :: "bool \<Rightarrow> string \<Rightarrow> string" where
  "canonical_loop up [] = []"
| "canonical_loop up (c # s) = (if up then upper_char c else lower_char c) # canonical_loop (c = CHR ''-'') s"

definition CanonicalHeaderKey :: "string \<Rightarrow> string" where
  "CanonicalHeaderKey k = (if list_all token_char k then canonical_loop True k else k)"

definition header_set :: "string \<Rightarrow> string \<Rightarrow> header \<Rightarrow> header" where
  "header_set k v h =
     (let c = CanonicalHeaderKey k
      in if c \<in> fst ` set h then map (\<lambda>p. if fst p = c then (c, [v]) else p) h else h @ [(c, [v])])"

fun headers_loop :: "(string \<times> json) list \<Rightarrow> header \<Rightarrow> header" where
  "headers_loop [] h = h"
| "headers_loop ((k, v) # kvs) h =
     (case v of
        JStr s \<Rightarrow> headers_loop kvs (if s \<noteq> '''' then header_set k s h else h)
      | _ \<Rightarrow> headers_loop kvs h)"

text \<open>
  The entries of an object with the last of the duplicates alone. The empty header stands for
  nil, too; Go ranges over the map in any order.
\<close>

fun entries :: "(string \<times> json) list \<Rightarrow> (string \<times> json) list" where
  "entries [] = []"
| "entries ((k, v) # kvs) = (if k \<in> fst ` set kvs then entries kvs else (k, v) # entries kvs)"

definition extractHeaders :: "ytdlpMetadata \<Rightarrow> header" where
  "extractHeaders m =
     (case get m ''http_headers'' of Some (JObj kvs) \<Rightarrow> headers_loop (entries kvs) [] | _ \<Rightarrow> [])"

definition headerMap :: "header \<Rightarrow> (string \<times> string) list" where
  "headerMap h = map (\<lambda>(k, vs). (k, header_get h (CanonicalHeaderKey k))) h"

section \<open>The stream\<close>

definition isHTTPURL :: "string \<Rightarrow> bool" where
  "isHTTPURL rawURL =
     (case Parse rawURL of
        None \<Rightarrow> False
      | Some u \<Rightarrow> (u_scheme u = ''http'' \<or> u_scheme u = ''https'') \<and> u_host u \<noteq> '''')"

text \<open>The URL of an item of a list, when it is one that can be fetched.\<close>

definition item_url :: "json \<Rightarrow> string option" where
  "item_url j =
     (case j of
        JObj item \<Rightarrow>
          (case stringField item ''url'' of Some u \<Rightarrow> if isHTTPURL u then Some u else None | None \<Rightarrow> None)
      | _ \<Rightarrow> None)"

fun downloads_loop :: "json list \<Rightarrow> string option" where
  "downloads_loop [] = None"
| "downloads_loop (d # ds) = (case item_url d of Some u \<Rightarrow> Some u | None \<Rightarrow> downloads_loop ds)"

definition codec_present :: "ytdlpMetadata \<Rightarrow> string \<Rightarrow> bool" where
  "codec_present item k =
     (case text_of (get item k) of Some c \<Rightarrow> c \<noteq> '''' \<and> c \<noteq> ''none'' | None \<Rightarrow> False)"

definition isProgressiveFormat :: "json \<Rightarrow> bool" where
  "isProgressiveFormat j =
     (case j of JObj item \<Rightarrow> codec_present item ''acodec'' \<and> codec_present item ''vcodec'' | _ \<Rightarrow> False)"

text \<open>The loop over the formats from the last to the first, on the reversed list.\<close>

fun formats_loop :: "json list \<Rightarrow> string \<Rightarrow> string option" where
  "formats_loop [] fallback = (if fallback \<noteq> '''' then Some fallback else None)"
| "formats_loop (f # fs) fallback =
     (case item_url f of
        None \<Rightarrow> formats_loop fs fallback
      | Some u \<Rightarrow>
          (let fb = (if fallback = '''' then u else fallback)
           in if isProgressiveFormat f then Some u else formats_loop fs fb))"

definition array_of :: "json option \<Rightarrow> json list" where
  "array_of j = (case j of Some (JArr xs) \<Rightarrow> xs | _ \<Rightarrow> [])"

definition findStreamURL :: "ytdlpMetadata \<Rightarrow> go_error + string" where
  "findStreamURL m =
     (case item_url (JObj m) of
        Some u \<Rightarrow> Inr u
      | None \<Rightarrow>
          (case downloads_loop (array_of (get m ''requested_downloads'')) of
             Some u \<Rightarrow> Inr u
           | None \<Rightarrow>
               (case formats_loop (rev (array_of (get m ''formats''))) '''' of
                  Some u \<Rightarrow> Inr u
                | None \<Rightarrow> Inl (Msg ''yt-dlp JSON does not contain a playable stream URL''))))"

definition replaceStreamURLs :: "string \<Rightarrow> ytdlpMetadata \<Rightarrow> ytdlpMetadata" where
  "replaceStreamURLs proxyURL m0 =
     (let m = put ''url'' (JStr proxyURL) m0
      in case get m ''requested_downloads'' of
           Some (JArr ds) \<Rightarrow>
             put ''requested_downloads''
               (JArr (map (\<lambda>d. case d of JObj item \<Rightarrow> JObj (put ''url'' (JStr proxyURL) item) | _ \<Rightarrow> d) ds)) m
         | _ \<Rightarrow> m)"

section \<open>The yt-dlp runner\<close>

record ytdlpRunner =
  y_path :: string
  y_format :: string
  y_extraArgs :: "string list"
  y_cookiesFile :: string
  y_proxy :: string

definition newYtdlpRunner :: "Config \<Rightarrow> ytdlpRunner" where
  "newYtdlpRunner cfg =
     \<lparr>y_path = (if YtdlpPath cfg = '''' then ''yt-dlp'' else YtdlpPath cfg),
      y_format = (if YtdlpFormat cfg = '''' then progressiveFormat else YtdlpFormat cfg),
      y_extraArgs = YtdlpExtraArgs cfg, y_cookiesFile = CookiesFile cfg, y_proxy = Proxy cfg\<rparr>"

definition commandArgs :: "ytdlpRunner \<Rightarrow> string \<Rightarrow> string list" where
  "commandArgs y rawURL =
     [''-J'', ''--no-playlist'', ''--no-warnings'', ''-f'', y_format y] @ y_extraArgs y @
     (if y_cookiesFile y \<noteq> '''' then [''--cookies'', y_cookiesFile y] else []) @
     (if y_proxy y \<noteq> '''' then [''--proxy'', y_proxy y] else []) @ [''--'', rawURL]"

record Extraction =
  Metadata :: ytdlpMetadata
  StreamURL :: string
  StreamEndpoint :: Endpoint
  IsLive :: bool
  Transcode :: bool
  Headers :: header

text \<open>What the yt-dlp process did: ran into its time limit, failed, or printed a text.\<close>

datatype run_result = TimedOut | Failed string | Printed string

text \<open>\<open>json.Unmarshal\<close> into a map: an object, or null, which leaves the map nil.\<close>

definition unmarshal_map :: "string \<Rightarrow> ytdlpMetadata option" where
  "unmarshal_map t =
     (case parse_json t of
        Some (JObj m) \<Rightarrow> if numbers_ok (JObj m) then Some m else None
      | Some JNull \<Rightarrow> Some []
      | _ \<Rightarrow> None)"

text \<open>\<open>Extract\<close>: what ffprobe would report for a URL and its headers is an argument.\<close>

definition Extract ::
  "(string \<Rightarrow> (string \<times> string) list \<Rightarrow> go_error + ffprobeResult) \<Rightarrow> run_result \<Rightarrow> go_error + Extraction" where
  "Extract probe run =
     (case run of
        TimedOut \<Rightarrow> Inl (Msg ''yt-dlp timed out'')
      | Failed e \<Rightarrow> Inl (Msg (''yt-dlp failed: '' @ e))
      | Printed out \<Rightarrow>
          (case unmarshal_map out of
             None \<Rightarrow> Inl (Msg ''failed to parse yt-dlp JSON'')
           | Some m \<Rightarrow>
               (case findStreamURL m of
                  Inl e \<Rightarrow> Inl e
                | Inr u \<Rightarrow>
                    (let e = classifyEndpoint m u; live = boolField m ''is_live''; hs = extractHeaders m
                     in Inr \<lparr>Metadata = m, StreamURL = u, StreamEndpoint = e, IsLive = live,
                             Transcode = decideTranscode (probe u (headerMap hs)) m e live, Headers = hs\<rparr>))))"


section \<open>Properties\<close>

lemma formats_loop_spec:
  "formats_loop fs fb =
     (let ps = filter (\<lambda>f. item_url f \<noteq> None \<and> isProgressiveFormat f) fs;
          us = filter (\<lambda>f. item_url f \<noteq> None) fs
      in if ps \<noteq> [] then item_url (hd ps)
         else if fb \<noteq> '''' then Some fb
         else if us \<noteq> [] then item_url (hd us) else None)"
proof (induction fs arbitrary: fb)
  case (Cons f fs)
  show ?case
  proof (cases "item_url f")
    case None
    with Cons show ?thesis by simp
  next
    case (Some u)
    then have "u \<noteq> ''''"
      by (auto simp: item_url_def stringField_def split: json.splits option.splits if_splits)
    with Cons Some show ?thesis by (cases "isProgressiveFormat f") (auto simp: Let_def)
  qed
qed simp

lemma downloads_loop_spec:
  "downloads_loop ds =
     (let us = filter (\<lambda>d. item_url d \<noteq> None) ds in if us \<noteq> [] then item_url (hd us) else None)"
  by (induction ds) (auto split: option.splits)

text \<open>
  C33. findStreamURL: the URL of the document itself comes first, then the first usable one of the
  requested downloads; of the formats it is the last usable one that carries both sound and
  pictures, and only when there is none the last usable one; an error means that no place has
  a usable URL.
\<close>

theorem findStreamURL_best:
  "findStreamURL m =
     (let formats = array_of (get m ''formats'');
          ps = filter (\<lambda>f. item_url f \<noteq> None \<and> isProgressiveFormat f) formats;
          us = filter (\<lambda>f. item_url f \<noteq> None) formats;
          ds = filter (\<lambda>d. item_url d \<noteq> None) (array_of (get m ''requested_downloads''))
      in if item_url (JObj m) \<noteq> None then Inr (the (item_url (JObj m)))
         else if ds \<noteq> [] then Inr (the (item_url (hd ds)))
         else if ps \<noteq> [] then Inr (the (item_url (last ps)))
         else if us \<noteq> [] then Inr (the (item_url (last us)))
         else Inl (Msg ''yt-dlp JSON does not contain a playable stream URL''))"
proof -
  define ps where "ps = filter (\<lambda>f. item_url f \<noteq> None \<and> isProgressiveFormat f) (array_of (get m ''formats''))"
  define us where "us = filter (\<lambda>f. item_url f \<noteq> None) (array_of (get m ''formats''))"
  define ds where "ds = filter (\<lambda>d. item_url d \<noteq> None) (array_of (get m ''requested_downloads''))"
  have some: "ps \<noteq> [] \<Longrightarrow> item_url (last ps) \<noteq> None" "us \<noteq> [] \<Longrightarrow> item_url (last us) \<noteq> None"
    "ds \<noteq> [] \<Longrightarrow> item_url (hd ds) \<noteq> None"
    using last_in_set [of ps] last_in_set [of us] hd_in_set [of ds]
    unfolding ps_def us_def ds_def set_filter by blast+
  have "formats_loop (rev (array_of (get m ''formats''))) '''' =
      (if ps \<noteq> [] then item_url (last ps) else if us \<noteq> [] then item_url (last us) else None)"
    unfolding formats_loop_spec ps_def us_def by (simp only: rev_filter [symmetric] hd_rev Let_def) simp
  moreover have "downloads_loop (array_of (get m ''requested_downloads'')) =
      (if ds \<noteq> [] then item_url (hd ds) else None)"
    unfolding downloads_loop_spec ds_def Let_def ..
  ultimately show ?thesis
    unfolding findStreamURL_def Let_def ps_def [symmetric] us_def [symmetric] ds_def [symmetric]
    using some
    by (cases "item_url (JObj m)"; cases "ds = []"; cases "ps = []"; cases "us = []") auto
qed

lemma get_put: "get (put k v m) k' = (if k' = k then Some v else get m k')"
proof -
  have "map_of (filter (\<lambda>p. fst p \<noteq> k) xs) k' = (if k' = k then None else map_of xs k')" for xs :: ytdlpMetadata
    by (induction xs) auto
  then show ?thesis by (simp add: get_def put_def rev_filter)
qed

text \<open>The places of a document yt-dlp names a URL of the chosen stream in.\<close>

definition published_urls :: "ytdlpMetadata \<Rightarrow> string option list" where
  "published_urls m =
     stringField m ''url'' #
     [stringField item ''url''. JObj item \<leftarrow> array_of (get m ''requested_downloads'')]"

lemma item_url_http: "item_url j = Some u \<Longrightarrow> isHTTPURL u"
  by (auto simp: item_url_def split: json.splits option.splits if_splits)

lemma findStreamURL_http: "findStreamURL m = Inr u \<Longrightarrow> isHTTPURL u"
proof -
  have "downloads_loop ds = Some u \<Longrightarrow> isHTTPURL u" for ds
    by (induction ds) (auto split: option.splits dest: item_url_http)
  moreover have "formats_loop fs fb = Some u \<Longrightarrow> fb = '''' \<or> isHTTPURL fb \<Longrightarrow> isHTTPURL u" for fs fb
    by (induction fs arbitrary: fb) (auto simp: Let_def split: option.splits if_splits dest: item_url_http)
  ultimately show "findStreamURL m = Inr u \<Longrightarrow> isHTTPURL u"
    by (auto simp: findStreamURL_def split: option.splits dest: item_url_http)
qed

lemma stringField_put: "p \<noteq> '''' \<Longrightarrow> stringField (put ''url'' (JStr p) m) ''url'' = Some p"
  by (simp add: stringField_def get_put text_of_def)


lemma published_replaced:
  assumes "p \<noteq> ''''"
  shows "set (published_urls (replaceStreamURLs p m)) = {Some p}"
proof -
  let ?f = "\<lambda>d. case d of JObj item \<Rightarrow> JObj (put ''url'' (JStr p) item) | _ \<Rightarrow> d"
  define m' where "m' = put ''url'' (JStr p) m"
  have items: "set [stringField item ''url''. JObj item \<leftarrow> map ?f ds] \<subseteq> {Some p}" for ds
    using stringField_put [OF assms] by (induction ds) (auto split: json.splits)
  consider ds where "get m' ''requested_downloads'' = Some (JArr ds)"
    | "\<And>ds. get m' ''requested_downloads'' \<noteq> Some (JArr ds)" by blast
  then show ?thesis
  proof cases
    case 1
    then have "replaceStreamURLs p m = put ''requested_downloads'' (JArr (map ?f ds)) m'"
      by (simp add: replaceStreamURLs_def m'_def)
    moreover have "stringField (put ''requested_downloads'' j m') ''url'' = Some p" for j
      using stringField_put [OF assms, of m] by (simp add: m'_def stringField_def get_put)
    ultimately show ?thesis using items [of ds] by (simp add: published_urls_def get_put array_of_def)
  next
    case 2
    then have "replaceStreamURLs p m = m'"
      by (auto simp: replaceStreamURLs_def m'_def [symmetric] Let_def split: option.splits json.splits)
    moreover have "array_of (get m' ''requested_downloads'') = []"
      using 2 by (auto simp: array_of_def split: option.splits json.splits)
    ultimately show ?thesis
      using stringField_put [OF assms, of m] by (simp add: published_urls_def m'_def)
  qed
qed



text \<open>
  decideTranscode: the probe can only fill in a codec that yt-dlp left open. When yt-dlp
  knows both, when the stream is live or not a single file, and when the probe fails, the
  decision is the one needsTranscode takes on the metadata alone; and a stream of which
  nothing is known is not re-encoded.
\<close>

theorem transcode_decision:
  "decideTranscode (Inl e) m endpoint isLive = needsTranscode m \<and>
   decideTranscode probe (put ''vcodec'' (JStr (c # v)) (put ''acodec'' (JStr (d # a)) m)) endpoint isLive =
     transcodeFromCodecs (c # v) (d # a) \<and>
   decideTranscode probe m EndpointHLS isLive = needsTranscode m \<and>
   decideTranscode probe m EndpointDASH isLive = needsTranscode m \<and>
   decideTranscode probe m endpoint True = needsTranscode m \<and>
   \<not> decideTranscode (Inr \<lparr>Format = f, Streams = []\<rparr>) [] endpoint isLive"
proof (intro conjI)
  note defs = decideTranscode_def needsTranscode_def Let_def
  show "decideTranscode (Inl e) m endpoint isLive = needsTranscode m" by (simp add: defs)
  show "decideTranscode probe m EndpointHLS isLive = needsTranscode m" by (simp add: defs)
  show "decideTranscode probe m EndpointDASH isLive = needsTranscode m" by (simp add: defs)
  show "decideTranscode probe m endpoint True = needsTranscode m" by (simp add: defs)
  let ?m = "put ''vcodec'' (JStr (c # v)) (put ''acodec'' (JStr (d # a)) m)"
  have "field_or_empty ?m ''vcodec'' = c # v" "field_or_empty ?m ''acodec'' = d # a"
    by (simp_all add: field_or_empty_def stringField_def get_put text_of_def)
  then show "decideTranscode probe ?m endpoint isLive = transcodeFromCodecs (c # v) (d # a)"
    by (simp add: decideTranscode_def Let_def)
  have "field_or_empty [] k = ''''" for k
    by (simp add: field_or_empty_def stringField_def get_def text_of_def)
  moreover have "\<not> transcodeFromCodecs '''' ''''"
    by (simp add: transcodeFromCodecs_def mp4FriendlyVideo_def mp4FriendlyAudio_def)
  ultimately show "\<not> decideTranscode (Inr \<lparr>Format = f, Streams = []\<rparr>) [] endpoint isLive"
    by (simp add: decideTranscode_def firstStream_def)
qed

end
