(* ===== verification/Hls.thy ===== *)
theory Hls
  imports Dash Token Upstream_Guard Extractor
begin

text \<open>
  hls.go: the signed proxy URLs, their way back through a request, and the two handlers for
  manifests and segments. The clock, the nonce of a token, the resolver, the XML reader and
  what an upstream answers are arguments; so are the two operations of the in-memory cache,
  which a library provides. The cap on the number of concurrent fetches is in the theory Fetch_Slots.
\<close>

section \<open>Payloads\<close>

record proxyPayload =
  pl_URL :: string
  pl_Headers :: "(string \<times> string) list"

definition hlsTokenTTL :: int where
  "hlsTokenTTL = 6 * 3600 * Second"

text \<open>\<open>json.Marshal\<close> of a payload: the keys of the headers in ascending order.\<close>

fun join_comma :: "string list \<Rightarrow> string" where
  "join_comma [] = ''''"
| "join_comma [s] = s"
| "join_comma (s # ss) = s @ '','' @ join_comma ss"

definition member :: "string \<Rightarrow> string \<Rightarrow> string" where
  "member k t = json_quote k @ '':'' @ t"

definition sorted_headers :: "(string \<times> string) list \<Rightarrow> (string \<times> string) list" where
  "sorted_headers h = map (\<lambda>k. (k, value_of h k)) (sort (map fst h))"

definition marshal_payload :: "proxyPayload \<Rightarrow> string" where
  "marshal_payload pl =
     ''{'' @ member ''u'' (json_quote (pl_URL pl)) @
     (if pl_Headers pl \<noteq> [] then
        '','' @ member ''h''
          (''{'' @ join_comma (map (\<lambda>(k, v). member k (json_quote v)) (sorted_headers (pl_Headers pl))) @ ''}'')
      else '''') @ ''}''"

text \<open>
  \<open>json.Unmarshal\<close> into a payload: names match in either case, other fields are skipped,
  null changes nothing (and gives the empty string in the map), the entries of a second
  header object are added to those of the first.
\<close>

definition map_put :: "string \<Rightarrow> string \<Rightarrow> (string \<times> string) list \<Rightarrow> (string \<times> string) list" where
  "map_put k v m = (if k \<in> fst ` set m then map (\<lambda>p. if fst p = k then (k, v) else p) m else m @ [(k, v)])"

fun put_headers :: "(string \<times> json) list \<Rightarrow> (string \<times> string) list \<Rightarrow> (string \<times> string) list option" where
  "put_headers [] m = Some m"
| "put_headers ((k, v) # kvs) m =
     (case json_string v of Some s \<Rightarrow> put_headers kvs (map_put k s m) | None \<Rightarrow> None)"

definition put_field :: "string \<Rightarrow> json \<Rightarrow> proxyPayload \<Rightarrow> proxyPayload option" where
  "put_field k v pl =
     (if k = ''u'' \<or> k = ''U'' then
        (case v of JStr s \<Rightarrow> Some (pl\<lparr>pl_URL := s\<rparr>) | JNull \<Rightarrow> Some pl | _ \<Rightarrow> None)
      else if k = ''h'' \<or> k = ''H'' then
        (case v of
           JObj kvs \<Rightarrow> map_option (\<lambda>m. pl\<lparr>pl_Headers := m\<rparr>) (put_headers kvs (pl_Headers pl))
         | JNull \<Rightarrow> Some (pl\<lparr>pl_Headers := []\<rparr>)
         | _ \<Rightarrow> None)
      else Some pl)"

fun put_fields :: "(string \<times> json) list \<Rightarrow> proxyPayload \<Rightarrow> proxyPayload option" where
  "put_fields [] pl = Some pl"
| "put_fields ((k, v) # kvs) pl =
     (case put_field k v pl of Some pl' \<Rightarrow> put_fields kvs pl' | None \<Rightarrow> None)"

definition empty_payload :: proxyPayload where
  "empty_payload = \<lparr>pl_URL = '''', pl_Headers = []\<rparr>"

definition unmarshal_payload :: "string \<Rightarrow> proxyPayload option" where
  "unmarshal_payload t =
     (case parse_json t of
        Some (JObj kvs) \<Rightarrow> put_fields kvs empty_payload
      | Some JNull \<Rightarrow> Some empty_payload
      | _ \<Rightarrow> None)"

section \<open>Proxied URLs\<close>

record signer =
  sg_key :: "byte list"
  sg_nonce :: "byte list"
  sg_now :: int

definition encodeToken :: "signer \<Rightarrow> string \<Rightarrow> (string \<times> string) list \<Rightarrow> string" where
  "encodeToken sg rawURL headers =
     Sign (sg_key sg) (sg_nonce sg) (sg_now sg) (marshal_payload \<lparr>pl_URL = rawURL, pl_Headers = headers\<rparr>) hlsTokenTTL"

definition decodeToken :: "byte list \<Rightarrow> int \<Rightarrow> string \<Rightarrow> go_error + proxyPayload" where
  "decodeToken key now token =
     (case Verify key now token of
        Inl e \<Rightarrow> Inl e
      | Inr raw \<Rightarrow> (case unmarshal_payload raw of None \<Rightarrow> Inl (Msg ''decode payload'') | Some pl \<Rightarrow> Inr pl))"

definition manifestURL :: "signer \<Rightarrow> string \<Rightarrow> string \<Rightarrow> (string \<times> string) list \<Rightarrow> string" where
  "manifestURL sg proxyBase rawURL headers =
     proxyBase @ ''/hls/manifest?t='' @ QueryEscape (encodeToken sg rawURL headers)"

definition segmentURL :: "signer \<Rightarrow> string \<Rightarrow> string \<Rightarrow> (string \<times> string) list \<Rightarrow> string" where
  "segmentURL sg proxyBase rawURL headers =
     proxyBase @ ''/hls/segment?t='' @ QueryEscape (encodeToken sg rawURL headers)"

section \<open>Requests\<close>

text \<open>\<open>url.Values.Get\<close> of a parsed query: pairs that cannot be read are left out.\<close>

definition query_pair :: "string \<Rightarrow> (string \<times> string) option" where
  "query_pair p =
     (if p = '''' \<or> CHR '';'' \<in> set p then None
      else (let (k, v) = (case Cut p (CHR ''='') of Some kv \<Rightarrow> kv | None \<Rightarrow> (p, ''''))
            in case (url_unescape InQuery k, url_unescape InQuery v) of
                 (Some k, Some v) \<Rightarrow> Some (k, v)
               | _ \<Rightarrow> None))"

definition ParseQuery :: "string \<Rightarrow> (string \<times> string) list" where
  "ParseQuery rawQuery = List.map_filter query_pair (split_on (CHR ''&'') rawQuery)"

definition query_get :: "string \<Rightarrow> string \<Rightarrow> string" where
  "query_get rawQuery name = (case map_of (ParseQuery rawQuery) name of Some v \<Rightarrow> v | None \<Rightarrow> '''')"

datatype reply = HttpError nat string | Content string string

definition payloadFromRequest ::
  "byte list \<Rightarrow> int \<Rightarrow> (string \<Rightarrow> go_error + addr list) \<Rightarrow> string \<Rightarrow> reply + proxyPayload" where
  "payloadFromRequest key now resolve rawQuery =
     (let token = query_get rawQuery ''t''
      in if token = '''' then Inl (HttpError 400 ''missing token'')
         else case decodeToken key now token of
             Inl _ \<Rightarrow> Inl (HttpError 403 ''invalid token'')
           | Inr pl \<Rightarrow>
               if guardUpstreamURL resolve (pl_URL pl) \<noteq> None then Inl (HttpError 403 ''disallowed upstream'')
               else Inr pl)"

section \<open>Fetching\<close>

record response =
  r_status :: nat
  r_contentType :: string
  r_body :: string
  r_readError :: "go_error option"

definition userAgent :: string where
  "userAgent = ''Mozilla/5.0 (compatible; vrc-video-proxy)''"

definition applyHeaders :: "(string \<times> string) list \<Rightarrow> header" where
  "applyHeaders headers = foldl (\<lambda>h (k, v). header_set k v h) [] headers"

definition headersToHTTP :: "(string \<times> string) list \<Rightarrow> header" where
  "headersToHTTP headers = foldl (\<lambda>h (k, v). header_set k v h) [] headers"

definition request_header :: "(string \<times> string) list \<Rightarrow> header" where
  "request_header headers =
     (let h = applyHeaders headers
      in if header_get h ''User-Agent'' = '''' then header_set ''User-Agent'' userAgent h else h)"

text \<open>\<open>fetch\<close>: body and content type; the body is cut one byte above the limit.\<close>

definition fetch :: "(string \<Rightarrow> header \<Rightarrow> go_error + response) \<Rightarrow> proxyPayload \<Rightarrow> go_error + string \<times> string" where
  "fetch upstream pl =
     (case Parse (pl_URL pl) of
        None \<Rightarrow> Inl (Msg ''invalid URL'')
      | Some _ \<Rightarrow>
          (case upstream (pl_URL pl) (request_header (pl_Headers pl)) of
             Inl e \<Rightarrow> Inl e
           | Inr r \<Rightarrow>
               if r_status r \<noteq> 200 \<and> r_status r \<noteq> 206 then Inl (Msg ''upstream returned status'')
               else (case r_readError r of
                   Some e \<Rightarrow> if int (length (r_body r)) \<le> maxManifestSize then Inl e
                             else Inr (take (nat (maxManifestSize + 1)) (r_body r), r_contentType r)
                 | None \<Rightarrow> Inr (take (nat (maxManifestSize + 1)) (r_body r), r_contentType r))))"

section \<open>Manifests\<close>

record hls_env =
  e_sign :: signer
  e_base :: string
  e_resolve :: "string \<Rightarrow> go_error + addr list"
  e_upstream :: "string \<Rightarrow> header \<Rightarrow> go_error + response"
  e_readMPD :: "string \<Rightarrow> go_error + mpd"
  e_oob :: "f64 \<Rightarrow> int"

definition build_url :: "hls_env \<Rightarrow> proxyPayload \<Rightarrow> string \<Rightarrow> hlsKind \<Rightarrow> string" where
  "build_url env pl absURL kind =
     (case kind of
        kindManifest \<Rightarrow> manifestURL (e_sign env) (e_base env) absURL (pl_Headers pl)
      | kindSegment \<Rightarrow> segmentURL (e_sign env) (e_base env) absURL (pl_Headers pl))"

definition ServeManifest :: "hls_env \<Rightarrow> string \<Rightarrow> reply" where
  "ServeManifest env rawQuery =
     (case payloadFromRequest (sg_key (e_sign env)) (sg_now (e_sign env)) (e_resolve env) rawQuery of
        Inl r \<Rightarrow> r
      | Inr pl \<Rightarrow>
          (case fetch (e_upstream env) pl of
             Inl _ \<Rightarrow> HttpError 502 ''upstream manifest unavailable''
           | Inr (body, _) \<Rightarrow>
               if int (length body) > maxManifestSize then HttpError 502 ''manifest too large''
               else if isMPD body then
                 (case dashToHLS (e_oob env) (e_readMPD env body) (pl_URL pl) (\<lambda>u. build_url env pl u kindSegment) of
                    Inl _ \<Rightarrow> HttpError 501 ''unsupported DASH manifest''
                  | Inr t \<Rightarrow> Content ''application/vnd.apple.mpegurl'' t)
               else
                 (case rewriteHLSPlaylist body (pl_URL pl) (build_url env pl) of
                    Inl _ \<Rightarrow> HttpError 502 ''manifest rewrite failed''
                  | Inr t \<Rightarrow> Content ''application/vnd.apple.mpegurl'' t)))"

section \<open>Segments\<close>

definition pathOf :: "string \<Rightarrow> string" where
  "pathOf rawURL = (case Parse rawURL of Some u \<Rightarrow> u_path u | None \<Rightarrow> rawURL)"

text \<open>\<open>path.Ext\<close>: from the last dot of the last element on.\<close>

definition Ext :: "string \<Rightarrow> string" where
  "Ext p =
     (let base = (case after_last p (CHR ''/'') of Some b \<Rightarrow> b | None \<Rightarrow> p)
      in case after_last base (CHR ''.'') of Some e \<Rightarrow> CHR ''.'' # e | None \<Rightarrow> '''')"

definition segmentContentType :: "string \<Rightarrow> string" where
  "segmentContentType rawURL =
     (let ext = ToLower (Ext (pathOf rawURL))
      in if ext = ''.ts'' then ''video/mp2t''
         else if ext \<in> {''.m4s'', ''.mp4'', ''.m4a'', ''.m4v'', ''.cmf'', ''.cmfv'', ''.cmfa''} then ''video/mp4''
         else if ext = ''.aac'' then ''audio/aac''
         else if ext = ''.vtt'' then ''text/vtt''
         else if ext \<in> {''.m3u8'', ''.m3u''} then ''application/vnd.apple.mpegurl''
         else ''application/octet-stream'')"

definition segment_key :: "proxyPayload \<Rightarrow> string" where
  "segment_key pl = hlsSegmentKey (pl_URL pl) (headersToHTTP (pl_Headers pl))"

text \<open>
  The requests for segments run beside each other. A request looks into the cache, then joins
  the fetch for its key or starts one (\<open>singleflight\<close>); the end of a fetch fills the cache
  and answers the request that started it and all that joined.
\<close>

datatype seg_request = Looking | Joining | Leading | Waiting | Replied reply

record 'c seg_state =
  ss_cache :: 'c
  ss_flight :: "string \<Rightarrow> nat option"
  ss_req :: "nat \<Rightarrow> seg_request"

definition finish_flight ::
  "(string \<Rightarrow> 'c \<Rightarrow> string \<Rightarrow> 'c) \<Rightarrow> (nat \<Rightarrow> proxyPayload) \<Rightarrow> nat \<Rightarrow> go_error + string \<times> string \<Rightarrow> 'c seg_state \<Rightarrow> 'c seg_state" where
  "finish_flight store pls i result s =
     (let key = segment_key (pls i);
          reply = (\<lambda>j. case result of
                     Inl _ \<Rightarrow> HttpError 502 ''upstream segment unavailable''
                   | Inr (body, ct) \<Rightarrow> Content (if ct = '''' then segmentContentType (pl_URL (pls j)) else ct) body)
      in s\<lparr>ss_cache := (case result of Inl _ \<Rightarrow> ss_cache s | Inr (body, _) \<Rightarrow> store key (ss_cache s) body),
           ss_flight := (ss_flight s)(key := None),
           ss_req := (\<lambda>j. if j = i \<or> ss_req s j = Waiting \<and> segment_key (pls j) = key
                          then Replied (reply j) else ss_req s j)\<rparr>)"

text \<open>
  One step of ServeSegment for request \<open>i\<close> with the payloads \<open>pls\<close>; the label of the end of a
  fetch is what the fetch gave.
\<close>

inductive seg_step ::
  "('c \<Rightarrow> string \<Rightarrow> string option) \<Rightarrow> (string \<Rightarrow> 'c \<Rightarrow> string \<Rightarrow> 'c) \<Rightarrow> (nat \<Rightarrow> proxyPayload) \<Rightarrow>
   'c seg_state \<Rightarrow> (nat \<times> (go_error + string \<times> string)) option \<Rightarrow> 'c seg_state \<Rightarrow> bool"
  for lookup store pls where
  hit: "ss_req s i = Looking \<Longrightarrow> lookup (ss_cache s) (segment_key (pls i)) = Some body \<Longrightarrow>
     seg_step lookup store pls s None
       (s\<lparr>ss_req := (ss_req s)(i := Replied (Content (segmentContentType (pl_URL (pls i))) body))\<rparr>)"
| miss: "ss_req s i = Looking \<Longrightarrow> lookup (ss_cache s) (segment_key (pls i)) = None \<Longrightarrow>
     seg_step lookup store pls s None (s\<lparr>ss_req := (ss_req s)(i := Joining)\<rparr>)"
| lead: "ss_req s i = Joining \<Longrightarrow> ss_flight s (segment_key (pls i)) = None \<Longrightarrow>
     seg_step lookup store pls s None
       (s\<lparr>ss_flight := (ss_flight s)(segment_key (pls i) \<mapsto> i), ss_req := (ss_req s)(i := Leading)\<rparr>)"
| join: "ss_req s i = Joining \<Longrightarrow> ss_flight s (segment_key (pls i)) = Some j \<Longrightarrow>
     seg_step lookup store pls s None (s\<lparr>ss_req := (ss_req s)(i := Waiting)\<rparr>)"
| fetched: "ss_req s i = Leading \<Longrightarrow>
     seg_step lookup store pls s (Some (i, result)) (finish_flight store pls i result s)"


section \<open>A proxied URL leads back to its payload\<close>

lemma skip_space_id [simp]:
  "\<not> json_space c \<Longrightarrow> skip_space (c # s) = c # s"
  by (simp add: skip_space_def)

lemma not_json_space [simp]:
  "\<not> json_space (CHR 0x22)" "\<not> json_space (CHR ''{'')" "\<not> json_space (CHR ''}'')" "\<not> json_space (CHR '','')"
  "\<not> json_space (CHR '':'')"
  by (simp_all add: json_space_def)

lemma parse_quoted:
  "parse_value (Suc n) d (json_quote s @ r) = Some (JStr (to_valid s), r)"
  using unquote_quote_body [of s r] by (simp add: json_quote_def)

text \<open>The members of a headers object, up to its closing brace.\<close>

lemma parse_header_members:
  "kvs \<noteq> [] \<Longrightarrow> n > 2 * length kvs \<Longrightarrow>
   parse_members n d (join_comma (map (\<lambda>(k, v). member k (json_quote v)) kvs) @ ''}'' @ r) =
     Some (map (\<lambda>(k, v). (to_valid k, JStr (to_valid v))) kvs, r)"
proof (induction kvs arbitrary: n)
  case (Cons p kvs)
  obtain k v where p: "p = (k, v)" by (cases p)
  from Cons.prems obtain m where n: "n = Suc (Suc m)" by (cases n; cases "n - 1") auto
  have u: "unquote (quote_body k @ CHR 0x22 # t) = Some (to_valid k, t)" for t
    by (rule unquote_quote_body)
  have v: "parse_value (Suc m) d (json_quote v @ t) = Some (JStr (to_valid v), t)" for t
    by (rule parse_quoted)
  show ?case
  proof (cases kvs)
    case Nil
    then show ?thesis using u v by (simp add: p n member_def json_quote_def)
  next
    case (Cons q qs)
    then have "parse_members (Suc m) d (join_comma (map (\<lambda>(k, v). member k (json_quote v)) kvs) @ ''}'' @ r) =
        Some (map (\<lambda>(k, v). (to_valid k, JStr (to_valid v))) kvs, r)"
      using Cons.IH [of "Suc m"] Cons.prems n by simp
    then show ?thesis using Cons u v by (simp add: p n member_def json_quote_def del: parse_value.simps)
  qed
qed simp


lemma length_join: "\<forall>x\<in>set xs. f x \<noteq> '''' \<Longrightarrow> length xs \<le> length (join_comma (map f xs))"
proof (induction xs)
  case (Cons x xs)
  then have "1 \<le> length (f x)" by (cases "f x") auto
  with Cons show ?case by (cases xs) auto
qed simp

lemma unquote_name:
  "unquote (quote_body ''u'' @ CHR 0x22 # t) = Some (''u'', t)"
  "unquote (quote_body ''h'' @ CHR 0x22 # t) = Some (''h'', t)"
  using unquote_quote_body [of "''u''" t] unquote_quote_body [of "''h''" t]
  by (simp_all add: utf8_len_ascii code_of_def del: unquote.simps quote_body.simps)

lemma parse_member_end:
  assumes "unquote (quote_body k @ CHR 0x22 # (CHR '':'' # v @ CHR ''}'' # r)) = Some (k', CHR '':'' # v @ CHR ''}'' # r)"
    and "parse_value n d (v @ CHR ''}'' # r) = Some (j, CHR ''}'' # r)"
  shows "parse_members (Suc n) d (member k v @ CHR ''}'' # r) = Some ([(k', j)], r)"
  using assms by (simp add: member_def json_quote_def del: parse_value.simps unquote.simps quote_body.simps)

lemma parse_member_more:
  assumes "unquote (quote_body k @ CHR 0x22 # (CHR '':'' # v @ CHR '','' # r)) = Some (k', CHR '':'' # v @ CHR '','' # r)"
    and "parse_value n d (v @ CHR '','' # r) = Some (j, CHR '','' # r)"
    and "parse_members n d r = Some (kvs, r')"
  shows "parse_members (Suc n) d (member k v @ CHR '','' # r) = Some ((k', j) # kvs, r')"
  using assms
  by (simp add: member_def json_quote_def del: parse_value.simps unquote.simps quote_body.simps)

lemma parse_object:
  assumes "d > 0" and "parse_members n (d - 1) (CHR 0x22 # s) = Some (kvs, r)"
  shows "parse_value (Suc n) d (CHR ''{'' # CHR 0x22 # s) = Some (JObj kvs, r)"
  using assms by (simp add: HasPrefix_def del: parse_members.simps)

lemma member_head: "\<exists>t. member k v @ s = CHR 0x22 # t"
  by (simp add: member_def json_quote_def)

lemma parse_payload:
  assumes "h \<noteq> []"
  shows "parse_json (''{'' @ member ''u'' (json_quote u) @ '','' @
      member ''h'' (''{'' @ join_comma (map (\<lambda>(k, v). member k (json_quote v)) h) @ ''}'') @ ''}'') =
    Some (JObj [(''u'', JStr (to_valid u)), (''h'', JObj (map (\<lambda>(k, v). (to_valid k, JStr (to_valid v))) h))])"
proof -
  define hs where "hs = join_comma (map (\<lambda>(k, v). member k (json_quote v)) h)"
  define js where "js = map (\<lambda>(k, v). (to_valid k, JStr (to_valid v))) h"
  define obj where "obj = CHR ''{'' # hs @ ''}''"
  define doc where "doc = CHR ''{'' # member ''u'' (json_quote u) @ CHR '','' # member ''h'' obj @ CHR ''}'' # ''''"
  have "length h \<le> length hs" unfolding hs_def by (rule length_join) (auto simp: member_def json_quote_def)
  then obtain k where k: "2 * length doc + 2 = Suc (Suc (Suc (Suc k)))" "k > 2 * length h"
    by (intro that [of "2 * length doc - 2"]) (simp_all add: doc_def obj_def member_def json_quote_def)
  have "\<exists>t. hs = CHR 0x22 # t" using assms member_head unfolding hs_def
    by (cases h; cases "tl h") (auto simp: member_def json_quote_def)
  then obtain t0 where t0: "hs = CHR 0x22 # t0" ..
  have "parse_members k d (hs @ CHR ''}'' # t) = Some (js, t)" for d t
    using parse_header_members [OF assms k(2), of d t] by (simp add: hs_def js_def)
  then have obj: "parse_value (Suc k) d (obj @ t) = Some (JObj js, t)" if "d > 0" for d t
    using parse_object [OF that, of k "t0 @ CHR ''}'' # t" js t] by (simp add: obj_def t0 del: parse_value.simps)
  have inner: "parse_members (Suc (Suc k)) d (member ''h'' obj @ CHR ''}'' # t) = Some ([(''h'', JObj js)], t)"
    if "d > 0" for d t
    by (rule parse_member_end [OF unquote_name(2) obj [OF that]])
  have outer: "parse_members (Suc (Suc (Suc k))) d (member ''u'' (json_quote u) @ CHR '','' # member ''h'' obj @ CHR ''}'' # t) =
      Some ([(''u'', JStr (to_valid u)), (''h'', JObj js)], t)" if "d > 0" for d t
    by (rule parse_member_more [OF unquote_name(1) parse_quoted inner [OF that]])
  obtain t1 where t1: "member ''u'' (json_quote u) @ CHR '','' # member ''h'' obj @ CHR ''}'' # '''' = CHR 0x22 # t1"
    using member_head by blast
  have "parse_value (2 * length doc + 2) maxNestingDepth doc =
      Some (JObj [(''u'', JStr (to_valid u)), (''h'', JObj js)], '''')"
    unfolding k(1) unfolding doc_def t1
    by (rule parse_object) (use outer [of "maxNestingDepth - 1" "''''"] in \<open>simp_all add: t1 maxNestingDepth_def\<close>)
  then show ?thesis
    by (simp add: parse_json_def doc_def obj_def hs_def js_def skip_space_def del: parse_value.simps)
qed


lemma parse_payload_plain:
  "parse_json (''{'' @ member ''u'' (json_quote u) @ ''}'') = Some (JObj [(''u'', JStr (to_valid u))])"
proof -
  define doc where "doc = CHR ''{'' # member ''u'' (json_quote u) @ CHR ''}'' # ''''"
  obtain k where k: "2 * length doc + 2 = Suc (Suc (Suc k))"
    by (intro that [of "2 * length doc - 1"]) (simp add: doc_def member_def json_quote_def)
  obtain t1 where t1: "member ''u'' (json_quote u) @ CHR ''}'' # '''' = CHR 0x22 # t1"
    using member_head by blast
  have "parse_members (Suc (Suc k)) d (member ''u'' (json_quote u) @ CHR ''}'' # '''') =
      Some ([(''u'', JStr (to_valid u))], '''')" for d
    by (rule parse_member_end [OF unquote_name(1) parse_quoted])
  then have "parse_value (2 * length doc + 2) maxNestingDepth doc = Some (JObj [(''u'', JStr (to_valid u))], '''')"
    unfolding k(1) unfolding doc_def t1
    by (intro parse_object) (simp_all add: maxNestingDepth_def)
  then show ?thesis
    by (simp add: parse_json_def doc_def skip_space_def del: parse_value.simps)
qed

lemma put_headers_new:
  "distinct (map fst m @ map fst kvs) \<Longrightarrow>
   put_headers (map (\<lambda>(k, v). (k, JStr v)) kvs) m = Some (m @ kvs)"
proof (induction kvs arbitrary: m)
  case (Cons p kvs)
  obtain k v where p: "p = (k, v)" by (cases p)
  from Cons.prems p have "k \<notin> fst ` set m" "distinct (map fst (m @ [(k, v)]) @ map fst kvs)" by auto
  with Cons.IH [of "m @ [(k, v)]"] p show ?case by (simp add: json_string_def map_put_def)
qed simp

text \<open>A payload of well-formed UTF-8 with each header named once.\<close>

definition payload_ok :: "string \<Rightarrow> (string \<times> string) list \<Rightarrow> bool" where
  "payload_ok u h \<longleftrightarrow>
     valid_utf8 u \<and> distinct (map fst h) \<and> list_all (\<lambda>(k, v). valid_utf8 k \<and> valid_utf8 v) h"

lemma sorted_headers_ok:
  assumes "payload_ok u h"
  shows "distinct (map fst (sorted_headers h))" "map_of (sorted_headers h) = map_of h"
    "map (\<lambda>(k, v). (to_valid k, JStr (to_valid v))) (sorted_headers h) = map (\<lambda>(k, v). (k, JStr v)) (sorted_headers h)"
proof -
  have d: "distinct (map fst h)" and v: "\<forall>(k, v)\<in>set h. valid_utf8 k \<and> valid_utf8 v"
    using assms by (simp_all add: payload_ok_def list_all_iff)
  have fst: "map fst (sorted_headers h) = sort (map fst h)"
    by (simp add: sorted_headers_def comp_def)
  show "distinct (map fst (sorted_headers h))" unfolding fst using d by simp
  show "map_of (sorted_headers h) = map_of h"
  proof
    fix k
    have "map_of (map (\<lambda>k. (k, g k)) ks) k = (if k \<in> set ks then Some (g k) else None)" for ks and g :: "string \<Rightarrow> string"
      by (induction ks) auto
    moreover have "k \<in> fst ` set h \<longleftrightarrow> map_of h k \<noteq> None" by (simp add: map_of_eq_None_iff)
    ultimately show "map_of (sorted_headers h) k = map_of h k"
      by (simp add: sorted_headers_def value_of_def split: option.split)
  qed
  have "valid_utf8 k \<and> valid_utf8 v" if kv: "(k, v) \<in> set (sorted_headers h)" for k v
  proof -
    from kv obtain w where "(k, w) \<in> set h" "v = value_of h k" by (auto simp: sorted_headers_def)
    with d v show ?thesis by (auto simp: value_of_def)
  qed
  then show "map (\<lambda>(k, v). (to_valid k, JStr (to_valid v))) (sorted_headers h) = map (\<lambda>(k, v). (k, JStr v)) (sorted_headers h)"
    by (auto simp: to_valid_id)
qed

lemma unmarshal_marshal:
  assumes "payload_ok u h"
  shows "unmarshal_payload (marshal_payload \<lparr>pl_URL = u, pl_Headers = h\<rparr>) =
           Some \<lparr>pl_URL = u, pl_Headers = sorted_headers h\<rparr>"
proof (cases "h = []")
  case True
  then show ?thesis
    using assms parse_payload_plain [of u]
    by (simp add: unmarshal_payload_def marshal_payload_def put_field_def empty_payload_def payload_ok_def
        to_valid_id sorted_headers_def)
next
  case False
  moreover have "length (sorted_headers h) = length h" by (simp add: sorted_headers_def)
  ultimately have ne: "sorted_headers h \<noteq> []" by auto
  have "parse_json (marshal_payload \<lparr>pl_URL = u, pl_Headers = h\<rparr>) =
      Some (JObj [(''u'', JStr u), (''h'', JObj (map (\<lambda>(k, v). (k, JStr v)) (sorted_headers h)))])"
    using parse_payload [OF ne, of u] \<open>h \<noteq> []\<close> assms
    by (simp add: marshal_payload_def sorted_headers_ok(3) [OF assms] payload_ok_def to_valid_id)
  then show ?thesis
    using put_headers_new [of "[]" "sorted_headers h"] sorted_headers_ok(1) [OF assms]
    by (simp add: unmarshal_payload_def put_field_def empty_payload_def)
qed

text \<open>A query string with the one parameter of a proxied URL.\<close>

lemma query_token: "query_get (''t='' @ QueryEscape t) ''t'' = t"
proof -
  have no: "c \<notin> set (QueryEscape t)" if "c \<in> {CHR ''&'', CHR '';'', CHR ''=''}" for c
    using QueryEscape_separators that by blast
  have "split_on (CHR ''&'') (''t='' @ QueryEscape t) = [''t='' @ QueryEscape t]"
    using no by (intro split_on_single) auto
  moreover have "query_pair (''t='' @ QueryEscape t) = Some (''t'', t)"
    using no query.dec_enc by (simp add: query_pair_def)
  ultimately show ?thesis by (simp add: query_get_def ParseQuery_def List.map_filter_def)
qed

lemma token_some: "bs \<noteq> [] \<Longrightarrow> EncodeToString bs \<noteq> []"
  using b64.enc_inject [of bs "[]"] by (simp add: EncodeToString_def)


lemma link_opens:
  assumes "payload_ok u h" and "length (sg_nonce sg) = nonceSize" and "in_i64 (tokenExpiry (sg_now sg) hlsTokenTTL)"
  shows "payloadFromRequest (sg_key sg) now resolve (''t='' @ QueryEscape (encodeToken sg u h)) =
      (if tokenExpiry (sg_now sg) hlsTokenTTL \<noteq> 0 \<and> unixSeconds now > unixSeconds (sg_now sg + hlsTokenTTL)
       then Inl (HttpError 403 ''invalid token'')
       else if guardUpstreamURL resolve u \<noteq> None then Inl (HttpError 403 ''disallowed upstream'')
       else Inr \<lparr>pl_URL = u, pl_Headers = sorted_headers h\<rparr>)"
proof -
  let ?t = "encodeToken sg u h" and ?m = "marshal_payload \<lparr>pl_URL = u, pl_Headers = h\<rparr>"
  obtain bs where bs: "?t = EncodeToString bs" "bs \<noteq> []"
    using assms(2) unfolding encodeToken_def Sign_def Let_def
    by (metis append_is_Nil_conv list.size(3) nonceSize_def zero_neq_numeral)
  note q = query_token [of ?t] token_some [OF bs(2)]
  have v: "Verify (sg_key sg) now ?t =
      (if hlsTokenTTL \<le> 0 \<or> tokenExpiry (sg_now sg) hlsTokenTTL = 0 \<or>
          unixSeconds now \<le> unixSeconds (sg_now sg + hlsTokenTTL)
       then Inr ?m else Inl (Msg ''token expired''))"
    unfolding encodeToken_def by (rule Verify_Sign [OF assms(2,3)])
  have ttl: "\<not> hlsTokenTTL \<le> 0" by (simp add: hlsTokenTTL_def Second_def)
  show ?thesis
    unfolding payloadFromRequest_def decodeToken_def q(1) Let_def v using ttl q(2) bs(1)
    by (auto simp: unmarshal_marshal [OF assms(1)])
qed

text \<open>
  C13. The proxied URLs: what the rewriter puts into a playlist for an upstream URL and its
  headers leads, when the player asks for it, back to exactly this URL and these headers,
  through the query string, the token and the JSON inside it. Until the token runs out the
  request is refused only if the guard refuses the URL; afterwards it is always refused.
\<close>

theorem proxied_url_opens:
  assumes "payload_ok u h" and "length (sg_nonce sg) = nonceSize" and "in_i64 (tokenExpiry (sg_now sg) hlsTokenTTL)"
  shows "\<exists>q. manifestURL sg proxyBase u h = proxyBase @ ''/hls/manifest?'' @ q \<and>
    segmentURL sg proxyBase u h = proxyBase @ ''/hls/segment?'' @ q \<and>
    map_of (sorted_headers h) = map_of h \<and>
    payloadFromRequest (sg_key sg) now resolve q =
      (if tokenExpiry (sg_now sg) hlsTokenTTL \<noteq> 0 \<and> unixSeconds now > unixSeconds (sg_now sg + hlsTokenTTL)
       then Inl (HttpError 403 ''invalid token'')
       else if guardUpstreamURL resolve u \<noteq> None then Inl (HttpError 403 ''disallowed upstream'')
       else Inr \<lparr>pl_URL = u, pl_Headers = sorted_headers h\<rparr>)"
  using link_opens [OF assms] sorted_headers_ok(2) [OF assms(1)]
  by (intro exI [of _ "''t='' @ QueryEscape (encodeToken sg u h)"]) (simp add: manifestURL_def segmentURL_def)

theorem proxied_url_opens_witness:
  "\<exists>q. segmentURL \<lparr>sg_key = replicate 32 7, sg_nonce = replicate 12 1, sg_now = 0\<rparr> ''http://p'' ''http://93.184.216.34/a'' [] =
     ''http://p/hls/segment?'' @ q"
  using proxied_url_opens [of "''http://93.184.216.34/a''" "[]"
      "\<lparr>sg_key = replicate 32 7, sg_nonce = replicate 12 1, sg_now = 0\<rparr>" "''http://p''"]
  by (auto simp: payload_ok_def valid_utf8_ascii code_of_def nonceSize_def tokenExpiry_def unixSeconds_def
      hlsTokenTTL_def Second_def i64_bounds)

text \<open>
  The chain behind a proxied URL: the payload as JSON, sealed in a token, escaped for a query
  string. Headers are sorted by their name on the way.
\<close>

definition payload_sorted :: "proxyPayload \<Rightarrow> bool" where
  "payload_sorted pl \<longleftrightarrow>
     payload_ok (pl_URL pl) (pl_Headers pl) \<and> sorted_headers (pl_Headers pl) = pl_Headers pl"

interpretation payload: codec payload_sorted marshal_payload unmarshal_payload
proof
  show "unmarshal_payload (marshal_payload pl) = Some pl" if "payload_sorted pl" for pl
    using that unmarshal_marshal [of "pl_URL pl" "pl_Headers pl"] by (cases pl) (simp add: payload_sorted_def)
qed

interpretation sealed: codec_chain "\<lambda>pl. payload_sorted pl \<and> token_live nonce t0 ttl now" marshal_payload unmarshal_payload
  "\<lambda>_. token_live nonce t0 ttl now" "\<lambda>p. Sign key nonce t0 p ttl" "opened key now" for key nonce t0 ttl now
  by unfold_locales (auto simp: payload.dec_enc)

interpretation link: codec_chain "\<lambda>pl. payload_sorted pl \<and> token_live nonce t0 ttl now"
  "\<lambda>pl. Sign key nonce t0 (marshal_payload pl) ttl" "\<lambda>t. Option.bind (opened key now t) unmarshal_payload"
  "\<lambda>_. True" QueryEscape "url_unescape InQuery" for key nonce t0 ttl now
  by unfold_locales simp

text \<open>So two links of a playlist are equal only when they lead to the same place.\<close>

theorem links_tell_apart:
  assumes "segmentURL sg proxyBase u h = segmentURL sg proxyBase u' h'"
    and "payload_sorted \<lparr>pl_URL = u, pl_Headers = h\<rparr>" and "payload_sorted \<lparr>pl_URL = u', pl_Headers = h'\<rparr>"
    and "length (sg_nonce sg) = nonceSize" and "in_i64 (tokenExpiry (sg_now sg) hlsTokenTTL)"
  shows "u = u' \<and> h = h'"
proof -
  have live: "token_live (sg_nonce sg) (sg_now sg) hlsTokenTTL (sg_now sg + hlsTokenTTL)"
    using assms(4,5) by (simp add: token_live_def)
  from assms(1) show ?thesis
    using link.chain.enc_inject [of _ "sg_nonce sg" "sg_now sg" hlsTokenTTL _ _ "sg_key sg", OF conjI [OF assms(2) live] conjI [OF assms(3) live]]
    by (simp add: segmentURL_def encodeToken_def)
qed

theorem links_tell_apart_witness:
  "segmentURL \<lparr>sg_key = replicate 32 7, sg_nonce = replicate 12 1, sg_now = 0\<rparr> ''http://p'' ''http://a/1'' [] \<noteq>
   segmentURL \<lparr>sg_key = replicate 32 7, sg_nonce = replicate 12 1, sg_now = 0\<rparr> ''http://p'' ''http://a/2'' []"
  using links_tell_apart [of "\<lparr>sg_key = replicate 32 7, sg_nonce = replicate 12 1, sg_now = 0\<rparr>" "''http://p''"
      "''http://a/1''" "[]" "''http://a/2''" "[]"]
  by (auto simp: payload_sorted_def payload_ok_def valid_utf8_ascii code_of_def sorted_headers_def nonceSize_def
      tokenExpiry_def unixSeconds_def hlsTokenTTL_def Second_def i64_bounds)

text \<open>
  A URL that is not well-formed UTF-8, as an upstream playlist may have it in a query
  string, does not survive: the JSON of the payload has the replacement character in the place
  of each stray byte, so the proxied URL leads to another address than the playlist names.
\<close>

theorem stray_bytes_change_url:
  "unmarshal_payload (marshal_payload \<lparr>pl_URL = ''http://h/a?n='' @ [CHR 0xE9], pl_Headers = []\<rparr>) =
     Some \<lparr>pl_URL = ''http://h/a?n='' @ [CHR 0xEF, CHR 0xBF, CHR 0xBD], pl_Headers = []\<rparr> \<and>
   map_option url_string (Parse (''http://h/a?n='' @ [CHR 0xE9])) = Some (''http://h/a?n='' @ [CHR 0xE9])"
proof
  have "to_valid (''http://h/a?n='' @ [CHR 0xE9]) = ''http://h/a?n='' @ [CHR 0xEF, CHR 0xBF, CHR 0xBD]"
    by (simp add: utf8_len_ascii code_of_def utf8_len_def replacement_def)
  then show "unmarshal_payload (marshal_payload \<lparr>pl_URL = ''http://h/a?n='' @ [CHR 0xE9], pl_Headers = []\<rparr>) =
     Some \<lparr>pl_URL = ''http://h/a?n='' @ [CHR 0xEF, CHR 0xBF, CHR 0xBD], pl_Headers = []\<rparr>"
    using parse_payload_plain [of "''http://h/a?n='' @ [CHR 0xE9]"]
    by (simp add: unmarshal_payload_def marshal_payload_def put_field_def empty_payload_def
        del: quote_body.simps to_valid.simps)
  show "map_option url_string (Parse (''http://h/a?n='' @ [CHR 0xE9])) = Some (''http://h/a?n='' @ [CHR 0xE9])"
    by code_simp
qed


section \<open>Segments: one fetch, right answers\<close>

text \<open>What is relied on of the cache: a lookup gives a value that was stored under the key.\<close>

definition cache_law :: "('c \<Rightarrow> string \<Rightarrow> string option) \<Rightarrow> (string \<Rightarrow> 'c \<Rightarrow> string \<Rightarrow> 'c) \<Rightarrow> bool" where
  "cache_law lookup store \<longleftrightarrow>
     (\<forall>c k b k' w. lookup (store k c b) k' = Some w \<longrightarrow> k' = k \<and> w = b \<or> lookup c k' = Some w)"

text \<open>The states that can be reached from an empty cache, with the fetches that have ended.\<close>

inductive seg_reach ::
  "('c \<Rightarrow> string \<Rightarrow> string option) \<Rightarrow> (string \<Rightarrow> 'c \<Rightarrow> string \<Rightarrow> 'c) \<Rightarrow> (nat \<Rightarrow> proxyPayload) \<Rightarrow> 'c \<Rightarrow>
   'c seg_state \<Rightarrow> (nat \<times> (go_error + string \<times> string)) list \<Rightarrow> bool"
  for lookup store pls c0 where
  start: "seg_reach lookup store pls c0 \<lparr>ss_cache = c0, ss_flight = (\<lambda>_. None), ss_req = (\<lambda>_. Looking)\<rparr> []"
| step: "seg_reach lookup store pls c0 s ended \<Longrightarrow> seg_step lookup store pls s l s' \<Longrightarrow>
     seg_reach lookup store pls c0 s' (case l of None \<Rightarrow> ended | Some e \<Rightarrow> e # ended)"

inductive_cases seg_endE: "seg_step lookup store pls s (Some (j, result)) s'"

text \<open>A fetch in flight is led by a request for its key, and every waiting request has one.\<close>

definition flights_ok :: "(nat \<Rightarrow> proxyPayload) \<Rightarrow> 'c seg_state \<Rightarrow> bool" where
  "flights_ok pls s \<longleftrightarrow>
     (\<forall>k j. ss_flight s k = Some j \<longrightarrow> ss_req s j = Leading \<and> segment_key (pls j) = k) \<and>
     (\<forall>j. ss_req s j = Leading \<longrightarrow> ss_flight s (segment_key (pls j)) = Some j) \<and>
     (\<forall>j. ss_req s j = Waiting \<longrightarrow> ss_flight s (segment_key (pls j)) \<noteq> None)"

text \<open>What the end of a fetch leaves of the flights and of the requests that are not answered.\<close>

lemma finish_flight_req:
  "ss_flight (finish_flight store pls i result s) = (ss_flight s)(segment_key (pls i) := None)"
  "ss_req (finish_flight store pls i result s) j = Leading \<longleftrightarrow> ss_req s j = Leading \<and> j \<noteq> i"
  "ss_req (finish_flight store pls i result s) j = Waiting \<longleftrightarrow>
     ss_req s j = Waiting \<and> j \<noteq> i \<and> segment_key (pls j) \<noteq> segment_key (pls i)"
  by (auto simp: finish_flight_def Let_def)

lemma flights_okD:
  assumes "flights_ok pls s"
  shows "ss_flight s k = Some j \<Longrightarrow> ss_req s j = Leading \<and> segment_key (pls j) = k"
    and "ss_req s j = Leading \<Longrightarrow> ss_flight s (segment_key (pls j)) = Some j"
    and "ss_req s j = Waiting \<Longrightarrow> \<exists>k. ss_flight s (segment_key (pls j)) = Some k"
  using assms unfolding flights_ok_def by blast+

lemma flights_ok_lead:
  assumes "flights_ok pls s" and "ss_req s i = Joining" and "ss_flight s (segment_key (pls i)) = None"
  shows "flights_ok pls (s\<lparr>ss_flight := (ss_flight s)(segment_key (pls i) \<mapsto> i), ss_req := (ss_req s)(i := Leading)\<rparr>)"
proof -
  note facts = flights_okD [OF assms(1)]
  have free: "segment_key (pls j) \<noteq> segment_key (pls i)" if "ss_req s j = Leading" for j
    using facts(2) [OF that] assms(3) by auto
  show ?thesis
    unfolding flights_ok_def
  proof (intro conjI allI impI, goal_cases)
    case (1 k j)
    with assms(2) facts(1) show ?case by (cases "k = segment_key (pls i)") auto
  next
    case (2 k j)
    with facts(1) show ?case by (cases "k = segment_key (pls i)") auto
  next
    case (3 j)
    with facts(2) free show ?case by (cases "j = i") auto
  next
    case (4 j)
    with facts(3) show ?case by (cases "j = i") (auto split: if_splits)
  qed
qed

lemma flights_ok_finish:
  assumes "flights_ok pls s" and "ss_req s i = Leading"
  shows "flights_ok pls (finish_flight store pls i result s)"
proof -
  note facts = flights_okD [OF assms(1)]
  show ?thesis
    unfolding flights_ok_def finish_flight_req [of store pls i result s]
  proof (intro conjI allI impI, goal_cases)
    case (1 k j)
    with assms(2) facts(1) show ?case by (cases "k = segment_key (pls i)") auto
  next
    case (2 k j)
    with assms(2) facts(1,2) show ?case by (cases "k = segment_key (pls i)") auto
  next
    case (3 k j)
    with facts(1) show ?case by (cases "k = segment_key (pls i)") auto
  next
    case (4 j)
    then have "segment_key (pls j) \<noteq> segment_key (pls i)" using facts(2) [of j] facts(2) [of i] assms(2) by auto
    with 4 facts(2) show ?case by simp
  next
    case (5 j)
    with facts(3) show ?case by auto
  qed
qed

lemma flights_ok_step:
  assumes "flights_ok pls s" and "seg_step lookup store pls s l s'"
  shows "flights_ok pls s'"
  using assms(2)
proof (cases rule: seg_step.cases)
  case (lead i)
  then show ?thesis using flights_ok_lead [OF assms(1)] by simp
next
  case (fetched i result)
  then show ?thesis using flights_ok_finish [OF assms(1)] by simp
qed (use flights_okD [OF assms(1)] in \<open>unfold flights_ok_def; force\<close>)+

lemma flights_ok_reach: "seg_reach lookup store pls c0 s ended \<Longrightarrow> flights_ok pls s"
proof (induction rule: seg_reach.induct)
  case start
  then show ?case by (simp add: flights_ok_def)
next
  case (step s ended l s')
  then show ?case by (blast intro: flights_ok_step)
qed


text \<open>What a reply and the cache may hold, given the fetches that have ended.\<close>

definition replies_ok ::
  "('c \<Rightarrow> string \<Rightarrow> string option) \<Rightarrow> (nat \<Rightarrow> proxyPayload) \<Rightarrow> 'c seg_state \<Rightarrow>
   (nat \<times> (go_error + string \<times> string)) set \<Rightarrow> bool" where
  "replies_ok lookup pls s ended \<longleftrightarrow>
     (\<forall>k b. lookup (ss_cache s) k = Some b \<longrightarrow> (\<exists>j ct. (j, Inr (b, ct)) \<in> ended \<and> segment_key (pls j) = k)) \<and>
     (\<forall>i ct b. ss_req s i = Replied (Content ct b) \<longrightarrow>
        (\<exists>j ct'. (j, Inr (b, ct')) \<in> ended \<and> segment_key (pls j) = segment_key (pls i))) \<and>
     (\<forall>i n t. ss_req s i = Replied (HttpError n t) \<longrightarrow>
        n = 502 \<and> (\<exists>j e. (j, Inl e) \<in> ended \<and> segment_key (pls j) = segment_key (pls i)))"

lemma replies_ok_mono: "replies_ok lookup pls s ended \<Longrightarrow> ended \<subseteq> ended' \<Longrightarrow> replies_ok lookup pls s ended'"
  unfolding replies_ok_def by blast

lemma replies_ok_step:
  assumes "cache_law lookup store" and "replies_ok lookup pls s ended" and "seg_step lookup store pls s l s'"
  shows "replies_ok lookup pls s' (ended \<union> set_option l)"
  using assms(3)
proof (cases rule: seg_step.cases)
  case (hit i body)
  with assms(2) show ?thesis unfolding replies_ok_def by auto
next
  case (miss i)
  with assms(2) show ?thesis unfolding replies_ok_def by auto
next
  case (lead i)
  with assms(2) show ?thesis unfolding replies_ok_def by auto
next
  case (join i j)
  with assms(2) show ?thesis unfolding replies_ok_def by auto
next
  case (fetched i result)
  have old: "replies_ok lookup pls s (ended \<union> set_option l)"
    by (rule replies_ok_mono [OF assms(2)]) simp
  show ?thesis
  proof (cases result)
    case (Inl e)
    with fetched old show ?thesis
      unfolding replies_ok_def finish_flight_def Let_def by (auto split: if_splits)
  next
    case (Inr p)
    obtain body ct where p: "p = (body, ct)" by (cases p)
    have "lookup (store (segment_key (pls i)) (ss_cache s) body) k = Some b \<Longrightarrow>
        k = segment_key (pls i) \<and> b = body \<or> lookup (ss_cache s) k = Some b" for k b
      using assms(1) unfolding cache_law_def by blast
    with fetched old Inr p show ?thesis
      unfolding replies_ok_def finish_flight_def Let_def by (auto split: if_splits) blast+
  qed
qed


lemma replies_ok_reach:
  assumes law: "cache_law lookup store" and empty: "\<forall>k. lookup c0 k = None"
  shows "seg_reach lookup store pls c0 s ended \<Longrightarrow> replies_ok lookup pls s (set ended)"
proof (induction rule: seg_reach.induct)
  case start
  with empty show ?case by (simp add: replies_ok_def)
next
  case (step s ended l s')
  from replies_ok_step [OF law step.IH step.hyps(2)] show ?case by (cases l) simp_all
qed

lemma cache_law_map: "cache_law (\<lambda>m. m) (\<lambda>k m b. m(k \<mapsto> b))"
  by (auto simp: cache_law_def split: if_splits)

text \<open>The first request for a segment leads, the second with the same payload waits for it.\<close>

lemma seg_reach_two:
  assumes "segment_key (pls 0) = segment_key (pls 1)"
  shows "seg_reach (\<lambda>m. m) (\<lambda>k m b. m(k \<mapsto> b)) pls (\<lambda>_. None)
    \<lparr>ss_cache = \<lambda>_. None, ss_flight = [segment_key (pls 0) \<mapsto> 0], ss_req = (\<lambda>_. Looking)(0 := Leading, 1 := Waiting)\<rparr> []"
    (is "seg_reach ?l ?st pls ?c _ _")
proof -
  let ?k = "segment_key (pls 0)"
  define s1 where "s1 = \<lparr>ss_cache = ?c, ss_flight = (\<lambda>_. None), ss_req = (\<lambda>_. Looking)(0 := Joining)\<rparr>"
  define s2 where "s2 = \<lparr>ss_cache = ?c, ss_flight = [?k \<mapsto> 0], ss_req = (\<lambda>_. Looking)(0 := Leading)\<rparr>"
  define s3 where "s3 = \<lparr>ss_cache = ?c, ss_flight = [?k \<mapsto> 0], ss_req = (\<lambda>_. Looking)(0 := Leading, 1 := Joining)\<rparr>"
  have step: "seg_reach ?l ?st pls ?c t []" if "seg_reach ?l ?st pls ?c s []" "seg_step ?l ?st pls s None t" for s t
    using seg_reach.step [OF that] by simp
  have "seg_step ?l ?st pls \<lparr>ss_cache = ?c, ss_flight = (\<lambda>_. None), ss_req = (\<lambda>_. Looking)\<rparr> None s1"
    using seg_step.miss [of "\<lparr>ss_cache = ?c, ss_flight = (\<lambda>_. None), ss_req = (\<lambda>_. Looking)\<rparr>" 0 ?l pls ?st]
    by (simp add: s1_def)
  note one = step [OF seg_reach.start this]
  have "seg_step ?l ?st pls s1 None s2"
    using seg_step.lead [of s1 0 pls ?l ?st] by (simp add: s1_def s2_def)
  note two = step [OF one this]
  have "seg_step ?l ?st pls s2 None s3"
    using seg_step.miss [of s2 1 ?l pls ?st] by (simp add: s2_def s3_def)
  note three = step [OF two this]
  have "seg_step ?l ?st pls s3 None
      \<lparr>ss_cache = ?c, ss_flight = [?k \<mapsto> 0], ss_req = (\<lambda>_. Looking)(0 := Leading, 1 := Waiting)\<rparr>"
    using seg_step.join [of s3 1 pls 0 ?l ?st] assms by (simp add: s3_def)
  then show ?thesis by (rule step [OF three])
qed




text \<open>
  ServeSegment takes the limit that is meant for manifests over to segments without its
  check: of a segment that is larger the first 16 MiB and one byte are sent as the whole body
  with the content type of the upstream, and stored in the cache.
\<close>

theorem segment_truncated:
  assumes "Parse (pl_URL pl) \<noteq> None" and "upstream (pl_URL pl) (request_header (pl_Headers pl)) = Inr r"
    and "r_status r = 200" and "int (length (r_body r)) > maxManifestSize + 1" and "pls i = pl"
  shows "\<exists>body. fetch upstream pl = Inr (body, r_contentType r) \<and> length body < length (r_body r) \<and>
    ss_cache (finish_flight store pls i (fetch upstream pl) s) = store (segment_key pl) (ss_cache s) body \<and>
    (\<exists>ct. ss_req (finish_flight store pls i (fetch upstream pl) s) i = Replied (Content ct body))"
proof -
  let ?body = "take (nat (maxManifestSize + 1)) (r_body r)"
  have "fetch upstream pl = Inr (?body, r_contentType r)"
    using assms(1-4) by (auto simp: fetch_def split: option.split)
  moreover have "length ?body < length (r_body r)"
    using assms(4) by (simp add: maxManifestSize_def min_def)
  ultimately show ?thesis
    using assms(5) by (simp add: finish_flight_def Let_def)
qed


theorem segment_truncated_witness:
  "\<exists>body. fetch (\<lambda>_ _. Inr \<lparr>r_status = 200, r_contentType = ''video/mp2t'', r_body = replicate (2 ^ 25) (CHR ''x''), r_readError = None\<rparr>)
       \<lparr>pl_URL = ''http://h/a.ts'', pl_Headers = []\<rparr> = Inr (body, ''video/mp2t'') \<and> length body < 2 ^ 25"
proof -
  have "Parse ''http://h/a.ts'' \<noteq> None" by code_simp
  with segment_truncated [of "\<lparr>pl_URL = ''http://h/a.ts'', pl_Headers = []\<rparr>"
      "\<lambda>_ _. Inr \<lparr>r_status = 200, r_contentType = ''video/mp2t'', r_body = replicate (2 ^ 25) (CHR ''x''), r_readError = None\<rparr>"
      "\<lparr>r_status = 200, r_contentType = ''video/mp2t'', r_body = replicate (2 ^ 25) (CHR ''x''), r_readError = None\<rparr>"
      "\<lambda>_. \<lparr>pl_URL = ''http://h/a.ts'', pl_Headers = []\<rparr>" 0]
  show ?thesis by (auto simp: maxManifestSize_def)
qed

end
