(* ===== verification/Fetch_Slots.thy ===== *)
theory Fetch_Slots
  imports Hls Interfaces
begin

text \<open>
  hls.go: the cap on the fetches of the manifest proxy. \<open>fetch\<close> takes a slot of the channel
  \<open>sem\<close>, or gives up when its client has gone; it hands the slot back however it ends. What is
  between is \<open>fetch\<close> of the theory Hls. The machine has \<open>n\<close> fetches, numbered below \<open>n\<close>, that
  run beside each other.
\<close>

section \<open>The slots\<close>

definition maxConcurrentSegFetch :: nat where
  "maxConcurrentSegFetch = 6"

datatype fetch_place = Arriving | Fetching | Settled "go_error + string \<times> string"

record slots =
  sl_sem :: nat
  sl_gone :: "nat set"
  sl_place :: "nat \<Rightarrow> fetch_place"

definition newHLSProxy :: slots where
  "newHLSProxy = \<lparr>sl_sem = 0, sl_gone = {}, sl_place = (\<lambda>_. Arriving)\<rparr>"

text \<open>
  The \<open>select\<close> of a fetch whose client has gone while a slot is free may take either branch; a
  fetch whose client goes on the way may still come to its end.
\<close>

inductive slot_step ::
  "nat \<Rightarrow> (nat \<Rightarrow> string \<Rightarrow> header \<Rightarrow> go_error + response) \<Rightarrow> (nat \<Rightarrow> proxyPayload) \<Rightarrow> slots \<Rightarrow> slots \<Rightarrow> bool"
  for n upstream pls where
  take_slot: "i < n \<Longrightarrow> sl_place s i = Arriving \<Longrightarrow> sl_sem s < maxConcurrentSegFetch \<Longrightarrow>
     slot_step n upstream pls s (s\<lparr>sl_sem := sl_sem s + 1, sl_place := (sl_place s)(i := Fetching)\<rparr>)"
| give_up: "i < n \<Longrightarrow> sl_place s i = Arriving \<Longrightarrow> i \<in> sl_gone s \<Longrightarrow>
     slot_step n upstream pls s (s\<lparr>sl_place := (sl_place s)(i := Settled (Inl Canceled))\<rparr>)"
| settle: "i < n \<Longrightarrow> sl_place s i = Fetching \<Longrightarrow>
     result = fetch (upstream i) (pls i) \<or> i \<in> sl_gone s \<and> result = Inl Canceled \<Longrightarrow>
     slot_step n upstream pls s (s\<lparr>sl_sem := sl_sem s - 1, sl_place := (sl_place s)(i := Settled result)\<rparr>)"
| client_goes: "i < n \<Longrightarrow> i \<notin> sl_gone s \<Longrightarrow> slot_step n upstream pls s (s\<lparr>sl_gone := insert i (sl_gone s)\<rparr>)"

section \<open>Slots and fetches\<close>

definition fetching :: "nat \<Rightarrow> slots \<Rightarrow> nat set" where
  "fetching n s = {i. i < n \<and> sl_place s i = Fetching}"

definition place_load :: "fetch_place \<Rightarrow> nat" where
  "place_load p = (case p of Arriving \<Rightarrow> 2 | Fetching \<Rightarrow> 1 | Settled _ \<Rightarrow> 0)"

definition slots_inv ::
  "nat \<Rightarrow> (nat \<Rightarrow> string \<Rightarrow> header \<Rightarrow> go_error + response) \<Rightarrow> (nat \<Rightarrow> proxyPayload) \<Rightarrow> slots \<Rightarrow> bool" where
  "slots_inv n upstream pls s \<longleftrightarrow>
     sl_sem s = card (fetching n s) \<and> sl_sem s \<le> maxConcurrentSegFetch \<and> sl_gone s \<subseteq> {..<n} \<and>
     (\<forall>i r. i < n \<and> sl_place s i = Settled r \<longrightarrow>
        r = fetch (upstream i) (pls i) \<or> i \<in> sl_gone s \<and> r = Inl Canceled)"

definition slots_rank :: "nat \<Rightarrow> slots \<Rightarrow> nat" where
  "slots_rank n s = (\<Sum>i<n. place_load (sl_place s i)) + (n - card (sl_gone s))"

definition all_settled :: "nat \<Rightarrow> slots \<Rightarrow> bool" where
  "all_settled n s \<longleftrightarrow> (\<forall>i<n. \<exists>r. sl_place s i = Settled r)"

lemma fetching_finite [simp]: "finite (fetching n s)"
  by (simp add: fetching_def)

lemma fetching_upd:
  "i < n \<Longrightarrow> fetching n (s\<lparr>sl_sem := k, sl_place := (sl_place s)(i := p)\<rparr>) =
     (if p = Fetching then insert i (fetching n s) else fetching n s - {i})"
  "i < n \<Longrightarrow> fetching n (s\<lparr>sl_place := (sl_place s)(i := p)\<rparr>) =
     (if p = Fetching then insert i (fetching n s) else fetching n s - {i})"
  "fetching n (s\<lparr>sl_gone := g\<rparr>) = fetching n s"
  by (auto simp: fetching_def)

lemma load_upd:
  fixes n :: nat
  shows "i < n \<Longrightarrow> (\<Sum>j<n. place_load ((f(i := p)) j)) + place_load (f i) = (\<Sum>j<n. place_load (f j)) + place_load p"
proof -
  assume "i < n"
  then have "(\<Sum>j<n. place_load (g j)) = place_load (g i) + (\<Sum>j\<in>{..<n} - {i}. place_load (g j))" for g
    by (intro sum.remove) auto
  note split = this
  have "(\<Sum>j\<in>{..<n} - {i}. place_load ((f(i := p)) j)) = (\<Sum>j\<in>{..<n} - {i}. place_load (f j))"
    by (rule sum.cong) simp_all
  then show ?thesis unfolding split [of f] split [of "f(i := p)"] by simp
qed

lemma slots_inv_start: "slots_inv n upstream pls newHLSProxy"
  by (simp add: slots_inv_def newHLSProxy_def fetching_def)

lemma slots_inv_step:
  assumes "slot_step n upstream pls s t"
  shows "slots_inv n upstream pls s \<Longrightarrow> slots_inv n upstream pls t"
  using assms
proof (induction rule: slot_step.induct)
  case (take_slot i s)
  then have "i \<notin> fetching n s" by (simp add: fetching_def)
  with take_slot show ?case by (auto simp: slots_inv_def fetching_upd)
next
  case (give_up i s)
  then have "i \<notin> fetching n s" by (simp add: fetching_def)
  with give_up show ?case by (auto simp: slots_inv_def fetching_upd)
next
  case (settle i s result)
  then have "i \<in> fetching n s" by (simp add: fetching_def)
  with settle show ?case by (auto simp: slots_inv_def fetching_upd)
next
  case (client_goes i s)
  then show ?case by (auto simp: slots_inv_def fetching_upd)
qed

lemma slots_rank_step:
  assumes "slot_step n upstream pls s t"
  shows "slots_inv n upstream pls s \<Longrightarrow> slots_rank n t < slots_rank n s"
  using assms
proof (induction rule: slot_step.induct)
  case (take_slot i s)
  then show ?case using load_upd [of i n "sl_place s" Fetching] by (simp add: slots_rank_def place_load_def)
next
  case (give_up i s)
  then show ?case using load_upd [of i n "sl_place s" "Settled (Inl Canceled)"]
    by (simp add: slots_rank_def place_load_def)
next
  case (settle i s result)
  then show ?case using load_upd [of i n "sl_place s" "Settled result"] by (simp add: slots_rank_def place_load_def)
next
  case (client_goes i s)
  then have g: "sl_gone s \<subseteq> {..<n}" by (simp add: slots_inv_def)
  then have "finite (sl_gone s)" by (rule finite_subset) simp
  moreover have "card (insert i (sl_gone s)) \<le> n"
    using card_mono [of "{..<n}" "insert i (sl_gone s)"] g client_goes(1) by simp
  ultimately show ?case using client_goes by (simp add: slots_rank_def)
qed

text \<open>As long as a fetch is not settled, one holds a slot and can end, or there is a free slot.\<close>

lemma slots_progress:
  assumes "slots_inv n upstream pls s" and "\<not> all_settled n s"
  shows "\<exists>t. slot_step n upstream pls s t"
proof -
  obtain i where i: "i < n" "\<forall>r. sl_place s i \<noteq> Settled r" using assms(2) by (auto simp: all_settled_def)
  show ?thesis
  proof (cases "fetching n s = {}")
    case True
    then have "sl_sem s < maxConcurrentSegFetch" using assms(1) by (simp add: slots_inv_def maxConcurrentSegFetch_def)
    moreover have "sl_place s i = Arriving" using i True by (cases "sl_place s i") (auto simp: fetching_def)
    ultimately show ?thesis using i(1) by (blast intro: take_slot)
  next
    case False
    then obtain j where "j < n" "sl_place s j = Fetching" by (auto simp: fetching_def)
    then show ?thesis by (blast intro: settle)
  qed
qed

interpretation slots: ranked_machine "\<lambda>s. s = newHLSProxy" "slot_step n upstream pls" "slots_inv n upstream pls"
  "slots_rank n" "all_settled n" for n upstream pls
  by unfold_locales (use slots_inv_start slots_inv_step slots_rank_step slots_progress in blast)+

text \<open>
  C16. The cap holds and cannot block: however fetches start, end and lose their clients, at most six
  are with their upstream, and as many slots are taken; a fetch is settled with what its own
  upstream gives, or cancelled because its own client has gone; every run settles all of them, after at most
  three steps for each, and then every slot is free again.
\<close>

theorem fetches_capped:
  assumes "(slot_step n upstream pls)\<^sup>*\<^sup>* newHLSProxy s"
  shows "card (fetching n s) \<le> maxConcurrentSegFetch \<and> sl_sem s = card (fetching n s) \<and>
    (\<forall>i r. i < n \<and> sl_place s i = Settled r \<longrightarrow>
       r = fetch (upstream i) (pls i) \<or> i \<in> sl_gone s \<and> r = Inl Canceled) \<and>
    (\<exists>t. (slot_step n upstream pls)\<^sup>*\<^sup>* s t \<and> all_settled n t) \<and>
    (all_settled n s \<longrightarrow> sl_sem s = 0) \<and>
    ((\<nexists>t. slot_step n upstream pls s t) \<longrightarrow> all_settled n s) \<and>
    (\<forall>k t. (slot_step n upstream pls ^^ k) newHLSProxy t \<longrightarrow> k \<le> 3 * n)"
proof (intro conjI)
  note inv = slots.reachable_inv [OF refl assms]
  show "card (fetching n s) \<le> maxConcurrentSegFetch" "sl_sem s = card (fetching n s)"
    "\<forall>i r. i < n \<and> sl_place s i = Settled r \<longrightarrow>
       r = fetch (upstream i) (pls i) \<or> i \<in> sl_gone s \<and> r = Inl Canceled"
    using inv by (simp_all add: slots_inv_def)
  show "\<exists>t. (slot_step n upstream pls)\<^sup>*\<^sup>* s t \<and> all_settled n t" by (rule slots.reaches_final [OF inv])
  have "all_settled n s \<Longrightarrow> fetching n s = {}" by (auto simp: all_settled_def fetching_def)
  with inv show "all_settled n s \<longrightarrow> sl_sem s = 0" by (auto simp: slots_inv_def)
  show "(\<nexists>t. slot_step n upstream pls s t) \<longrightarrow> all_settled n s" using slots.stops_final [OF refl assms] by blast
  have "slots_rank n newHLSProxy = 3 * n" by (simp add: slots_rank_def newHLSProxy_def place_load_def)
  with slots.run_bounded [OF _ slots_inv_start]
  show "\<forall>k t. (slot_step n upstream pls ^^ k) newHLSProxy t \<longrightarrow> k \<le> 3 * n" by (metis add_leD2)
qed

theorem fetches_capped_witness:
  "\<exists>s. (slot_step 1 (\<lambda>_ _ _. Inl EOF) (\<lambda>_. \<lparr>pl_URL = ''http://h/a.ts'', pl_Headers = []\<rparr>))\<^sup>*\<^sup>* newHLSProxy s \<and>
     sl_place s 0 = Fetching \<and> sl_sem s = 1"
proof -
  let ?step = "slot_step 1 (\<lambda>_ _ _. Inl EOF) (\<lambda>_. \<lparr>pl_URL = ''http://h/a.ts'', pl_Headers = []\<rparr>)"
  let ?s = "newHLSProxy\<lparr>sl_sem := sl_sem newHLSProxy + 1, sl_place := (sl_place newHLSProxy)(0 := Fetching)\<rparr>"
  have "?step newHLSProxy ?s" by (rule take_slot) (simp_all add: newHLSProxy_def maxConcurrentSegFetch_def)
  then have r: "?step\<^sup>*\<^sup>* newHLSProxy ?s" by blast
  have "fetching 1 ?s = {0}" by (auto simp: fetching_def)
  with fetches_capped [OF r] r show ?thesis by (intro exI [of _ ?s]) simp
qed

end
