(* ===== verification/Lifecycle.thy ===== *)
theory Lifecycle
  imports Config
begin

text \<open>
  main.go and dependencies.go: the checks before the start, and the two ways the server runs,
  alone until a signal comes, or beside a game command whose end ends it. What the operating
  system and the network do are arguments of the checks and steps of the machine: a process
  and the server may end at any time, of themselves or after they were told to, which is the subject of the theory Process_Groups.
\<close>

section \<open>Checks before the start\<close>

definition defaultExecutable :: "string \<Rightarrow> string \<Rightarrow> string" where
  "defaultExecutable path fallback = (if path = '''' then fallback else path)"

definition checkRequiredExecutables :: "(string \<Rightarrow> bool) \<Rightarrow> string \<Rightarrow> string \<Rightarrow> string \<Rightarrow> go_error option" where
  "checkRequiredExecutables found ytdlpPath ffmpegPath ffprobePath =
     (let required = [defaultExecutable ytdlpPath ''yt-dlp'', defaultExecutable ffmpegPath ''ffmpeg'',
                      defaultExecutable ffprobePath ''ffprobe'']
      in case List.find (\<lambda>p. \<not> found p) required of
           None \<Rightarrow> None
         | Some p \<Rightarrow> Some (Msg (''missing required executable: '' @ p)))"

text \<open>The environment the tools inherit, and the proxy of the shared client.\<close>

definition configureProxy :: "Config \<Rightarrow> (string \<Rightarrow> string) \<Rightarrow> (string \<Rightarrow> string) \<times> url option" where
  "configureProxy cfg env =
     (case parseProxyURL (Proxy cfg) of
        Inl _ \<Rightarrow> (env, None)
      | Inr None \<Rightarrow> (env, None)
      | Inr (Some u) \<Rightarrow>
          (if u_scheme u = ''socks5'' \<or> u_scheme u = ''socks5h''
           then env(''socks_proxy'' := Proxy cfg)
           else env(''http_proxy'' := Proxy cfg, ''https_proxy'' := Proxy cfg), Some u))"

datatype start_result = Stops nat | Starts Config

text \<open>
  \<open>main\<close> up to the start of the server: \<open>encoders\<close> is what \<open>ffmpeg -encoders\<close> gives and
  \<open>serverErr\<close> the error of \<open>NewServer\<close>.
\<close>

definition start_main ::
  "Config outcome \<Rightarrow> (string \<Rightarrow> bool) \<Rightarrow> go_error + string \<Rightarrow> go_error option \<Rightarrow> start_result" where
  "start_main loaded found encoders serverErr =
     (case loaded of
        Exits n \<Rightarrow> Stops n
      | Fails _ \<Rightarrow> Stops 2
      | Gives cfg \<Rightarrow>
          if checkRequiredExecutables found (YtdlpPath cfg) (FfmpegPath cfg) (FfprobePath cfg) \<noteq> None then Stops 1
          else if validateBackend
                 (newFfmpegRunner (FfmpegPath cfg)
                   \<lparr>o_backend = FfmpegBackend cfg, o_hwDevice = FfmpegHWDevice cfg, o_preset = '''', o_crf = '''',
                    o_videoBitrate = '''', o_maxrate = '''', o_bufsize = '''', o_audioBitrate = ''''\<rparr>)
                 encoders \<noteq> None then Stops 1
          else if serverErr \<noteq> None then Stops 1
          else Starts cfg)"

section \<open>Waiting for the server\<close>

definition Millisecond :: int where
  "Millisecond = 1000000"

text \<open>
  A dial at some time takes a while and may fail; then the loop sleeps. The result is the
  error, the number of dials and the time.
\<close>

function wait_loop ::
  "(int \<Rightarrow> nat \<times> go_error option) \<Rightarrow> int \<Rightarrow> int \<Rightarrow> go_error option \<Rightarrow> nat \<Rightarrow> go_error option \<times> nat \<times> int" where
  "wait_loop dial deadline now lastErr n =
     (if now < deadline then
        (case dial now of
           (d, None) \<Rightarrow> (None, Suc n, now + int d)
         | (d, Some e) \<Rightarrow> wait_loop dial deadline (now + int d + 100 * Millisecond) (Some e) (Suc n))
      else (Some (case lastErr of None \<Rightarrow> Msg ''timeout'' | Some e \<Rightarrow> e), n, now))"
  by pat_completeness auto

termination
  by (relation "measure (\<lambda>(dial, deadline, now, e, n). nat (deadline - now))") (auto simp: Millisecond_def)

declare wait_loop.simps [simp del]

definition waitForServer :: "(int \<Rightarrow> nat \<times> go_error option) \<Rightarrow> int \<Rightarrow> int \<Rightarrow> go_error option \<times> nat \<times> int" where
  "waitForServer dial start timeout = wait_loop dial (start + timeout) start None 0"

section \<open>Running\<close>

datatype wait_error = ExitStatus int | WaitFailed

fun processExitCode :: "wait_error \<Rightarrow> int" where
  "processExitCode (ExitStatus n) = n"
| "processExitCode WaitFailed = 1"

definition game_code :: "wait_error option \<Rightarrow> int" where
  "game_code w = (case w of None \<Rightarrow> 0 | Some e \<Rightarrow> processExitCode e)"

text \<open>
  Where the main goroutine is: alone in its select, waiting for the server to be ready, before
  the start of the game, in the select beside the game, waiting for the game it has told to
  stop (after a signal, or as the server has ended), before the shutdown, waiting for the
  server after it, and at the exit. \<open>Shutting c\<close> and \<open>Closing c\<close> hold the exit code so far.
\<close>

datatype main_place =
    Alone
  | Readying
  | Launching
  | Beside
  | Stopping
  | Orphaned
  | Shutting int
  | Closing int
  | Exited int

datatype server_life = Serving | Ended "go_error option"
datatype game_life = NoGame | Playing | Over "wait_error option"

text \<open>\<open>serverDone\<close> and \<open>gameDone\<close> are channels with room for their one message.\<close>

record life =
  lf_main :: main_place
  lf_server :: server_life
  lf_serverDone :: "go_error option option"
  lf_game :: game_life
  lf_gameDone :: "wait_error option option"

definition runServer :: "Config \<Rightarrow> life" where
  "runServer cfg =
     \<lparr>lf_main = (if GameCommand cfg \<noteq> [] then Readying else Alone), lf_server = Serving, lf_serverDone = None,
      lf_game = NoGame, lf_gameDone = None\<rparr>"

inductive life_step :: "life \<Rightarrow> life \<Rightarrow> bool" where
  server_ends: "lf_server s = Serving \<Longrightarrow> life_step s (s\<lparr>lf_server := Ended e, lf_serverDone := Some e\<rparr>)"
| game_ends: "lf_game s = Playing \<Longrightarrow> life_step s (s\<lparr>lf_game := Over w, lf_gameDone := Some w\<rparr>)"
| alone_signal: "lf_main s = Alone \<Longrightarrow> life_step s (s\<lparr>lf_main := Shutting 0\<rparr>)"
| alone_server: "lf_main s = Alone \<Longrightarrow> lf_serverDone s = Some e \<Longrightarrow>
     life_step s (s\<lparr>lf_serverDone := None, lf_main := Exited (if e \<noteq> None then 1 else 0)\<rparr>)"
| ready: "lf_main s = Readying \<Longrightarrow> life_step s (s\<lparr>lf_main := Launching\<rparr>)"
| not_ready: "lf_main s = Readying \<Longrightarrow> life_step s (s\<lparr>lf_main := Shutting 1\<rparr>)"
| launched: "lf_main s = Launching \<Longrightarrow> life_step s (s\<lparr>lf_main := Beside, lf_game := Playing\<rparr>)"
| not_launched: "lf_main s = Launching \<Longrightarrow> life_step s (s\<lparr>lf_main := Shutting 1\<rparr>)"
| game_signal: "lf_main s = Beside \<Longrightarrow> life_step s (s\<lparr>lf_main := Stopping\<rparr>)"
| game_over: "lf_main s = Beside \<Longrightarrow> lf_gameDone s = Some w \<Longrightarrow>
     life_step s (s\<lparr>lf_gameDone := None, lf_main := Shutting (game_code w)\<rparr>)"
| server_over: "lf_main s = Beside \<Longrightarrow> lf_serverDone s = Some e \<Longrightarrow>
     life_step s (s\<lparr>lf_serverDone := None, lf_main := Orphaned\<rparr>)"
| stopped: "lf_main s = Stopping \<Longrightarrow> lf_gameDone s = Some w \<Longrightarrow>
     life_step s (s\<lparr>lf_gameDone := None, lf_main := Shutting (game_code w)\<rparr>)"
| orphan_stopped: "lf_main s = Orphaned \<Longrightarrow> lf_gameDone s = Some w \<Longrightarrow>
     life_step s (s\<lparr>lf_gameDone := None, lf_main := Exited (if game_code w = 0 then 1 else game_code w)\<rparr>)"
| shut: "lf_main s = Shutting c \<Longrightarrow> life_step s (s\<lparr>lf_main := Closing c\<rparr>)"
| closed: "lf_main s = Closing c \<Longrightarrow> lf_serverDone s = Some e \<Longrightarrow>
     life_step s (s\<lparr>lf_serverDone := None, lf_main := Exited (if e \<noteq> None \<and> c = 0 then 1 else c)\<rparr>)"

inductive life_reach :: "Config \<Rightarrow> life \<Rightarrow> bool" for cfg where
  begin_life: "life_reach cfg (runServer cfg)"
| next_life: "life_reach cfg s \<Longrightarrow> life_step s t \<Longrightarrow> life_reach cfg t"


section \<open>Waiting: properties\<close>

lemma wait_loop_spec:
  assumes "\<forall>t. int (fst (dial t)) \<le> 200 * Millisecond"
  shows "case wait_loop dial deadline now lastErr n of (r, m, t) \<Rightarrow>
    n \<le> m \<and> int (m - n) * (100 * Millisecond) \<le> max 0 (deadline - now + 100 * Millisecond - 1) \<and>
    t < max (now + 1) (deadline + 300 * Millisecond) \<and>
    (r = None \<longrightarrow> (\<exists>t'\<ge>now. t' < deadline \<and> snd (dial t') = None)) \<and>
    (r \<noteq> None \<longrightarrow> deadline \<le> t)"
  using assms
proof (induction dial deadline now lastErr n rule: wait_loop.induct)
  case (1 dial deadline now lastErr n)
  show ?case
  proof (cases "now < deadline")
    case False
    then show ?thesis by (simp add: wait_loop.simps [of dial deadline])
  next
    case True
    obtain d r where d: "dial now = (d, r)" by (cases "dial now")
    with 1(2) have d200: "int d \<le> 200 * Millisecond" by (metis fst_conv)
    show ?thesis
    proof (cases r)
      case None
      with True d d200 show ?thesis
        by (auto simp: wait_loop.simps [of dial deadline] Millisecond_def intro!: exI [of _ now])
    next
      case (Some e)
      obtain r' m t where w: "wait_loop dial deadline (now + int d + 100 * Millisecond) (Some e) (Suc n) = (r', m, t)"
        by (cases "wait_loop dial deadline (now + int d + 100 * Millisecond) (Some e) (Suc n)") auto
      have eq: "wait_loop dial deadline now lastErr n = (r', m, t)"
        using True d Some w by (simp add: wait_loop.simps [of dial deadline now])
      from 1(1) [OF True d [symmetric] Some 1(2), unfolded w prod.case]
      have IH: "Suc n \<le> m"
        "int (m - Suc n) * (100 * Millisecond) \<le> max 0 (deadline - (now + int d + 100 * Millisecond) + 100 * Millisecond - 1)"
        "t < max (now + int d + 100 * Millisecond + 1) (deadline + 300 * Millisecond)"
        "r' = None \<longrightarrow> (\<exists>t'\<ge>now + int d + 100 * Millisecond. t' < deadline \<and> snd (dial t') = None)"
        "r' \<noteq> None \<longrightarrow> deadline \<le> t" by blast+
      have "int (m - n) = int (m - Suc n) + 1" using IH(1) by simp
      then have "int (m - n) * (100 * Millisecond) \<le> max 0 (deadline - now + 100 * Millisecond - 1)"
        using IH(2) True by (simp add: distrib_right Millisecond_def)
      moreover have "t < max (now + 1) (deadline + 300 * Millisecond)"
        using IH(3) True d200 by (simp add: Millisecond_def)
      moreover have "r' = None \<longrightarrow> (\<exists>t'\<ge>now. t' < deadline \<and> snd (dial t') = None)"
      proof
        assume "r' = None"
        with IH(4) obtain t' where "now + int d + 100 * Millisecond \<le> t'" "t' < deadline" "snd (dial t') = None" by blast
        then show "\<exists>t'\<ge>now. t' < deadline \<and> snd (dial t') = None"
          by (intro exI [of _ t']) (simp add: Millisecond_def)
      qed
      ultimately show ?thesis using IH(1,5) by (simp add: eq)
    qed
  qed
qed

text \<open>
  waitForServer: it dials at most once for every tenth of a second of its time limit (a
  part of one counts as a whole), is back at the latest 300 ms after the limit, reports success
  only when a dial before the limit has succeeded, and an error only once the time is up.
\<close>

theorem waitForServer_bounded:
  assumes "\<forall>t. int (fst (dial t)) \<le> 200 * Millisecond" and "timeout > 0"
  shows "case waitForServer dial start timeout of (r, dials, t) \<Rightarrow>
    int dials * (100 * Millisecond) < timeout + 100 * Millisecond \<and> t < start + timeout + 300 * Millisecond \<and>
    (r = None \<longrightarrow> (\<exists>t'\<ge>start. t' < start + timeout \<and> snd (dial t') = None)) \<and>
    (r \<noteq> None \<longrightarrow> start + timeout \<le> t)"
  using wait_loop_spec [OF assms(1), where deadline = "start + timeout" and now = start and lastErr = None and n = 0] assms(2)
  by (auto simp: waitForServer_def Millisecond_def split: prod.splits)

theorem waitForServer_bounded_witness:
  "snd (snd (waitForServer (\<lambda>t. (0, Some (OsError ''refused''))) 0 Second)) < Second + 300 * Millisecond"
  using waitForServer_bounded [of "\<lambda>t. (0, Some (OsError ''refused''))" Second 0]
  by (auto simp: Millisecond_def Second_def split: prod.splits)

section \<open>Running: properties\<close>

definition took_server :: "main_place \<Rightarrow> bool" where
  "took_server p \<longleftrightarrow> p = Orphaned \<or> (\<exists>c. p = Exited c)"

definition code_ok :: "game_life \<Rightarrow> int \<Rightarrow> bool" where
  "code_ok g c \<longleftrightarrow> (case g of NoGame \<Rightarrow> c = 0 \<or> c = 1 | Playing \<Rightarrow> False | Over w \<Rightarrow> c = game_code w)"

fun life_inv :: "life \<Rightarrow> bool" where
  "life_inv s \<longleftrightarrow>
     (if took_server (lf_main s) then lf_server s \<noteq> Serving \<and> lf_serverDone s = None
      else lf_serverDone s = (case lf_server s of Serving \<Rightarrow> None | Ended e \<Rightarrow> Some e)) \<and>
     (case lf_main s of
        Alone \<Rightarrow> lf_game s = NoGame
      | Readying \<Rightarrow> lf_game s = NoGame \<and> lf_gameDone s = None
      | Launching \<Rightarrow> lf_game s = NoGame \<and> lf_gameDone s = None
      | Shutting c \<Rightarrow> code_ok (lf_game s) c
      | Closing c \<Rightarrow> code_ok (lf_game s) c
      | Exited c \<Rightarrow> (c = 0 \<longrightarrow> lf_server s = Ended None) \<and>
          (code_ok (lf_game s) c \<or> c = 1 \<and> (lf_game s = Over None \<or> code_ok (lf_game s) 0))
      | _ \<Rightarrow> lf_game s \<noteq> NoGame \<and> lf_gameDone s = (case lf_game s of Over w \<Rightarrow> Some w | _ \<Rightarrow> None))"


lemma life_inv_step:
  assumes "life_step s t"
  shows "life_inv s \<Longrightarrow> life_inv t"
  using assms
proof (induction rule: life_step.induct)
  case (server_ends s e)
  then show ?case by (auto simp: took_server_def split: main_place.splits)
next
  case (game_ends s w)
  then show ?case by (auto simp: code_ok_def split: main_place.splits)
next
  case (orphan_stopped s w)
  then show ?case by (auto simp: took_server_def code_ok_def split: game_life.splits)
next
  case (closed s c e)
  then show ?case by (auto simp: took_server_def code_ok_def game_code_def split: game_life.splits server_life.splits option.splits)
qed (auto simp: took_server_def code_ok_def split: game_life.splits server_life.splits)

lemma life_inv_start: "life_inv (runServer cfg)"
  by (simp add: runServer_def took_server_def)

text \<open>What falls with every step: how far the main function is from its exit, and who still runs.\<close>

fun place_rank :: "main_place \<Rightarrow> nat" where
  "place_rank Readying = 6"
| "place_rank Launching = 5"
| "place_rank Beside = 4"
| "place_rank Stopping = 3"
| "place_rank Alone = 3"
| "place_rank Orphaned = 1"
| "place_rank (Shutting c) = 2"
| "place_rank (Closing c) = 1"
| "place_rank (Exited c) = 0"

definition life_rank :: "life \<Rightarrow> nat" where
  "life_rank s = place_rank (lf_main s) + (if lf_server s = Serving then 1 else 0) +
     (case lf_game s of NoGame \<Rightarrow> 2 | Playing \<Rightarrow> 1 | Over w \<Rightarrow> 0)"

lemma life_rank_step: "life_step s t \<Longrightarrow> life_inv s \<Longrightarrow> life_rank t < life_rank s"
  by (induction rule: life_step.induct) (auto simp: life_rank_def)

text \<open>What the main function waits for is in its channel or still to come.\<close>

lemma life_progress:
  assumes "life_inv s" and "\<nexists>c. lf_main s = Exited c"
  shows "\<exists>t. life_step s t"
proof (cases "lf_main s")
  case (Closing c)
  with assms show ?thesis
    by (cases "lf_server s") (auto simp: took_server_def intro: life_step.intros)
next
  case Stopping
  with assms show ?thesis by (cases "lf_game s") (auto intro: life_step.intros)
next
  case Orphaned
  with assms show ?thesis by (cases "lf_game s") (auto intro: life_step.intros)
qed (use assms(2) in \<open>blast intro: life_step.intros\<close>)+

interpretation life: ranked_machine "\<lambda>s. s = runServer cfg" life_step life_inv life_rank "\<lambda>s. \<exists>c. lf_main s = Exited c"
  for cfg
  by unfold_locales (use life_inv_start life_inv_step life_rank_step life_progress in blast)+

lemma life_reach_steps: "life_reach cfg s \<longleftrightarrow> life_step\<^sup>*\<^sup>* (runServer cfg) s"
proof
  show "life_step\<^sup>*\<^sup>* (runServer cfg) s" if "life_reach cfg s"
    using that by induction (auto intro: rtranclp.rtrancl_into_rtrancl)
  show "life_reach cfg s" if "life_step\<^sup>*\<^sup>* (runServer cfg) s"
    using that by induction (auto intro: life_reach.intros)
qed

lemma life_inv_reach: "life_reach cfg s \<Longrightarrow> life_inv s"
  unfolding life_reach_steps by (rule life.reachable_inv [OF refl])



lemma demo_exit:
  assumes "GameCommand cfg = []"
  shows "\<exists>s. life_reach cfg s \<and> lf_main s = Exited 0"
proof -
  let ?s = "(runServer cfg)\<lparr>lf_server := Ended None, lf_serverDone := Some None\<rparr>"
  have "life_step (runServer cfg) ?s" by (rule life_step.server_ends) (simp add: runServer_def)
  note one = life_reach.next_life [OF life_reach.begin_life this]
  have "life_step ?s (?s\<lparr>lf_serverDone := None, lf_main := Exited 0\<rparr>)"
    using life_step.alone_server [of ?s None] assms by (simp add: runServer_def)
  from life_reach.next_life [OF one this] show ?thesis by force
qed



end
