(* ===== verification/Process_Groups.thy ===== *)
theory Process_Groups
  imports Lifecycle
begin

text \<open>
  process_unix.go and process_windows.go: how the game is told to stop. The processes of the system are
  a list; a process ends at a SIGTERM unless it catches it, and always at a SIGKILL. What the
  processes do of themselves in the meantime is an argument. That the game ends after it
  was told to, a step of its own in the theory Lifecycle, is what is shown here.
\<close>

section \<open>Processes and signals\<close>

record proc =
  pr_pid :: int
  pr_group :: int
  pr_catches :: bool

datatype signal = SIGTERM | SIGKILL

definition ends_at :: "signal \<Rightarrow> proc \<Rightarrow> bool" where
  "ends_at sg q \<longleftrightarrow> sg = SIGKILL \<or> \<not> pr_catches q"

text \<open>\<open>syscall.Getpgid\<close>, \<open>syscall.Kill\<close> of a negative number, \<open>Process.Signal\<close>, and its signal 0.\<close>

definition Getpgid :: "proc list \<Rightarrow> int \<Rightarrow> int option" where
  "Getpgid w pid = map_option pr_group (find (\<lambda>q. pr_pid q = pid) w)"

definition kill_group :: "int \<Rightarrow> signal \<Rightarrow> proc list \<Rightarrow> proc list" where
  "kill_group g sg w = filter (\<lambda>q. \<not> (pr_group q = g \<and> ends_at sg q)) w"

definition signal_process :: "int \<Rightarrow> signal \<Rightarrow> proc list \<Rightarrow> proc list" where
  "signal_process pid sg w = filter (\<lambda>q. \<not> (pr_pid q = pid \<and> ends_at sg q)) w"

definition alive :: "proc list \<Rightarrow> int \<Rightarrow> bool" where
  "alive w pid \<longleftrightarrow> (\<exists>q\<in>set w. pr_pid q = pid)"

section \<open>Unix\<close>

text \<open>The group a command starts in: with \<open>Setpgid\<close> it is one of its own.\<close>

definition configureCommand :: "int \<Rightarrow> int \<Rightarrow> int" where
  "configureCommand pid inherited = pid"

definition start_command :: "(int \<Rightarrow> int \<Rightarrow> int) \<Rightarrow> int \<Rightarrow> int \<Rightarrow> bool \<Rightarrow> proc list \<Rightarrow> proc list" where
  "start_command configure inherited pid catches w =
     \<lparr>pr_pid = pid, pr_group = configure pid inherited, pr_catches = catches\<rparr> # w"

definition stopProcess :: "int option \<Rightarrow> (proc list \<Rightarrow> proc list) \<Rightarrow> proc list \<Rightarrow> proc list" where
  "stopProcess process three_seconds w =
     (case process of
        None \<Rightarrow> w
      | Some pid \<Rightarrow>
          (let w = (case Getpgid w pid of
                      Some pgid \<Rightarrow> kill_group pgid SIGTERM w
                    | None \<Rightarrow> signal_process pid SIGTERM w);
               w = three_seconds w
           in if alive w pid
              then (case Getpgid w pid of
                      Some pgid \<Rightarrow> kill_group pgid SIGKILL w
                    | None \<Rightarrow> signal_process pid SIGKILL w)
              else w))"

section \<open>Windows\<close>

definition configureCommand_windows :: "int \<Rightarrow> int \<Rightarrow> int" where
  "configureCommand_windows pid inherited = inherited"

text \<open>\<open>interrupt\<close> is what the interrupt does, if it can be sent at all.\<close>

definition stopProcess_windows :: "int option \<Rightarrow> (proc list \<Rightarrow> proc list) option \<Rightarrow> proc list \<Rightarrow> proc list" where
  "stopProcess_windows process interrupt w =
     (case process of
        None \<Rightarrow> w
      | Some pid \<Rightarrow> (case interrupt of Some f \<Rightarrow> f w | None \<Rightarrow> signal_process pid SIGKILL w))"

section \<open>The game ends\<close>

definition leads :: "int \<Rightarrow> proc list \<Rightarrow> bool" where
  "leads pid w \<longleftrightarrow> (\<forall>q\<in>set w. pr_pid q = pid \<longrightarrow> pr_group q = pid)"

lemma Getpgid_leader: "leads pid w \<Longrightarrow> Getpgid w pid = (if alive w pid then Some pid else None)"
proof (cases "find (\<lambda>q. pr_pid q = pid) w")
  case None
  then show ?thesis by (auto simp: Getpgid_def alive_def find_None_iff)
next
  case (Some q)
  then have "q \<in> set w \<and> pr_pid q = pid" by (auto simp: find_Some_iff)
  moreover assume "leads pid w"
  ultimately show ?thesis using Some by (auto simp: Getpgid_def leads_def alive_def)
qed

lemma signal_missing: "\<not> alive w pid \<Longrightarrow> signal_process pid sg w = w"
  by (auto simp: signal_process_def alive_def intro: filter_True)

lemma stopProcess_leader:
  assumes "leads pid w" and "w1 = three_seconds (if alive w pid then kill_group pid SIGTERM w else w)" and "leads pid w1"
  shows "stopProcess (Some pid) three_seconds w = (if alive w1 pid then kill_group pid SIGKILL w1 else w1)"
proof -
  have "(case Getpgid w pid of Some pgid \<Rightarrow> kill_group pgid SIGTERM w | None \<Rightarrow> signal_process pid SIGTERM w) =
      (if alive w pid then kill_group pid SIGTERM w else w)"
    by (simp add: Getpgid_leader [OF assms(1)] signal_missing)
  then show ?thesis
    using Getpgid_leader [OF assms(3)] by (simp add: stopProcess_def assms(2) [symmetric])
qed

text \<open>A command that is started on Unix leads its group; on Windows it is in the one of the server.\<close>

lemma started_leads:
  assumes "\<not> alive w pid"
  shows "leads pid (start_command configureCommand inherited pid catches w)"
    and "leads pid (start_command configureCommand_windows inherited pid catches w) \<longleftrightarrow> inherited = pid"
  using assms by (auto simp: leads_def alive_def start_command_def configureCommand_def configureCommand_windows_def)

text \<open>
  C29. stopProcess on Unix: the game, started as the leader of a group of its own, is gone when the
  call is over, whether it catches signals or not, whatever it and its children did in the three
  seconds; if it had to be killed, no process of its group is left; and no process outside of the
  group, such as the server, is touched.
\<close>

theorem game_stopped:
  assumes "alive w0 pid" and "leads pid w0"
    and "w1 = three_seconds (kill_group pid SIGTERM w0)" and "leads pid w1"
    and "after = stopProcess (Some pid) three_seconds w0"
  shows "\<not> alive after pid \<and>
    (\<forall>q\<in>set (kill_group pid SIGTERM w0). pr_group q = pid \<longrightarrow> pr_catches q) \<and>
    (alive w1 pid \<longrightarrow> (\<forall>q\<in>set after. pr_group q \<noteq> pid)) \<and>
    filter (\<lambda>q. pr_group q \<noteq> pid) (kill_group pid SIGTERM w0) = filter (\<lambda>q. pr_group q \<noteq> pid) w0 \<and>
    filter (\<lambda>q. pr_group q \<noteq> pid) after = filter (\<lambda>q. pr_group q \<noteq> pid) w1"
proof -
  have "after = (if alive w1 pid then kill_group pid SIGKILL w1 else w1)"
    using stopProcess_leader [of pid w0 w1 three_seconds] assms by simp
  with assms(4) show ?thesis
    by (auto simp: kill_group_def alive_def leads_def ends_at_def intro: filter_cong)
qed

theorem game_stopped_witness:
  "\<not> alive (stopProcess (Some 7) (\<lambda>w. w)
     (start_command configureCommand 1 7 True [\<lparr>pr_pid = 8, pr_group = 7, pr_catches = True\<rparr>])) 7"
  using game_stopped [of "start_command configureCommand 1 7 True [\<lparr>pr_pid = 8, pr_group = 7, pr_catches = True\<rparr>]" 7, OF _ _ refl _ refl, of "\<lambda>w. w"]
  by (simp add: alive_def leads_def start_command_def configureCommand_def kill_group_def ends_at_def)

text \<open>
  Two limits. On Unix a child of the game that catches SIGTERM stays when the game itself ends
  within the three seconds, as the second signal is then not sent. On Windows, where an interrupt cannot be sent,
  the game is killed, and none of its children.
\<close>

theorem child_survives:
  "stopProcess (Some 7) (\<lambda>w. w)
     (start_command configureCommand 1 7 False [\<lparr>pr_pid = 8, pr_group = 7, pr_catches = True\<rparr>]) =
   [\<lparr>pr_pid = 8, pr_group = 7, pr_catches = True\<rparr>]"
  by code_simp

theorem windows_kills_one:
  assumes "after = stopProcess_windows (Some pid) None w"
  shows "\<not> alive after pid \<and> (\<forall>q\<in>set w. pr_pid q \<noteq> pid \<longrightarrow> q \<in> set after)"
  using assms by (simp add: stopProcess_windows_def signal_process_def alive_def ends_at_def)

theorem windows_kills_one_witness:
  "\<lparr>pr_pid = 8, pr_group = 1, pr_catches = False\<rparr> \<in>
     set (stopProcess_windows (Some 7) None
       (start_command configureCommand_windows 1 7 False [\<lparr>pr_pid = 8, pr_group = 1, pr_catches = False\<rparr>]))"
  using windows_kills_one [OF refl, of 7 "start_command configureCommand_windows 1 7 False
    [\<lparr>pr_pid = 8, pr_group = 1, pr_catches = False\<rparr>]"] by (simp add: start_command_def)

end
