(* ===== verification/Handlers.thy ===== *)
theory Handlers
  imports Hls Job_Registry
begin

text \<open>
  handler.go: what a request for a video starts and what its answer points at. The state of
  the server is its cache directory and the registry of downloads; beside the registry stands
  what each job was started with. yt-dlp is an argument (the result of \<open>Extract\<close>), as are the
  clock and the nonce of a token. The \<open>/live\<close> handler is in the theory Job_Registry.
\<close>

section \<open>Requests\<close>

record http_request =
  rq_method :: string
  rq_scheme :: string
  rq_host :: string
  rq_path :: string
  rq_rawQuery :: string
  rq_header :: header

definition requestScheme :: "http_request \<Rightarrow> string" where
  "requestScheme r =
     (if rq_scheme r \<noteq> '''' then rq_scheme r
      else (let scheme = TrimSpace (header_get (rq_header r) ''X-Forwarded-Proto'')
            in if scheme \<noteq> '''' then scheme else ''http''))"

definition proxyBase :: "http_request \<Rightarrow> string" where
  "proxyBase r = url_string (empty_url\<lparr>u_scheme := requestScheme r, u_host := rq_host r\<rparr>)"

definition playableURL :: "http_request \<Rightarrow> string \<Rightarrow> string \<Rightarrow> string" where
  "playableURL r pre i =
     url_string (empty_url\<lparr>u_scheme := requestScheme r, u_host := rq_host r, u_path := pre @ i @ ''.mp4''\<rparr>)"

record videoRequest =
  vr_URL :: string
  vr_AVPro :: bool
  vr_Source :: string

definition parseVideoRequest :: "string \<Rightarrow> go_error + videoRequest" where
  "parseVideoRequest rawQuery =
     (let rawURL = TrimSpace (query_get rawQuery ''url'');
          source = TrimSpace (query_get rawQuery ''source'')
      in if rawURL = '''' then Inl (Msg ''missing url query parameter'')
         else case ParseRequestURI rawURL of
             None \<Rightarrow> Inl (Msg ''url must be an absolute http(s) URL'')
           | Some u \<Rightarrow>
               if u_scheme u \<noteq> ''http'' \<and> u_scheme u \<noteq> ''https''
               then Inl (Msg ''url must be an absolute http(s) URL'')
               else Inr \<lparr>vr_URL = rawURL, vr_AVPro = EqualFold (query_get rawQuery ''avpro'') ''true'',
                         vr_Source = (if source = '''' then ''vrchat'' else source)\<rparr>)"

section \<open>The server\<close>

text \<open>What a job downloads: a file as it is, or a manifest through ffmpeg.\<close>

datatype job_source = Direct string | Remux string bool "(string \<times> string) list"

record server =
  sv_cache :: cache
  sv_reg :: registry
  sv_source :: "nat \<Rightarrow> job_source option"

text \<open>\<open>getOrStart\<close> and \<open>getOrStartRemux\<close>: a job that is active already keeps its source.\<close>

definition start_with :: "string \<Rightarrow> bool \<Rightarrow> job_source \<Rightarrow> server \<Rightarrow> server" where
  "start_with i remux src sv =
     (case startJob i remux (sv_reg sv) of
        (r, j) \<Rightarrow>
          sv\<lparr>sv_reg := r,
             sv_source := (if getJob (sv_reg sv) i = None then (sv_source sv)(j \<mapsto> src) else sv_source sv)\<rparr>)"

definition getOrStart :: "string \<Rightarrow> string \<Rightarrow> server \<Rightarrow> server" where
  "getOrStart i streamURL = start_with i False (Direct streamURL)"

definition getOrStartRemux :: "string \<Rightarrow> string \<Rightarrow> bool \<Rightarrow> (string \<times> string) list \<Rightarrow> server \<Rightarrow> server" where
  "getOrStartRemux i streamURL transcode headers = start_with i True (Remux streamURL transcode headers)"

text \<open>The body of an answer is a text or a document, which the encoder prints as JSON.\<close>

datatype video_reply = Refused nat go_error | PlainText string | Document ytdlpMetadata

definition writeVideoResponse :: "string \<Rightarrow> ytdlpMetadata \<Rightarrow> video_reply" where
  "writeVideoResponse source m = (if source = ''resonite'' then Document m else PlainText (field_or_empty m ''url''))"

definition serveLiveManifestMiss :: "signer \<Rightarrow> http_request \<Rightarrow> videoRequest \<Rightarrow> Extraction \<Rightarrow> video_reply" where
  "serveLiveManifestMiss sg r vq ext =
     (let m = replaceStreamURLs (manifestURL sg (proxyBase r) (StreamURL ext) (headerMap (Headers ext))) (Metadata ext);
          m = put ''original_url'' (JStr (vr_URL vq)) m;
          m = put ''_cache'' (JStr ''live'') m
      in writeVideoResponse (vr_Source vq) m)"

definition serveRemuxMiss ::
  "http_request \<Rightarrow> string \<Rightarrow> videoRequest \<Rightarrow> Extraction \<Rightarrow> server \<Rightarrow> server \<times> video_reply" where
  "serveRemuxMiss r i vq ext sv =
     (let sv' = getOrStartRemux i (StreamURL ext) (Transcode ext) (headerMap (Headers ext)) sv;
          m = replaceStreamURLs (playableURL r ''/live/'' i) (Metadata ext);
          m = put ''ext'' (JStr ''mp4'') m;
          m = put ''original_url'' (JStr (vr_URL vq)) m;
          m = put ''_cache'' (JStr ''miss'') m
      in (sv', writeVideoResponse (vr_Source vq) m))"

definition serveProgressiveMiss ::
  "http_request \<Rightarrow> string \<Rightarrow> videoRequest \<Rightarrow> Extraction \<Rightarrow> server \<Rightarrow> server \<times> video_reply" where
  "serveProgressiveMiss r i vq ext sv =
     (let sv' = getOrStart i (StreamURL ext) sv;
          m = replaceStreamURLs (playableURL r ''/live/'' i) (Metadata ext);
          m = put ''original_url'' (JStr (vr_URL vq)) m;
          m = put ''_cache'' (JStr ''miss'') m
      in (sv', writeVideoResponse (vr_Source vq) m))"

definition cache_hit :: "int \<Rightarrow> http_request \<Rightarrow> string \<Rightarrow> videoRequest \<Rightarrow> server \<Rightarrow> server \<times> video_reply" where
  "cache_hit now r i vq sv =
     (sv\<lparr>sv_cache := fst (Touch now (sv_cache sv) i)\<rparr>,
      writeVideoResponse (vr_Source vq)
        [(''id'', JStr i), (''ext'', JStr ''mp4''), (''url'', JStr (playableURL r ''/video/'' i)),
         (''original_url'', JStr (vr_URL vq)), (''_cache'', JStr ''hit'')])"

text \<open>The last branch of the handler's switch has no endpoint left.\<close>

definition getVideoHandler ::
  "int \<Rightarrow> signer \<Rightarrow> (string \<Rightarrow> go_error + Extraction) \<Rightarrow> http_request \<Rightarrow> server \<Rightarrow> server \<times> video_reply" where
  "getVideoHandler now sg extract r sv =
     (if rq_method r \<noteq> ''GET'' then (sv, Refused 405 (Msg ''method not allowed''))
      else case parseVideoRequest (rq_rawQuery r) of
          Inl e \<Rightarrow> (sv, Refused 400 e)
        | Inr vq \<Rightarrow>
            (let i = cacheID (vr_URL vq)
             in if Has (sv_cache sv) i then cache_hit now r i vq sv
                else case extract (vr_URL vq) of
                    Inl e \<Rightarrow> (sv, Refused 500 e)
                  | Inr ext \<Rightarrow>
                      if StreamEndpoint ext = EndpointProgressive then serveProgressiveMiss r i vq ext sv
                      else if IsLive ext then (sv, serveLiveManifestMiss sg r vq ext)
                      else serveRemuxMiss r i vq ext sv))"

section \<open>Files and manifests\<close>

datatype file_reply = NotAllowed | NotFound | File path

definition method_ok :: "http_request \<Rightarrow> bool" where
  "method_ok r \<longleftrightarrow> rq_method r = ''GET'' \<or> rq_method r = ''HEAD''"

definition videoFileHandler :: "http_request \<Rightarrow> cache \<Rightarrow> file_reply" where
  "videoFileHandler r c =
     (if \<not> method_ok r then NotAllowed
      else case cacheIDFromPath (rq_path r) ''/video/'' of
          None \<Rightarrow> NotFound
        | Some i \<Rightarrow>
            (case cachePath c i of
               Inl _ \<Rightarrow> NotFound
             | Inr p \<Rightarrow> if \<not> Has c i then NotFound else File p))"

definition hlsManifestHandler :: "hls_env \<Rightarrow> http_request \<Rightarrow> Hls.reply" where
  "hlsManifestHandler env r =
     (if \<not> method_ok r then HttpError 405 ''method not allowed''
      else ServeManifest (env\<lparr>e_base := proxyBase r\<rparr>) (rq_rawQuery r))"


section \<open>The URLs that are handed out\<close>

lemma unescaped_name:
  assumes "validateID i" and "pre = ''/live/'' \<or> pre = ''/video/''"
  shows "url_escape InPath (pre @ i @ ''.mp4'') = pre @ i @ ''.mp4''" "pre @ i @ ''.mp4'' \<noteq> ''*''"
proof -
  have "\<not> should_escape InPath c" if "c \<in> set i" for c
    using assms(1) that
    by (auto simp: validateID_def list_all_iff is_hex_def Let_def should_escape_def is_alpha_def is_digit_def digit_val_def)
  moreover have "\<forall>c\<in>set ''/live/video.mp4''. \<not> should_escape InPath c" by code_simp
  ultimately show "url_escape InPath (pre @ i @ ''.mp4'') = pre @ i @ ''.mp4''"
    using assms(2) by (intro url_escape_id) auto
  show "pre @ i @ ''.mp4'' \<noteq> ''*''" using assms(2) by auto
qed

lemma requestScheme_some: "requestScheme r \<noteq> ''''"
  by (simp add: requestScheme_def Let_def)

text \<open>A playable URL is the base, the prefix of the handler and the name of the file.\<close>

lemma playableURL_eq:
  assumes "validateID i" and "pre = ''/live/'' \<or> pre = ''/video/''" and "rq_host r \<noteq> ''''"
  shows "playableURL r pre i = proxyBase r @ pre @ i @ ''.mp4''"
proof -
  have "hd (pre @ i @ ''.mp4'') = CHR ''/''" using assms(2) by auto
  with unescaped_name [OF assms(1,2)] show ?thesis
    using assms(3) requestScheme_some [of r]
    by (simp add: playableURL_def proxyBase_def url_string_def hier_part_def EscapedPath_def empty_url_def Let_def)
qed

lemma proxyBase_some: "proxyBase r \<noteq> ''''"
  using requestScheme_some by (simp add: proxyBase_def url_string_def)

lemma playableURL_some: "playableURL r pre i \<noteq> ''''"
  using requestScheme_some by (simp add: playableURL_def url_string_def)

lemma cacheID_valid: "validateID (cacheID u)"
  using hex_chars length_hex length_Sum256 by (simp add: validateID_def cacheID_def)

text \<open>What an answer makes a player open: every URL it names for the video.\<close>

fun reply_urls :: "video_reply \<Rightarrow> string option set" where
  "reply_urls (Refused n e) = {}"
| "reply_urls (PlainText t) = {Some t}"
| "reply_urls (Document m) = set (published_urls m)"

lemma published_put:
  "k \<noteq> ''url'' \<Longrightarrow> k \<noteq> ''requested_downloads'' \<Longrightarrow> published_urls (put k v m) = published_urls m"
  by (simp add: published_urls_def stringField_def get_put)

lemma reply_urls_write:
  assumes "set (published_urls m) = {Some p}"
  shows "reply_urls (writeVideoResponse source m) = {Some p}"
proof -
  have "stringField m ''url'' \<in> {Some p}" using assms by (auto simp: published_urls_def)
  with assms show ?thesis by (simp add: writeVideoResponse_def field_or_empty_def)
qed

lemma startJob_active: "\<exists>j. getJob (fst (startJob i remux r)) i = Some j"
  by (auto simp: startJob_def getJob_def split: option.split)

lemma start_with_source:
  "\<exists>j. getJob (sv_reg (start_with i remux src sv)) i = Some j \<and>
     (getJob (sv_reg sv) i = None \<longrightarrow> sv_source (start_with i remux src sv) j = Some src) \<and>
     (getJob (sv_reg sv) i \<noteq> None \<longrightarrow> sv_reg (start_with i remux src sv) = sv_reg sv)"
  by (cases "rg_jobs (sv_reg sv) i") (auto simp: start_with_def startJob_def getJob_def)

lemma getVideoHandler_eq:
  assumes "rq_method r = ''GET''" and "parseVideoRequest (rq_rawQuery r) = Inr vq" and "i = cacheID (vr_URL vq)"
  shows "getVideoHandler now sg extract r sv =
      (if Has (sv_cache sv) i then cache_hit now r i vq sv
       else case extract (vr_URL vq) of
           Inl e \<Rightarrow> (sv, Refused 500 e)
         | Inr ext \<Rightarrow>
             if StreamEndpoint ext = EndpointProgressive then serveProgressiveMiss r i vq ext sv
             else if IsLive ext then (sv, serveLiveManifestMiss sg r vq ext)
             else serveRemuxMiss r i vq ext sv)"
  unfolding assms(3) using assms(1,2) by (simp add: getVideoHandler_def Let_def)

lemma published_hit:
  "p \<noteq> '''' \<Longrightarrow> set (published_urls [(''id'', JStr i), (''ext'', JStr ''mp4''), (''url'', JStr p),
      (''original_url'', JStr u), (''_cache'', JStr ''hit'')]) = {Some p}"
  by (simp add: published_urls_def stringField_def get_def text_of_def array_of_def)

lemma reply_urls_replaced:
  assumes "p \<noteq> ''''"
  shows "reply_urls (writeVideoResponse source
      (put ''_cache'' c (put ''original_url'' o' (replaceStreamURLs p m)))) = {Some p}"
    and "reply_urls (writeVideoResponse source
      (put ''_cache'' c (put ''original_url'' o' (put ''ext'' x (replaceStreamURLs p m))))) = {Some p}"
  using published_replaced [OF assms, of m] by (simp_all add: reply_urls_write published_put)

lemma manifestURL_some: "manifestURL sg (proxyBase r) u h \<noteq> ''''"
  using proxyBase_some by (simp add: manifestURL_def)

text \<open>Only the player Resonite is answered with a document.\<close>

lemma plain_reply:
  assumes "getVideoHandler now sg extract r sv = (sv', rep)" and "parseVideoRequest (rq_rawQuery r) = Inr vq"
    and "vr_Source vq \<noteq> ''resonite''" and "reply_urls rep = {Some u}"
  shows "rep = PlainText u"
proof -
  have written: "rep = PlainText u" if "\<exists>m. writeVideoResponse (vr_Source vq) m = rep"
  proof -
    from that obtain m where "rep = writeVideoResponse (vr_Source vq) m" by blast
    then have "rep = PlainText (field_or_empty m ''url'')" using assms(3) by (simp only: writeVideoResponse_def if_False)
    with assms(4) show ?thesis by simp
  qed
  have refused: False if "rep = Refused n e" for n e using that assms(4) by simp
  show ?thesis
  proof (cases "rq_method r = ''GET''")
    case False
    with assms(1) have "rep = Refused 405 (Msg ''method not allowed'')" by (simp add: getVideoHandler_def)
    then show ?thesis using refused by blast
  next
    case True
    note eq = getVideoHandler_eq [OF True assms(2) refl, of now sg "extract" sv]
    show ?thesis
    proof (cases "Has (sv_cache sv) (cacheID (vr_URL vq))")
      case True
      with assms(1) eq show ?thesis by (intro written) (auto simp: cache_hit_def)
    next
      case miss: False
      show ?thesis
      proof (cases "extract (vr_URL vq)")
        case (Inl e)
        with assms(1) eq miss have "rep = Refused 500 e" by simp
        then show ?thesis using refused by blast
      next
        case (Inr ext)
        with assms(1) eq miss show ?thesis
          by (cases "StreamEndpoint ext = EndpointProgressive"; cases "IsLive ext";
              intro written; auto simp: serveProgressiveMiss_def serveRemuxMiss_def serveLiveManifestMiss_def Let_def)
      qed
    qed
  qed
qed

text \<open>What the job of a miss downloads; a live stream has none.\<close>

definition miss_source :: "Extraction \<Rightarrow> job_source option" where
  "miss_source ext =
     (if StreamEndpoint ext = EndpointProgressive then Some (Direct (StreamURL ext))
      else if IsLive ext then None
      else Some (Remux (StreamURL ext) (Transcode ext) (headerMap (Headers ext))))"

lemma getvideo_spec:
  assumes "rq_method r = ''GET''" and "parseVideoRequest (rq_rawQuery r) = Inr vq" and "rq_host r \<noteq> ''''"
    and "i = cacheID (vr_URL vq)" and "getVideoHandler now sg extract r sv = (sv', rep)"
  shows "if Has (sv_cache sv) i then
      reply_urls rep = {Some (proxyBase r @ ''/video/'' @ i @ ''.mp4'')} \<and> sv_reg sv' = sv_reg sv
    else case extract (vr_URL vq) of
      Inl e \<Rightarrow> rep = Refused 500 e \<and> sv' = sv
    | Inr ext \<Rightarrow>
        (case miss_source ext of
           None \<Rightarrow> sv' = sv \<and>
             reply_urls rep = {Some (manifestURL sg (proxyBase r) (StreamURL ext) (headerMap (Headers ext)))}
         | Some src \<Rightarrow>
             reply_urls rep = {Some (proxyBase r @ ''/live/'' @ i @ ''.mp4'')} \<and>
             (\<exists>j. getJob (sv_reg sv') i = Some j \<and>
                (getJob (sv_reg sv) i = None \<longrightarrow> sv_source sv' j = Some src) \<and>
                (getJob (sv_reg sv) i \<noteq> None \<longrightarrow> sv_reg sv' = sv_reg sv)))"
proof -
  note live = playableURL_eq [OF cacheID_valid [of "vr_URL vq"], of "''/live/''" r]
  note video = playableURL_eq [OF cacheID_valid [of "vr_URL vq"], of "''/video/''" r]
  note handler = getVideoHandler_eq [OF assms(1,2,4), of now sg "extract" sv]
  show ?thesis
  proof (cases "Has (sv_cache sv) i")
    case True
    with handler assms(5)
    have "sv_reg sv' = sv_reg sv" "reply_urls rep = {Some (playableURL r ''/video/'' i)}"
      using reply_urls_write [OF published_hit [OF playableURL_some]] by (auto simp: cache_hit_def)
    with True assms(3,4) video show ?thesis by simp
  next
    case miss: False
    show ?thesis
    proof (cases "extract (vr_URL vq)")
      case (Inl e)
      with miss handler assms(5) show ?thesis by simp
    next
      case (Inr ext)
      consider (direct) "StreamEndpoint ext = EndpointProgressive"
        | (manifest) "StreamEndpoint ext \<noteq> EndpointProgressive" "IsLive ext"
        | (remux) "StreamEndpoint ext \<noteq> EndpointProgressive" "\<not> IsLive ext" by blast
      then show ?thesis
      proof cases
        case direct
        with miss Inr handler assms(5)
        have "sv' = start_with i False (Direct (StreamURL ext)) sv"
          "reply_urls rep = {Some (playableURL r ''/live/'' i)}"
          using reply_urls_replaced(1) [OF playableURL_some] by (auto simp: serveProgressiveMiss_def getOrStart_def)
        with miss Inr direct assms(3,4) live show ?thesis
          using start_with_source [of i False "Direct (StreamURL ext)" sv] by (simp add: miss_source_def)
      next
        case manifest
        with miss Inr handler assms(5) show ?thesis
          using reply_urls_replaced(1) [OF manifestURL_some]
          by (auto simp: serveLiveManifestMiss_def miss_source_def)
      next
        case remux
        with miss Inr handler assms(5)
        have "sv' = start_with i True (Remux (StreamURL ext) (Transcode ext) (headerMap (Headers ext))) sv"
          "reply_urls rep = {Some (playableURL r ''/live/'' i)}"
          using reply_urls_replaced(2) [OF playableURL_some] by (auto simp: serveRemuxMiss_def getOrStartRemux_def)
        with miss Inr remux assms(3,4) live show ?thesis
          using start_with_source [of i True "Remux (StreamURL ext) (Transcode ext) (headerMap (Headers ext))" sv]
          by (simp add: miss_source_def)
      qed
    qed
  qed
qed



end
