(* ===== verification/Server_Wiring.thy ===== *)
theory Server_Wiring
  imports Handlers Sequential_Runs
begin

text \<open>
  How handler.go puts the server together: \<open>NewServer\<close> builds the parts from the configuration,
  \<open>Handler\<close> registers the handlers with the \<open>http.ServeMux\<close>, and \<open>logRequests\<close> wraps them all in
  a writer that counts for the access log. The mux is modelled for the six patterns of the
  program, none of which names a method or a host; the location of a redirect is left out.
\<close>

section \<open>The parts of the server\<close>

record server_parts =
  pt_cache :: cache
  pt_key :: "byte list"
  pt_segments :: int
  pt_ttl :: int
  pt_ffmpeg :: ffmpegRunner
  pt_ytdlp :: ytdlpRunner

definition transcode_options :: "Config \<Rightarrow> transcodeOptions" where
  "transcode_options cfg =
     \<lparr>o_backend = FfmpegBackend cfg, o_hwDevice = FfmpegHWDevice cfg, o_preset = TranscodePreset cfg,
      o_crf = TranscodeCRF cfg, o_videoBitrate = TranscodeVideoBitrate cfg, o_maxrate = TranscodeMaxrate cfg,
      o_bufsize = TranscodeBufsize cfg, o_audioBitrate = TranscodeAudioBitrate cfg\<rparr>"

text \<open>
  The arguments after the configuration: what creating the cache directories and reading them
  gives, and the random key.
\<close>

definition NewServer ::
  "Config \<Rightarrow> go_error option \<Rightarrow> directory \<Rightarrow> directory \<Rightarrow> bool \<Rightarrow> (string \<Rightarrow> bool) \<Rightarrow> go_error + byte list \<Rightarrow>
   go_error + server_parts" where
  "NewServer cfg mkdir_err main0 tmp0 readdir_ok removable random =
     (case NewCache (CacheDir cfg) (CacheMaxSize cfg) mkdir_err main0 tmp0 readdir_ok removable of
        Inl e \<Rightarrow> Inl e
      | Inr c \<Rightarrow>
          (case NewURLSigner (Secret cfg) random of
             Inl e \<Rightarrow> Inl e
           | Inr key \<Rightarrow>
               Inr \<lparr>pt_cache = c, pt_key = key, pt_segments = SegmentCacheSize cfg, pt_ttl = SegmentCacheTTL cfg,
                    pt_ffmpeg = newFfmpegRunner (FfmpegPath cfg) (transcode_options cfg),
                    pt_ytdlp = newYtdlpRunner cfg\<rparr>))"

section \<open>The routes\<close>

text \<open>\<open>path.Clean\<close> of a rooted path, and the \<open>cleanPath\<close> of the mux, which keeps a final slash.\<close>

fun clean_loop :: "string list \<Rightarrow> string list \<Rightarrow> string list" where
  "clean_loop out [] = out"
| "clean_loop out (e # es) =
     (if e = '''' \<or> e = ''.'' then clean_loop out es
      else if e = ''..'' then clean_loop (butlast out) es
      else clean_loop (out @ [e]) es)"

definition rooted :: "string list \<Rightarrow> string" where
  "rooted es = (if es = [] then ''/'' else concat (map (\<lambda>e. ''/'' @ e) es))"

definition cleanPath :: "string \<Rightarrow> string" where
  "cleanPath p =
     (if p = '''' then ''/''
      else (let p = (if hd p \<noteq> CHR ''/'' then ''/'' @ p else p);
                np = rooted (clean_loop [] (split_on (CHR ''/'') p))
            in if last p = CHR ''/'' \<and> np \<noteq> ''/'' then np @ ''/'' else np))"

datatype handler = health | getVideo | videoFile | live | hlsManifest | hlsSegment

text \<open>The patterns by their segments; one that ends in a slash takes any rest.\<close>

definition segments_of :: "string \<Rightarrow> string list" where
  "segments_of p =
     map (\<lambda>s. case url_unescape InPath s of Some t \<Rightarrow> t | None \<Rightarrow> s) (split_on (CHR ''/'') (tl p))"

definition match_route :: "string list \<Rightarrow> handler option" where
  "match_route segs =
     (if segs = [''health''] then Some health
      else if segs = [''api'', ''getvideo''] then Some getVideo
      else if segs = [''hls'', ''manifest''] then Some hlsManifest
      else if segs = [''hls'', ''segment''] then Some hlsSegment
      else case segs of
          d # rest # ds \<Rightarrow> (if d = ''video'' then Some videoFile else if d = ''live'' then Some live else None)
        | _ \<Rightarrow> None)"

datatype mux_answer = To handler | Redirected | NoRoute

definition route :: "string \<Rightarrow> mux_answer" where
  "route escapedPath =
     (let p = cleanPath escapedPath
      in case match_route (segments_of p) of
           Some h \<Rightarrow> if p \<noteq> escapedPath then Redirected else To h
         | None \<Rightarrow>
             if segments_of p = [''video''] \<or> segments_of p = [''live''] \<or> p \<noteq> escapedPath then Redirected
             else NoRoute)"

section \<open>The smaller handlers\<close>

text \<open>\<open>hlsSegmentHandler\<close> up to the payload of the request, from where \<open>ServeSegment\<close> goes on.\<close>

definition hlsSegmentHandler ::
  "byte list \<Rightarrow> int \<Rightarrow> (string \<Rightarrow> go_error + addr list) \<Rightarrow> http_request \<Rightarrow> Hls.reply + proxyPayload" where
  "hlsSegmentHandler key now resolve r =
     (if \<not> method_ok r then Inl (HttpError 405 ''method not allowed'')
      else payloadFromRequest key now resolve (rq_rawQuery r))"

definition healthHandler :: "http_request \<Rightarrow> Hls.reply" where
  "healthHandler r = Content ''text/plain; charset=utf-8'' (''ok'' @ [CHR 0x0A])"

section \<open>The access log\<close>

text \<open>
  The writer of net/http under the counting one: the status it has sent, if any, and the bytes
  of the body it has taken. An informational status is not the status of the reply, and one
  after the header is dropped.
\<close>

record wire =
  wi_status :: "int option"
  wi_bytes :: int

record loggingResponseWriter =
  lw_wire :: wire
  lw_status :: int
  lw_bytes :: int

definition wire_header :: "int \<Rightarrow> wire \<Rightarrow> wire" where
  "wire_header code w =
     (if wi_status w \<noteq> None \<or> 100 \<le> code \<and> code \<le> 199 \<and> code \<noteq> 101 then w else w\<lparr>wi_status := Some code\<rparr>)"

definition wire_write :: "nat \<Rightarrow> wire \<Rightarrow> wire" where
  "wire_write n w =
     w\<lparr>wi_status := Some (case wi_status w of Some s \<Rightarrow> s | None \<Rightarrow> 200), wi_bytes := wi_bytes w + int n\<rparr>"

definition lw_WriteHeader :: "int \<Rightarrow> loggingResponseWriter \<Rightarrow> loggingResponseWriter" where
  "lw_WriteHeader code w = w\<lparr>lw_status := code, lw_wire := wire_header code (lw_wire w)\<rparr>"

text \<open>\<open>n\<close>: how many bytes the writer below has taken.\<close>

definition lw_Write :: "nat \<Rightarrow> loggingResponseWriter \<Rightarrow> loggingResponseWriter" where
  "lw_Write n w =
     (let w = (if lw_status w = 0 then w\<lparr>lw_status := 200\<rparr> else w)
      in w\<lparr>lw_wire := wire_write n (lw_wire w), lw_bytes := add64 (lw_bytes w) (int n)\<rparr>)"

datatype reply_op = Header_op int | Body_op nat

fun lw_run :: "reply_op list \<Rightarrow> loggingResponseWriter \<Rightarrow> loggingResponseWriter" where
  "lw_run [] w = w"
| "lw_run (Header_op c # ops) w = lw_run ops (lw_WriteHeader c w)"
| "lw_run (Body_op n # ops) w = lw_run ops (lw_Write n w)"

text \<open>\<open>logRequests\<close>: the status and the bytes of the log line, and what the client gets.\<close>

definition logRequests :: "reply_op list \<Rightarrow> (int \<times> int) \<times> (int \<times> int)" where
  "logRequests ops =
     (let w = lw_run ops \<lparr>lw_wire = \<lparr>wi_status = None, wi_bytes = 0\<rparr>, lw_status = 0, lw_bytes = 0\<rparr>
      in ((lw_status w, lw_bytes w),
          (case wi_status (lw_wire w) of Some s \<Rightarrow> s | None \<Rightarrow> 200, wi_bytes (lw_wire w))))"

section \<open>Properties\<close>

text \<open>
  A valid configuration gives a server that does what it says: \<open>NewServer\<close> fails only when the
  cache directory or the random key cannot be made, and otherwise has a cache with the
  configured positive budget, a key of 32 bytes, and one ffmpeg runner whose remux and transcode
  commands both start with the configured binary and whose backend is the configured one.
\<close>

theorem server_from_config:
  assumes "LoadConfig oob dir env args = Gives c" and "\<forall>rnd. random = Inr rnd \<longrightarrow> length rnd = 32"
    and "r = NewServer c mkdir_err main0 tmp0 readdir_ok removable random"
  shows "((\<exists>e. r = Inl e) \<longleftrightarrow> mkdir_err \<noteq> None \<or> Secret c = '''' \<and> (\<exists>e. random = Inl e)) \<and>
    (\<forall>p. r = Inr p \<longrightarrow>
       0 < c_maxSize (pt_cache p) \<and> c_maxSize (pt_cache p) = CacheMaxSize c \<and> c_dir (pt_cache p) = CacheDir c \<and>
       length (pt_key p) = 32 \<and> 0 \<le> pt_segments p \<and> 0 \<le> pt_ttl p \<and>
       h264Backends (FfmpegBackend c) = Some (backend (pt_ffmpeg p)) \<and>
       (\<forall>transcode url hs cmd e. runRemux (pt_ffmpeg p) transcode url hs None None e w x y ps = (Some cmd, z) \<longrightarrow>
          hd cmd = (if FfmpegPath c = '''' then ''ffmpeg'' else FfmpegPath c)))"
proof -
  obtain c0 where "validate c0 = Gives c" using LoadConfig_validated [OF assms(1)] by blast
  note valid = validate_Gives [OF this]
  then have be: "h264Backends (FfmpegBackend c) = Some (backend (newFfmpegRunner (FfmpegPath c) (transcode_options c)))"
    by (intro backend_configured) (auto simp: transcode_options_def)
  show ?thesis
    using valid be assms(2) length_Sum256 unfolding assms(3)
    by (auto simp: NewServer_def NewCache_def NewURLSigner_def runRemux_def openTranscode_def ffmpeg_start_def
        newFfmpegRunner_def split: option.splits sum.splits if_splits)
qed

theorem server_from_config_witness:
  "\<exists>c p. LoadConfig (\<lambda>_. 0) ''/c'' (\<lambda>_. '''') [] = Gives c \<and>
     NewServer c None [] [] True (\<lambda>_. True) (Inr (replicate 32 7)) = Inr p \<and> length (pt_key p) = 32 \<and>
     0 < c_maxSize (pt_cache p)"
proof -
  obtain c where c: "LoadConfig (\<lambda>_. 0) ''/c'' (\<lambda>_. '''') [] = Gives c"
    using default_loads by blast
  note s = server_from_config [OF c _ refl, of "Inr (replicate 32 7)" None "[]" "[]" True "\<lambda>_. True"]
  then obtain p where p: "NewServer c None [] [] True (\<lambda>_. True) (Inr (replicate 32 7)) = Inr p"
    by (cases "NewServer c None [] [] True (\<lambda>_. True) (Inr (replicate 32 7))") auto
  have "\<forall>rnd. Inr (replicate 32 7) = Inr rnd \<longrightarrow> length rnd = 32" by simp
  from s [OF this, THEN conjunct2, rule_format, OF p] c p show ?thesis by blast
qed

text \<open>The paths of two plain segments are clean, and are what the mux matches.\<close>

definition plain_segment :: "string \<Rightarrow> bool" where
  "plain_segment s \<longleftrightarrow>
     s \<noteq> '''' \<and> s \<noteq> ''.'' \<and> s \<noteq> ''..'' \<and> CHR ''/'' \<notin> set s \<and> CHR ''%'' \<notin> set s"

lemma url_unescape_plain: "CHR ''%'' \<notin> set s \<Longrightarrow> url_unescape InPath s = Some s"
  by (induction s) auto

lemma route_two:
  assumes "plain_segment a" and "plain_segment b"
  shows "route (''/'' @ a @ ''/'' @ b) =
    (case match_route [a, b] of Some h \<Rightarrow> To h | None \<Rightarrow> NoRoute)"
proof -
  let ?p = "''/'' @ a @ ''/'' @ b"
  have no: "CHR ''/'' \<notin> set a" "CHR ''/'' \<notin> set b" using assms by (simp_all add: plain_segment_def)
  have parts: "split_on (CHR ''/'') (a @ CHR ''/'' # b) = [a, b]"
    using no by (simp add: split_on_append split_on_single)
  have "b \<noteq> []" using assms(2) by (simp add: plain_segment_def)
  then have last: "last ?p \<noteq> CHR ''/''" using no(2) last_in_set [of b] by (metis last_appendR append_is_Nil_conv)
  have "clean_loop [] (split_on (CHR ''/'') ?p) = [a, b]"
    using assms parts by (simp add: plain_segment_def)
  then have clean: "cleanPath ?p = ?p"
    using last by (simp add: cleanPath_def rooted_def Let_def)
  have segs: "segments_of ?p = [a, b]"
    using assms parts by (simp add: segments_of_def url_unescape_plain plain_segment_def)
  show ?thesis unfolding route_def clean segs Let_def by (simp split: option.split)
qed

lemma name_plain: "validateID i \<Longrightarrow> plain_segment (i @ ''.mp4'')"
  using valid_no_separator [of i] by (auto simp: plain_segment_def validateID_def list_all_iff is_hex_def Let_def)

lemma route_name:
  assumes "validateID i"
  shows "route (''/live/'' @ i @ ''.mp4'') = To live" and "route (''/video/'' @ i @ ''.mp4'') = To videoFile"
proof -
  have "plain_segment ''live''" "plain_segment ''video''" by (simp_all add: plain_segment_def)
  note this [THEN route_two, OF name_plain [OF assms]]
  then show "route (''/live/'' @ i @ ''.mp4'') = To live" and "route (''/video/'' @ i @ ''.mp4'') = To videoFile"
    by (simp_all add: match_route_def)
qed

text \<open>
  Every address the server hands out comes back to the right handler: the path of the URL it
  names for a cached file or a running download, escaped as the player sends it, is routed
  to the handler of cached files or of live downloads, which reads the same id from it, and
  the paths of proxied manifests and segments go to theirs, none through a redirect.
\<close>

theorem urls_reach_handlers:
  assumes "validateID i" and "rq_host r \<noteq> ''''"
  shows "(\<exists>path. playableURL r ''/video/'' i = proxyBase r @ url_escape InPath path \<and>
           route (url_escape InPath path) = To videoFile \<and> cacheIDFromPath path ''/video/'' = Some i) \<and>
    (\<exists>path. playableURL r ''/live/'' i = proxyBase r @ url_escape InPath path \<and>
           route (url_escape InPath path) = To live \<and> cacheIDFromPath path ''/live/'' = Some i) \<and>
    (\<exists>q. manifestURL sg (proxyBase r) u hs = proxyBase r @ ''/hls/manifest'' @ ''?'' @ q) \<and>
    (\<exists>q. segmentURL sg (proxyBase r) u hs = proxyBase r @ ''/hls/segment'' @ ''?'' @ q) \<and>
    route ''/hls/manifest'' = To hlsManifest \<and> route ''/hls/segment'' = To hlsSegment"
proof (intro conjI)
  have one: "playableURL r pre i = proxyBase r @ url_escape InPath (pre @ i @ ''.mp4'') \<and>
      route (url_escape InPath (pre @ i @ ''.mp4'')) = To h \<and> cacheIDFromPath (pre @ i @ ''.mp4'') pre = Some i"
    if "pre = ''/live/'' \<and> h = live \<or> pre = ''/video/'' \<and> h = videoFile" for pre h
  proof -
    have pre: "pre = ''/live/'' \<or> pre = ''/video/''" using that by auto
    have "route (pre @ i @ ''.mp4'') = To h" using that route_name [OF assms(1)] by auto
    then show ?thesis
      using playableURL_eq [OF assms(1) pre assms(2)] unescaped_name(1) [OF assms(1) pre] assms(1)
      by (simp add: cacheIDFromPath_def)
  qed
  show "\<exists>path. playableURL r ''/video/'' i = proxyBase r @ url_escape InPath path \<and>
      route (url_escape InPath path) = To videoFile \<and> cacheIDFromPath path ''/video/'' = Some i"
    using one [of "''/video/''" videoFile] by blast
  show "\<exists>path. playableURL r ''/live/'' i = proxyBase r @ url_escape InPath path \<and>
      route (url_escape InPath path) = To live \<and> cacheIDFromPath path ''/live/'' = Some i"
    using one [of "''/live/''" live] by blast
  show "route ''/hls/manifest'' = To hlsManifest" "route ''/hls/segment'' = To hlsSegment" by code_simp+
qed (simp_all add: manifestURL_def segmentURL_def)

theorem urls_reach_handlers_witness:
  "\<exists>path. playableURL \<lparr>rq_method = ''GET'', rq_scheme = '''', rq_host = ''h'', rq_path = '''', rq_rawQuery = '''',
      rq_header = []\<rparr> ''/live/'' demo_id = ''http://h'' @ url_escape InPath path \<and>
     route (url_escape InPath path) = To live"
proof -
  let ?r = "\<lparr>rq_method = ''GET'', rq_scheme = '''', rq_host = ''h'', rq_path = '''', rq_rawQuery = '''', rq_header = []\<rparr>"
  have v: "validateID demo_id" and base: "proxyBase ?r = ''http://h''" by code_simp+
  have "rq_host ?r \<noteq> ''''" by simp
  from urls_reach_handlers [OF v this, THEN conjunct2, THEN conjunct1] show ?thesis unfolding base by blast
qed

text \<open>
  The access log: for a handler that sends its final status before the body, as all handlers
  here do, the logged bytes are the bytes the client was sent, and the logged status is the
  client's, except that a reply without a status and without a body is logged as 0, not 200.
\<close>

lemma body_run:
  assumes "wi_status (lw_wire w) = Some s" and "lw_status w = s" and "s \<noteq> 0"
    and "0 \<le> lw_bytes w" and "lw_bytes w + int (sum_list ns) \<le> max_i64"
  shows "lw_run (map Body_op ns) w =
    w\<lparr>lw_wire := (lw_wire w)\<lparr>wi_bytes := wi_bytes (lw_wire w) + int (sum_list ns)\<rparr>, lw_bytes := lw_bytes w + int (sum_list ns)\<rparr>"
  using assms
proof (induction ns arbitrary: w)
  case (Cons n ns)
  have "add64 (lw_bytes w) (int n) = lw_bytes w + int n" using Cons.prems by (intro add64_nonneg) auto
  with Cons.prems Cons.IH [of "lw_Write n w"] show ?case
    by (simp add: lw_Write_def wire_write_def add.assoc)
qed simp

theorem access_log_truthful:
  assumes "int (sum_list ns) \<le> max_i64" and "200 \<le> code"
  shows "logRequests (Header_op code # map Body_op ns) = ((code, int (sum_list ns)), (code, int (sum_list ns))) \<and>
    (ns \<noteq> [] \<longrightarrow> logRequests (map Body_op ns) = ((200, int (sum_list ns)), (200, int (sum_list ns)))) \<and>
    logRequests [] = ((0, 0), (200, 0))"
proof (intro conjI impI)
  let ?w0 = "\<lparr>lw_wire = \<lparr>wi_status = None, wi_bytes = 0\<rparr>, lw_status = 0, lw_bytes = 0\<rparr>"
  show "logRequests (Header_op code # map Body_op ns) = ((code, int (sum_list ns)), (code, int (sum_list ns)))"
    using body_run [of "lw_WriteHeader code ?w0" code ns] assms
    by (simp add: logRequests_def lw_WriteHeader_def wire_header_def)
  show "logRequests (map Body_op ns) = ((200, int (sum_list ns)), (200, int (sum_list ns)))" if some: "ns \<noteq> []"
  proof -
    obtain n ms where ns: "ns = n # ms" using some by (cases ns) auto
    have "add64 0 (int n) = 0 + int n" using assms(1) ns by (intro add64_nonneg) auto
    then show ?thesis
      using body_run [of "lw_Write n ?w0" 200 ms] assms(1) ns
      by (simp add: logRequests_def lw_Write_def wire_write_def)
  qed
  show "logRequests [] = ((0, 0), (200, 0))" by (simp add: logRequests_def)
qed

theorem access_log_truthful_witness:
  "logRequests [Header_op 206, Body_op 3, Body_op 4] = ((206, 7), (206, 7))"
  using access_log_truthful [of "[3, 4]" 206] by (simp add: max_i64_def)

end
