(* ===== verification/Upstream_Client.thy ===== *)
theory Upstream_Client
  imports Lifecycle Server_Wiring
begin

text \<open>
  httpclient.go and the proxy of the configuration: the HTTP client that all fetches share, and the
  three ways by which the server reaches the network (this client, yt-dlp by a flag,
  ffmpeg and ffprobe by their environment). The library's default transport is an argument.
\<close>

section \<open>The client\<close>

text \<open>A transport asks \<open>tr_Proxy\<close> for the proxy of a request; none means a direct connection.\<close>

record transport =
  tr_MaxIdleConns :: int
  tr_MaxIdleConnsPerHost :: int
  tr_IdleConnTimeout :: int
  tr_ResponseHeaderTimeout :: int
  tr_Proxy :: "url \<Rightarrow> url option"

record http_client =
  cl_Timeout :: int
  cl_Transport :: transport

definition newUpstreamHTTPClient :: "transport \<Rightarrow> url option \<Rightarrow> http_client" where
  "newUpstreamHTTPClient defaultTransport proxyURL =
     (let t = defaultTransport\<lparr>tr_MaxIdleConns := 100, tr_MaxIdleConnsPerHost := 16,
                tr_IdleConnTimeout := 90 * Second, tr_ResponseHeaderTimeout := 30 * Second\<rparr>
      in \<lparr>cl_Timeout = 0,
          cl_Transport = (case proxyURL of None \<Rightarrow> t | Some u \<Rightarrow> t\<lparr>tr_Proxy := \<lambda>_. Some u\<rparr>)\<rparr>)"

text \<open>
  \<open>sharedHTTPClient\<close>: at the start of the program, and after \<open>configureProxy\<close>, which runs before
  \<open>NewServer\<close>, where the manifest proxy keeps the client it finds.
\<close>

definition sharedHTTPClient :: "transport \<Rightarrow> http_client" where
  "sharedHTTPClient defaultTransport = newUpstreamHTTPClient defaultTransport None"

definition configured_client :: "transport \<Rightarrow> Config \<Rightarrow> (string \<Rightarrow> string) \<Rightarrow> http_client" where
  "configured_client defaultTransport cfg env =
     (case snd (configureProxy cfg env) of
        None \<Rightarrow> sharedHTTPClient defaultTransport
      | Some u \<Rightarrow> newUpstreamHTTPClient defaultTransport (Some u))"

section \<open>One proxy for all\<close>

lemma Gives_proxy: "LoadConfig oob dir env args = Gives c \<Longrightarrow> \<exists>p. parseProxyURL (Proxy c) = Inr p"
  by (drule LoadConfig_validated) (use validate_Gives in blast)


lemma proxy_loads:
  "LoadConfig (\<lambda>_. 0) ''/c'' (\<lambda>_. '''') [''-proxy'', ''http://p:1''] =
     Gives ((default_config ''/c'')\<lparr>Proxy := ''http://p:1'', FfmpegBackend := hwSoftware\<rparr>)"
proof -
  have none: "load_env (\<lambda>_. '''') ps c = Gives c" for ps c
    by (induction ps) (auto simp: TrimSpace_solid Let_def)
  have trim: "TrimSpace ''info'' = ''info''" "TrimSpace ''software'' = ''software''"
    "TrimSpace ''127.0.0.1:8080'' = ''127.0.0.1:8080''" "TrimSpace ''/c'' = ''/c''" "TrimSpace '''' = ''''"
    "TrimSpace ''http://p:1'' = ''http://p:1''"
    by (rule TrimSpace_solid; simp add: solid_def space_encodings_def)+
  have flags: "parse_flags st [''-proxy'', v] = Gives (set_cfg (Proxy_update (\<lambda>_. v)) st, [])" for st v
    by (simp add: flag_name_def HasPrefix_def Cut_None flag_table_def flag_string_def)
  have "case Parse ''http://p:1'' of Some u \<Rightarrow> u_scheme u = ''http'' \<and> u_host u = ''p:1'' | None \<Rightarrow> False" by code_simp
  then have proxy: "parseProxyURL ''http://p:1'' = Inr (Parse ''http://p:1'')"
    by (auto simp: parseProxyURL_def trim split: option.splits)
  show ?thesis
    by (simp add: LoadConfig_def none flags set_cfg_def after_flags_def validate_def default_config_def trim
        parseLogLevel_def lower_char_def proxy normalizeHWBackend_def hw_names Second_def GiB_def del: parse_flags.simps)
qed


text \<open>
  The flag is not trimmed: a blank one means no proxy for the client and is still handed to
  yt-dlp, which a text of blanks does not tell where to connect to.
\<close>

theorem blank_proxy_reaches_ytdlp:
  "configureProxy ((default_config ''/c'')\<lparr>Proxy := '' ''\<rparr>) env = (env, None) \<and>
   commandArgs (newYtdlpRunner ((default_config ''/c'')\<lparr>Proxy := '' ''\<rparr>)) rawURL =
     [''-J'', ''--no-playlist'', ''--no-warnings'', ''-f'', progressiveFormat, ''--proxy'', '' '', ''--'', rawURL]"
proof -
  have "TrimSpace '' '' = ''''" by code_simp
  then show ?thesis
    by (simp add: configureProxy_def parseProxyURL_def commandArgs_def newYtdlpRunner_def default_config_def progressiveFormat_def)
qed

end
