(* ===== verification/Float_Accuracy.thy ===== *)
theory Float_Accuracy
  imports Complex_Main Go_Float
begin

text \<open>
  How exact Go's \<open>float64\<close> is: every operation gives the exact result up to a relative error of
  \<open>2 ^ -53\<close>, as long as it is a normal number. The figures of the log rest on this.
\<close>

section \<open>The value of a float\<close>

definition f64_val :: "f64 \<Rightarrow> real" where
  "f64_val x = (case x of Fin m e \<Rightarrow> of_int m * 2 powi e | _ \<Rightarrow> 0)"

definition is_fin :: "f64 \<Rightarrow> bool" where
  "is_fin x \<longleftrightarrow> (\<exists>m e. x = Fin m e)"

text \<open>\<open>y\<close> stands for the positive \<open>x\<close> with a relative error of at most \<open>k\<close> roundings.\<close>

definition unit_roundoff :: real where
  "unit_roundoff = 1 / 2 ^ 53"

definition near :: "f64 \<Rightarrow> real \<Rightarrow> bool" where
  "near y x \<longleftrightarrow> is_fin y \<and> \<bar>f64_val y - x\<bar> \<le> x * unit_roundoff"

definition normal_range :: "real \<Rightarrow> bool" where
  "normal_range x \<longleftrightarrow> 2 powi (- 1022) \<le> x \<and> x < 2 ^ 1023"

section \<open>Rounding\<close>

lemma powi_nonneg: "e \<ge> 0 \<Longrightarrow> (2::real) powi e = 2 ^ nat e"
  by (simp add: power_int_def)

lemma powi_neg: "e < 0 \<Longrightarrow> (2::real) powi e = 1 / 2 ^ nat (- e)"
  by (simp add: power_int_def field_simps)

lemma powi_pos: "(2::real) powi e > 0"
  by simp

lemma Fin_sign: "f64_val (Fin m e) > 0 \<longleftrightarrow> m > 0" "f64_val (Fin m e) \<ge> 0 \<longleftrightarrow> m \<ge> 0"
  using powi_pos [of e] less_asym [OF powi_pos [of e]] not_le [of "2 powi e" "0::real"]
  by (auto simp: f64_val_def zero_less_mult_iff zero_le_mult_iff simp del: zero_less_power_int)

lemma scale2_val:
  assumes "scale2 e num den = (a, b)" and "den > 0"
  shows "b > 0" and "real a / real b = real num / real den * 2 powi e"
  using assms by (auto simp: scale2_def powi_nonneg powi_neg split: if_splits)

lemma bit_len_pos: "n > 0 \<Longrightarrow> real n < 2 powi int (bit_len n) \<and> 2 powi (int (bit_len n) - 1) \<le> real n"
proof -
  assume "n > 0"
  from bit_len_bounds [OF this] have b: "2 ^ bit_len n \<le> 2 * n" "n < 2 ^ bit_len n" by auto
  have "real (2 ^ bit_len n) \<le> real (2 * n)" "real n < real (2 ^ bit_len n)"
    using b by (simp_all only: of_nat_le_iff of_nat_less_iff)
  then show ?thesis by (simp add: power_int_diff)
qed

lemma floor_log2_bounds:
  assumes "num > 0" and "den > 0"
  shows "2 powi floor_log2 num den \<le> real num / real den"
    and "real num / real den < 2 * 2 powi floor_log2 num den"
proof -
  define d where "d = int (bit_len num) - int (bit_len den)"
  obtain a b where ab: "scale2 (- d) num den = (a, b)" by (cases "scale2 (- d) num den")
  note v = scale2_val [OF ab assms(2)]
  have l: "floor_log2 num den = (if b \<le> a then d else d - 1)"
    by (simp add: floor_log2_def d_def [symmetric] ab Let_def)
  have q: "real a / real b = real num / real den / 2 powi d" using v(2) by (simp add: power_int_minus field_simps)
  have le: "b \<le> a \<longleftrightarrow> 2 powi d \<le> real num / real den"
  proof -
    have "b \<le> a \<longleftrightarrow> 1 \<le> real a / real b" using v(1) by simp
    then show ?thesis unfolding q using assms(2) by (simp add: field_simps)
  qed
  note n = bit_len_pos [OF assms(1)] and m = bit_len_pos [OF assms(2)]
  have "2 powi (int (bit_len num) - 1) / 2 powi int (bit_len den) \<le> real num / real den"
    using n m assms by (intro frac_le) auto
  then have lo: "2 powi (d - 1) \<le> real num / real den"
    by (simp add: d_def power_int_diff power_int_add field_simps)
  have "real num / real den < 2 powi int (bit_len num) / 2 powi (int (bit_len den) - 1)"
    using n m assms by (intro frac_less) auto
  then have hi: "real num / real den < 2 * 2 powi d" by (simp add: d_def power_int_diff field_simps)
  show "2 powi floor_log2 num den \<le> real num / real den" using l le lo by auto
  show "real num / real den < 2 * 2 powi floor_log2 num den"
    using l le hi by (auto simp: power_int_diff)
qed

lemma div_even_near:
  assumes "d > 0"
  shows "\<bar>real (div_even n d) - real n / real d\<bar> \<le> 1 / 2"
proof -
  have n: "real n = real (n div d) * real d + real (n mod d)"
    by (simp only: of_nat_mult [symmetric] of_nat_add [symmetric] div_mult_mod_eq)
  then have q: "real n / real d = real (n div d) + real (n mod d) / real d"
    using assms by (simp add: field_simps)
  have r: "n mod d < d" using assms by simp
  show ?thesis
  proof (cases "2 * (n mod d) > d \<or> 2 * (n mod d) = d \<and> odd (n div d)")
    case True
    then have "real (div_even n d) - real n / real d = 1 - real (n mod d) / real d"
      unfolding div_even_def Let_def q by simp
    moreover have "1 / 2 \<le> real (n mod d) / real d" "real (n mod d) / real d \<le> 1"
      using True r assms by (auto simp: field_simps)
    ultimately show ?thesis by linarith
  next
    case False
    then have "real (div_even n d) - real n / real d = - (real (n mod d) / real d)"
      unfolding div_even_def Let_def q by simp
    moreover have "real (n mod d) / real d \<le> 1 / 2" using False assms by (auto simp: field_simps)
    ultimately show ?thesis by simp
  qed
qed

text \<open>The heart of it: rounding a positive quotient.\<close>

lemma round_near:
  assumes "num > 0" and "den > 0" and x: "x = real num / real den" and "normal_range x"
  shows "near (round_f64 False num den) x"
proof -
  define l where "l = floor_log2 num den"
  have l: "2 powi l \<le> x" "x < 2 * 2 powi l" using floor_log2_bounds [OF assms(1,2)] unfolding l_def x by auto
  have "2 powi (- 1022) < (2::real) powi (l + 1)"
    using l(2) assms(4) by (simp add: normal_range_def power_int_add)
  then have "\<not> l + 1 \<le> - 1022" using power_int_increasing [of "l + 1" "- 1022" "2::real"] by linarith
  then have "- 1022 < l + 1" by simp
  define e where "e = max (- 1074) (l - 52)"
  have e: "e = l - 52" using \<open>- 1022 < l + 1\<close> by (simp add: e_def)
  obtain n d where nd: "scale2 (- e) num den = (n, d)" by (cases "scale2 (- e) num den")
  note v = scale2_val [OF nd assms(2), folded x]
  define q where "q = div_even n d"
  have "\<bar>real q - x * 2 powi (- e)\<bar> \<le> 1 / 2" using div_even_near [OF v(1), of n] unfolding q_def v(2) .
  then have "\<bar>real q - x * 2 powi (- e)\<bar> * 2 powi e \<le> 1 / 2 * 2 powi e" by (rule mult_right_mono) simp
  moreover have "\<bar>real q - x * 2 powi (- e)\<bar> * 2 powi e = \<bar>real q * 2 powi e - x\<bar>"
  proof -
    have "(real q - x * 2 powi (- e)) * 2 powi e = real q * 2 powi e - x"
      by (simp add: left_diff_distrib power_int_minus)
    then show ?thesis using powi_pos [of e] by (metis abs_mult abs_of_pos)
  qed
  moreover have "1 / 2 * 2 powi e = 2 powi l * unit_roundoff"
    by (simp add: e power_int_diff unit_roundoff_def)
  moreover have "2 powi l * unit_roundoff \<le> x * unit_roundoff"
    using l(1) by (intro mult_right_mono) (simp_all add: unit_roundoff_def)
  ultimately have close: "\<bar>real q * 2 powi e - x\<bar> \<le> x * unit_roundoff" by linarith
  have "\<not> (e \<ge> 0 \<and> q * 2 ^ nat e \<ge> 2 ^ 1024)"
  proof
    assume a: "e \<ge> 0 \<and> q * 2 ^ nat e \<ge> 2 ^ 1024"
    then have "real (2 ^ 1024) \<le> real (q * 2 ^ nat e)" by (simp only: of_nat_le_iff)
    then have "2 ^ 1024 \<le> real q * 2 powi e" using a by (simp add: powi_nonneg)
    also have "\<dots> \<le> x * (1 + unit_roundoff)" using close by (simp add: algebra_simps)
    also have "\<dots> \<le> x * 2"
      using l(1) less_le_trans [of 0 "2 powi l" x] by (intro mult_left_mono) (auto simp: unit_roundoff_def)
    also have "\<dots> < 2 ^ 1024" using assms(4) by (simp add: normal_range_def)
    finally show False by simp
  qed
  then have "round_f64 False num den = Fin (int q) e"
    using assms(1) nd by (simp add: round_f64_def l_def [symmetric] e_def [symmetric] Let_def q_def [symmetric])
  with close show ?thesis by (simp add: near_def is_fin_def f64_val_def)
qed

lemma near_bounds:
  assumes "near y x"
  shows "is_fin y" "x * (1 - unit_roundoff) \<le> f64_val y" "f64_val y \<le> x * (1 + unit_roundoff)"
  using assms by (auto simp: near_def abs_le_iff algebra_simps)

lemma f64_of_int_near: "0 < i \<Longrightarrow> i \<le> max_i64 \<Longrightarrow> near (f64_of_int i) (of_int i)"
proof -
  assume i: "0 < i" "i \<le> max_i64"
  have "(2::real) powi (- 1022) \<le> 2 powi 0" by (rule power_int_increasing) simp_all
  then have "2 powi (- 1022) \<le> real_of_int i" using i by simp
  moreover have "real_of_int i < 2 ^ 1023"
  proof -
    have "real_of_int i < 2 ^ 63" using i by (simp add: max_i64_def)
    also have "(2::real) ^ 63 \<le> 2 ^ 1023" by (rule power_increasing) simp_all
    finally show ?thesis .
  qed
  ultimately show ?thesis using round_near [of "nat i" 1 "of_int i"] i by (simp add: f64_of_int_def normal_range_def)
qed

section \<open>Operations\<close>

text \<open>\<open>+\<close> on floats, which the conversion of a duration to seconds uses.\<close>

definition f64_add :: "f64 \<Rightarrow> f64 \<Rightarrow> f64" where
  "f64_add x y =
     (case (x, y) of
        (Fin m e, Fin n k) \<Rightarrow>
          (let c = min e k;
               s = m * 2 ^ nat (e - c) + n * 2 ^ nat (k - c);
               (num, den) = scale2 c (nat \<bar>s\<bar>) 1
           in round_f64 (s < 0) num den)
      | (NaN, _) \<Rightarrow> NaN
      | (_, NaN) \<Rightarrow> NaN
      | (Inf s, Inf t) \<Rightarrow> if s = t then Inf s else NaN
      | (Inf s, _) \<Rightarrow> Inf s
      | (_, Inf t) \<Rightarrow> Inf t)"

definition pos_fin :: "f64 \<Rightarrow> bool" where
  "pos_fin x \<longleftrightarrow> is_fin x \<and> f64_val x > 0"

lemma pos_finE:
  assumes "pos_fin x"
  obtains m e where "x = Fin (int m) e" "m > 0" "f64_val x = real m * 2 powi e"
proof -
  obtain n e where x: "x = Fin n e" using assms by (auto simp: pos_fin_def is_fin_def)
  with assms have "n > 0" by (simp add: pos_fin_def Fin_sign)
  then show ?thesis using that [of "nat n" e] x by (simp add: f64_val_def)
qed

lemma f64_divide_near:
  assumes "pos_fin x" "pos_fin y" "normal_range (f64_val x / f64_val y)"
  shows "near (f64_divide x y) (f64_val x / f64_val y)"
proof -
  obtain m e where x: "x = Fin (int m) e" "m > 0" "f64_val x = real m * 2 powi e" using assms(1) by (rule pos_finE)
  obtain n k where y: "y = Fin (int n) k" "n > 0" "f64_val y = real n * 2 powi k" using assms(2) by (rule pos_finE)
  obtain num den where s: "scale2 (e - k) m n = (num, den)" by (cases "scale2 (e - k) m n")
  note v = scale2_val [OF s y(2)]
  have q: "f64_val x / f64_val y = real num / real den" unfolding v(2) x(3) y(3) by (simp add: power_int_diff)
  have "0 < real num / real den" unfolding v(2) using x(2) y(2) by simp
  then have "num > 0" by (cases num) auto
  from round_near [OF this v(1) q assms(3)] show ?thesis using y(2) s by (simp add: f64_divide_def x(1) y(1))
qed

lemma f64_mult_near:
  assumes "pos_fin x" "pos_fin y" "normal_range (f64_val x * f64_val y)"
  shows "near (f64_mult x y) (f64_val x * f64_val y)"
proof -
  obtain m e where x: "x = Fin (int m) e" "m > 0" "f64_val x = real m * 2 powi e" using assms(1) by (rule pos_finE)
  obtain n k where y: "y = Fin (int n) k" "n > 0" "f64_val y = real n * 2 powi k" using assms(2) by (rule pos_finE)
  obtain num den where s: "scale2 (e + k) (m * n) 1 = (num, den)" by (cases "scale2 (e + k) (m * n) 1")
  note v = scale2_val [OF s zero_less_one]
  have q: "f64_val x * f64_val y = real num / real den" unfolding v(2) x(3) y(3) by (simp add: power_int_add)
  have "0 < real num / real den" unfolding v(2) using x(2) y(2) by simp
  then have "num > 0" by (cases num) auto
  from round_near [OF this v(1) q assms(3)] show ?thesis using s
    by (simp add: f64_mult_def x(1) y(1) nat_mult_distrib)
qed

lemma nonneg_finE:
  assumes "is_fin x" and "f64_val x \<ge> 0"
  obtains m e where "x = Fin (int m) e" "f64_val x = real m * 2 powi e"
proof -
  obtain n e where x: "x = Fin n e" using assms(1) by (auto simp: is_fin_def)
  with assms(2) have "n \<ge> 0" by (simp add: Fin_sign)
  then show ?thesis using that [of "nat n" e] x by (simp add: f64_val_def)
qed

lemma f64_add_near:
  assumes "is_fin x" "f64_val x \<ge> 0" "is_fin y" "f64_val y \<ge> 0" "normal_range (f64_val x + f64_val y)"
  shows "near (f64_add x y) (f64_val x + f64_val y)"
proof -
  obtain m e where x: "x = Fin (int m) e" "f64_val x = real m * 2 powi e" using assms(1,2) by (rule nonneg_finE)
  obtain n k where y: "y = Fin (int n) k" "f64_val y = real n * 2 powi k" using assms(3,4) by (rule nonneg_finE)
  define c where "c = min e k"
  define s where "s = m * 2 ^ nat (e - c) + n * 2 ^ nat (k - c)"
  obtain num den where sc: "scale2 c s 1 = (num, den)" by (cases "scale2 c s 1")
  note v = scale2_val [OF sc zero_less_one]
  have shift: "(2::real) ^ nat (j - c) * 2 powi c = 2 powi j" if "c \<le> j" for j
    using that by (simp add: powi_nonneg [symmetric] power_int_add [symmetric])
  have "real s * 2 powi c = f64_val x + f64_val y"
    unfolding x(2) y(2) s_def using shift [of e] shift [of k] by (simp add: c_def algebra_simps)
  then have q: "f64_val x + f64_val y = real num / real den" using v(2) by simp
  have "0 < real num / real den" using assms(5) less_le_trans [OF powi_pos] unfolding q normal_range_def by blast
  then have "num > 0" by (cases num) auto
  have int_s: "int m * 2 ^ nat (e - c) + int n * 2 ^ nat (k - c) = int s" by (simp add: s_def)
  from round_near [OF \<open>num > 0\<close> v(1) q assms(5)] show ?thesis
    using sc int_s by (simp add: f64_add_def x(1) y(1) c_def [symmetric] Let_def)
qed

text \<open>Whole numbers below \<open>2 ^ 53\<close> are floats, and a float is cut off to the whole number below.\<close>

lemma whole_val:
  assumes "is_whole x n"
  shows "is_fin x \<and> f64_val x = real n"
proof -
  obtain k where k: "x = Fin (int (n * 2 ^ k)) (- int k)" using assms by (auto simp: is_whole_def)
  have "f64_val x = real n * (2 ^ k * 2 powi (- int k))" unfolding k by (simp add: f64_val_def)
  also have "(2::real) ^ k * 2 powi (- int k) = 1" by (simp add: power_int_minus)
  finally show ?thesis using k by (simp add: is_fin_def)
qed

lemma f64_of_int_val: "0 \<le> i \<Longrightarrow> i < 2 ^ 53 \<Longrightarrow> is_fin (f64_of_int i) \<and> f64_val (f64_of_int i) = of_int i"
  using whole_val [OF f64_of_int_whole] by simp

lemma int64_of_f64_floor:
  assumes "is_fin x" "0 \<le> f64_val x" "f64_val x < 2 ^ 63"
  shows "int64_of_f64 oob x = \<lfloor>f64_val x\<rfloor>"
proof -
  obtain m e where x: "x = Fin m e" using assms(1) by (auto simp: is_fin_def)
  have "m \<ge> 0" using assms(2) by (simp add: x Fin_sign)
  have t: "f64_trunc m e = \<lfloor>f64_val x\<rfloor>"
  proof (cases "e \<ge> 0")
    case True
    then have "f64_val x = of_int (m * 2 ^ nat e)" by (simp add: x f64_val_def powi_nonneg)
    then have "\<lfloor>f64_val x\<rfloor> = m * 2 ^ nat e" by (simp only: floor_of_int)
    with True \<open>m \<ge> 0\<close> show ?thesis by (simp add: f64_trunc_def)
  next
    case False
    have "f64_val x = of_int m / of_int (2 ^ nat (- e))" using False by (simp add: x f64_val_def powi_neg)
    then have "\<lfloor>f64_val x\<rfloor> = m div 2 ^ nat (- e)" by (simp only: floor_divide_of_int_eq)
    with False \<open>m \<ge> 0\<close> show ?thesis by (simp add: f64_trunc_def)
  qed
  have "0 \<le> \<lfloor>f64_val x\<rfloor>" "\<lfloor>f64_val x\<rfloor> < 2 ^ 63" using assms(2,3) by (simp_all add: floor_less_iff)
  then show ?thesis using t by (simp add: x int64_of_f64_def i64_bounds)
qed

end
