(* ===== verification/Throughput.thy ===== *)
theory Throughput
  imports Float_Accuracy Log_Level Sparse_File
begin

text \<open>
  The figures in the server's log: the rates and percentages of logging.go, the progress lines of
  a download, and the watchers that warn of slow ones (jobs.go, serve.go). A line is a value; the
  ticks and timers of the clock and what the counters hold at that time are arguments.
\<close>

section \<open>Lines\<close>

datatype log_value = LInt int | LFloat f64 | LStr string | LBool bool | LError "go_error option"

record log_line =
  ll_level :: level
  ll_msg :: string
  ll_attrs :: "(string \<times> log_value) list"

section \<open>Rates and percentages\<close>

definition slowFirstByteThreshold :: int where "slowFirstByteThreshold = 5 * Second"
definition slowClientWaitThreshold :: int where "slowClientWaitThreshold = 5 * Second"
definition slowFillThreshold :: int where "slowFillThreshold = 15 * Second"

text \<open>\<open>Duration.Seconds\<close> and \<open>Duration.Milliseconds\<close>, for durations that are not negative.\<close>

definition Seconds :: "int \<Rightarrow> f64" where
  "Seconds d = f64_add (f64_of_int (d div Second)) (f64_divide (f64_of_int (d mod Second)) (f64_of_int Second))"

definition Milliseconds :: "int \<Rightarrow> int" where
  "Milliseconds d = d div 1000000"

definition bytesPerSecond :: "(f64 \<Rightarrow> int) \<Rightarrow> int \<Rightarrow> int \<Rightarrow> int" where
  "bytesPerSecond oob bytes duration =
     (if bytes \<le> 0 \<or> duration \<le> 0 then 0
      else int64_of_f64 oob (f64_divide (f64_of_int bytes) (Seconds duration)))"

definition percentOfFile :: "int \<Rightarrow> int \<Rightarrow> f64" where
  "percentOfFile pos size' =
     (if pos \<le> 0 \<or> size' \<le> 0 then f64_of_int 0
      else f64_divide (f64_mult (f64_of_int pos) (f64_of_int 100)) (f64_of_int size'))"

text \<open>A time is the reading of the monotonic clock in nanoseconds; \<open>Time.Sub\<close> saturates.\<close>

record rateTracker =
  rt_last :: int
  rt_bytes :: int

definition time_sub :: "int \<Rightarrow> int \<Rightarrow> int" where
  "time_sub t u = max min_i64 (min max_i64 (t - u))"

definition rate :: "(f64 \<Rightarrow> int) \<Rightarrow> rateTracker \<Rightarrow> int \<Rightarrow> int \<Rightarrow> int \<times> rateTracker" where
  "rate oob r now total' =
     (let delta = sub64 total' (rt_bytes r);
          delta = (if delta < 0 then 0 else delta)
      in (bytesPerSecond oob delta (time_sub now (rt_last r)), \<lparr>rt_last = now, rt_bytes = total'\<rparr>))"

section \<open>Progress lines\<close>

text \<open>A tick finds the time and, once the sparse file is there, its progress.\<close>

fun logSparseProgress ::
  "(f64 \<Rightarrow> int) \<Rightarrow> string \<Rightarrow> int \<Rightarrow> rateTracker \<Rightarrow> (int \<times> sparse_progress option) list \<Rightarrow> log_line list" where
  "logSparseProgress oob i size' rt [] = []"
| "logSparseProgress oob i size' rt ((now, None) # ticks) = logSparseProgress oob i size' rt ticks"
| "logSparseProgress oob i size' rt ((now, Some p) # ticks) =
     (let (bps, rt') = rate oob rt now (presentBytes p)
      in \<lparr>ll_level = Debug, ll_msg = ''sparse download progress'',
          ll_attrs = [(''id'', LStr i), (''present_bytes'', LInt (presentBytes p)),
            (''contiguous_bytes'', LInt (contiguousBytes p)), (''inflight_bytes'', LInt (inflightBytes p)),
            (''inflight_ranges'', LInt (int (inflightRanges p))), (''present_ranges'', LInt (int (presentRanges p))),
            (''file_size'', LInt size'), (''file_pct'', LFloat (percentOfFile (presentBytes p) size')),
            (''contiguous_pct'', LFloat (percentOfFile (contiguousBytes p) size')),
            (''bytes_per_sec'', LInt bps)]\<rparr> # logSparseProgress oob i size' rt' ticks)"

text \<open>Of a sequential download: the bytes written and the length, -1 where it is not known.\<close>

fun logDownloadProgress ::
  "(f64 \<Rightarrow> int) \<Rightarrow> string \<Rightarrow> string \<Rightarrow> int \<Rightarrow> rateTracker \<Rightarrow> (int \<times> int \<times> int) list \<Rightarrow> log_line list" where
  "logDownloadProgress oob i mode size' rt [] = []"
| "logDownloadProgress oob i mode size' rt ((now, written, contentLength) # ticks) =
     (let jobSize = (if contentLength \<ge> 0 then contentLength else size');
          (bps, rt') = rate oob rt now written
      in \<lparr>ll_level = Debug, ll_msg = ''sequential download progress'',
          ll_attrs = [(''id'', LStr i), (''mode'', LStr mode), (''bytes'', LInt written),
            (''content_length'', LInt contentLength), (''file_pct'', LFloat (percentOfFile written jobSize)),
            (''bytes_per_sec'', LInt bps)]\<rparr> # logDownloadProgress oob i mode size' rt' ticks)"

section \<open>Watchers\<close>

text \<open>
  The watchers that wait for a timer or the end, whichever comes first: \<open>fired\<close> is what the
  timer found (the bytes written, the length, whether the job is done and its error), if it came first.
\<close>

definition logSequentialDownloadFirstByteSlow ::
  "string \<Rightarrow> string \<Rightarrow> (int \<times> int \<times> bool \<times> go_error option) option \<Rightarrow> log_line list" where
  "logSequentialDownloadFirstByteSlow i mode fired =
     (case fired of
        None \<Rightarrow> []
      | Some (written, contentLength, jobDone, jobErr) \<Rightarrow>
          if written = 0 then
            [\<lparr>ll_level = Warn, ll_msg = ''sequential download first byte slow'',
              ll_attrs = [(''id'', LStr i), (''mode'', LStr mode), (''bytes'', LInt written),
                (''content_length'', LInt contentLength), (''job_done'', LBool jobDone), (''job_error'', LError jobErr),
                (''wait_ms'', LInt (Milliseconds slowFirstByteThreshold))]\<rparr>]
          else [])"

text \<open>Here the bytes served come first, and the length is the one the reply announced.\<close>

definition watchSlowClientStart ::
  "int \<Rightarrow> (int \<times> int \<times> bool \<times> go_error option) option \<Rightarrow> log_line list" where
  "watchSlowClientStart contentLength fired =
     (case fired of
        None \<Rightarrow> []
      | Some (served, written, jobDone, jobErr) \<Rightarrow>
          if served \<noteq> 0 then []
          else [\<lparr>ll_level = Warn, ll_msg = ''sequential client first byte slow'',
              ll_attrs = [(''client_bytes'', LInt 0), (''job_written'', LInt written),
                (''content_length'', LInt contentLength), (''job_done'', LBool jobDone), (''job_error'', LError jobErr),
                (''wait_ms'', LInt (Milliseconds slowFirstByteThreshold))]\<rparr>])"

text \<open>The deferred report of \<open>fillRange\<close>: where it stands and its error when it returns.\<close>

definition fill_report ::
  "(f64 \<Rightarrow> int) \<Rightarrow> string \<Rightarrow> int \<Rightarrow> interval \<Rightarrow> int \<Rightarrow> int \<Rightarrow> go_error option \<Rightarrow> log_line list" where
  "fill_report oob i size' it pos duration err =
     (let readBytes = sub64 pos (iv_start it);
          attrs = [(''id'', LStr i),
            (''http_range'', LStr (''bytes='' @ FormatInt (iv_start it) @ ''-'' @ FormatInt (sub64 (iv_end it) 1))),
            (''start'', LInt (iv_start it)), (''end'', LInt (iv_end it)), (''pos'', LInt pos), (''bytes'', LInt readBytes),
            (''expected_bytes'', LInt (sub64 (iv_end it) (iv_start it))), (''duration_ms'', LInt (Milliseconds duration)),
            (''bytes_per_sec'', LInt (bytesPerSecond oob readBytes duration)),
            (''file_pct'', LFloat (percentOfFile pos size'))]
      in case err of
           Some e \<Rightarrow>
             (let attrs = attrs @ [(''error'', LError err)]
              in if e = Canceled then
                   (if duration \<ge> slowFillThreshold
                    then [\<lparr>ll_level = Debug, ll_msg = ''fill range canceled'', ll_attrs = attrs\<rparr>] else [])
                 else [\<lparr>ll_level = Warn, ll_msg = ''fill range failed'', ll_attrs = attrs\<rparr>])
         | None \<Rightarrow>
             if duration \<ge> slowFillThreshold
             then [\<lparr>ll_level = Warn, ll_msg = ''fill range slow'', ll_attrs = attrs\<rparr>] else [])"

text \<open>
  What \<open>serveSparse\<close> tells of a wait for its next bytes: the error of \<open>waitByte\<close>, if any,
  whether the client has gone, whether the bytes were missing at first, and how long it took.
\<close>

definition sparse_wait_log ::
  "int \<Rightarrow> int \<Rightarrow> int \<Rightarrow> bool \<Rightarrow> int \<Rightarrow> bool \<Rightarrow> go_error option \<Rightarrow> log_line list" where
  "sparse_wait_log start end' pos blocked wait gone err =
     (let attrs = [(''start'', LInt start), (''end'', LInt end'), (''pos'', LInt pos), (''bytes'', LInt (sub64 pos start))]
      in case err of
           Some e \<Rightarrow>
             (if e = Canceled \<or> gone
              then [\<lparr>ll_level = Debug, ll_msg = ''client gone while awaiting sparse bytes'', ll_attrs = attrs @ [(''error'', LError err)]\<rparr>]
              else [\<lparr>ll_level = Warn, ll_msg = ''failed waiting for sparse bytes'', ll_attrs = attrs @ [(''error'', LError err)]\<rparr>])
         | None \<Rightarrow>
             if blocked \<and> wait \<ge> slowClientWaitThreshold
             then [\<lparr>ll_level = Warn, ll_msg = ''client sparse wait slow'', ll_attrs = attrs @ [(''wait_ms'', LInt (Milliseconds wait))]\<rparr>]
             else [])"

section \<open>How exact the figures are\<close>

lemma normal_rangeI:
  assumes "1 / 2 ^ 200 \<le> x" "x \<le> 2 ^ 200"
  shows "normal_range x"
proof -
  have "(2::real) powi (- 1022) \<le> 2 powi (- 200)" by (rule power_int_increasing) simp_all
  moreover have "(2::real) powi (- 200) = 1 / 2 ^ 200" by (simp add: powi_neg)
  ultimately have "2 powi (- 1022) \<le> x" using assms(1) by linarith
  moreover have "(2::real) ^ 200 < 2 ^ 1023" by (rule power_strict_increasing) simp_all
  ultimately show ?thesis using assms(2) unfolding normal_range_def by linarith
qed

text \<open>Two roundings in a row, and a quotient of rounded numbers.\<close>

lemma quotient_error:
  fixes a b x y q :: real
  assumes "0 < x" "0 < y"
    and a: "x * (1 - unit_roundoff) ^ 2 \<le> a" "a \<le> x * (1 + unit_roundoff) ^ 2"
    and b: "y * (1 - unit_roundoff) ^ 2 \<le> b" "b \<le> y * (1 + unit_roundoff) ^ 2"
    and q: "a / b * (1 - unit_roundoff) \<le> q" "q \<le> a / b * (1 + unit_roundoff)"
  shows "x / y * (1 - 6 * unit_roundoff) \<le> q" "q \<le> x / y * (1 + 6 * unit_roundoff)"
proof -
  have u: "(1 - unit_roundoff) ^ 2 > 0" "(1 + unit_roundoff) ^ 2 > 0" "1 - unit_roundoff > 0" "1 + unit_roundoff > 0"
    by (simp_all add: unit_roundoff_def)
  have "0 < y * (1 - unit_roundoff) ^ 2" using assms(2) u by simp
  then have "0 < b" using b(1) by linarith
  have "0 \<le> x * (1 - unit_roundoff) ^ 2" using assms(1) by simp
  with a(1) have "0 \<le> a" by linarith
  have "x * (1 - unit_roundoff) ^ 2 / (y * (1 + unit_roundoff) ^ 2) \<le> a / b"
    using assms u \<open>0 < b\<close> \<open>0 \<le> a\<close> by (intro frac_le) auto
  then have "x * (1 - unit_roundoff) ^ 2 / (y * (1 + unit_roundoff) ^ 2) * (1 - unit_roundoff) \<le> q"
    using mult_right_mono [of _ "a / b" "1 - unit_roundoff"] q(1) u by fastforce
  moreover have "1 - 6 * unit_roundoff \<le> (1 - unit_roundoff) ^ 2 / (1 + unit_roundoff) ^ 2 * (1 - unit_roundoff)"
    by (simp add: unit_roundoff_def power2_eq_square)
  then have "x / y * (1 - 6 * unit_roundoff) \<le>
      x / y * ((1 - unit_roundoff) ^ 2 / (1 + unit_roundoff) ^ 2 * (1 - unit_roundoff))"
    using assms(1,2) by (intro mult_left_mono) auto
  ultimately show "x / y * (1 - 6 * unit_roundoff) \<le> q" by (simp add: mult_ac)
  have "a / b \<le> x * (1 + unit_roundoff) ^ 2 / (y * (1 - unit_roundoff) ^ 2)"
    using assms u \<open>0 < b\<close> \<open>0 \<le> a\<close> by (intro frac_le) auto
  then have "q \<le> x * (1 + unit_roundoff) ^ 2 / (y * (1 - unit_roundoff) ^ 2) * (1 + unit_roundoff)"
    using mult_right_mono [of "a / b" _ "1 + unit_roundoff"] q(2) u by fastforce
  moreover have "(1 + unit_roundoff) ^ 2 / (1 - unit_roundoff) ^ 2 * (1 + unit_roundoff) \<le> 1 + 6 * unit_roundoff"
    by (simp add: unit_roundoff_def power2_eq_square)
  then have "x / y * ((1 + unit_roundoff) ^ 2 / (1 - unit_roundoff) ^ 2 * (1 + unit_roundoff)) \<le>
      x / y * (1 + 6 * unit_roundoff)"
    using assms(1,2) by (intro mult_left_mono) auto
  ultimately show "q \<le> x / y * (1 + 6 * unit_roundoff)" by (simp add: mult_ac)
qed

lemma Second_exact: "is_fin (f64_of_int Second)" "f64_val (f64_of_int Second) = of_int Second"
  using f64_of_int_val [of Second] by (simp_all add: Second_def)

lemma fraction_error:
  assumes "0 \<le> n" "n < Second" and y: "y = f64_divide (f64_of_int n) (f64_of_int Second)"
  shows "is_fin y \<and> of_int n / 10 ^ 9 * (1 - unit_roundoff) \<le> f64_val y \<and>
    f64_val y \<le> of_int n / 10 ^ 9 * (1 + unit_roundoff)"
proof (cases "n = 0")
  case True
  obtain k e where k: "f64_of_int Second = Fin (int k) e" "k > 0"
    using Second_exact by (metis Second_def of_int_0_less_iff pos_finE pos_fin_def zero_less_numeral)
  have "f64_divide (f64_of_int 0) (f64_of_int Second) = Fin 0 0"
    unfolding k(1) using k(2) by (simp add: f64_of_int_def round_f64_def f64_divide_def scale2_def)
  with True show ?thesis by (simp add: y is_fin_def f64_val_def)
next
  case False
  have n: "is_fin (f64_of_int n) \<and> f64_val (f64_of_int n) = of_int n"
    using assms(1,2) by (intro f64_of_int_val) (simp_all add: Second_def)
  then have pos: "pos_fin (f64_of_int n)" "pos_fin (f64_of_int Second)"
    using False assms(1) Second_exact by (simp_all add: pos_fin_def Second_def)
  have "normal_range (of_int n / of_int Second)"
  proof (rule normal_rangeI)
    have "1 / 10 ^ 9 \<le> real_of_int n / of_int Second" using False assms(1) by (simp add: Second_def)
    then show "1 / 2 ^ 200 \<le> real_of_int n / of_int Second" by (rule order_trans [rotated]) simp
    have "real_of_int n / of_int Second \<le> 1" using assms(2) by (simp add: Second_def)
    then show "real_of_int n / of_int Second \<le> 2 ^ 200" by (rule order_trans) simp
  qed
  with f64_divide_near [OF pos] n Second_exact have "near y (of_int n / of_int Second)" by (simp add: y)
  from near_bounds [OF this] show ?thesis by (simp add: Second_def)
qed

lemma Seconds_error:
  assumes "0 < d" "d \<le> max_i64" and s: "s = of_int d / 10 ^ 9"
  shows "is_fin (Seconds d)" "s * (1 - unit_roundoff) ^ 2 \<le> f64_val (Seconds d)"
    "f64_val (Seconds d) \<le> s * (1 + unit_roundoff) ^ 2"
proof -
  define m n where mn: "m = d div Second" "n = d mod Second"
  have range: "0 \<le> m" "m \<le> max_i64 div Second" "0 \<le> n" "n < Second"
    using assms(1,2) zdiv_mono1 [of d max_i64 Second] by (simp_all add: mn Second_def)
  have "d = m * Second + n" unfolding mn by simp
  then have sum: "s = of_int m + of_int n / 10 ^ 9" unfolding s by (simp add: Second_def add_divide_distrib)
  have m: "is_fin (f64_of_int m) \<and> f64_val (f64_of_int m) = of_int m"
    using range by (intro f64_of_int_val) (simp_all add: Second_def max_i64_def)
  define y where "y = f64_divide (f64_of_int n) (f64_of_int Second)"
  note y = fraction_error [OF range(3,4) y_def]
  have nonneg: "0 \<le> real_of_int n / 10 ^ 9 * (1 - unit_roundoff)" using range by (simp add: unit_roundoff_def)
  define S where "S = of_int m + f64_val y"
  have mu: "0 \<le> real_of_int m * unit_roundoff" using range by (simp add: unit_roundoff_def)
  have S: "s * (1 - unit_roundoff) \<le> S" "S \<le> s * (1 + unit_roundoff)"
  proof -
    define f where "f = real_of_int n / 10 ^ 9"
    have "f * (1 - unit_roundoff) \<le> f64_val y" "f64_val y \<le> f * (1 + unit_roundoff)"
      using y unfolding f_def by blast+
    with mu show "s * (1 - unit_roundoff) \<le> S" "S \<le> s * (1 + unit_roundoff)"
      unfolding S_def sum f_def [symmetric] by (simp_all add: algebra_simps)
  qed
  have "s \<ge> 1 / 10 ^ 9" "s \<le> 2 ^ 63" using assms(1,2) by (simp_all add: s max_i64_def field_simps)
  then have "1 / 2 ^ 200 \<le> s * (1 - unit_roundoff)" "s * (1 + unit_roundoff) \<le> 2 ^ 200"
    by (simp_all add: unit_roundoff_def)
  with S have "normal_range S" by (intro normal_rangeI) linarith+
  then have "near (Seconds d) S"
    using f64_add_near [of "f64_of_int m" y] m y range nonneg
    by (simp add: Seconds_def mn [symmetric] y_def [symmetric] S_def)
  note b = near_bounds [OF this]
  show "is_fin (Seconds d)" by (rule b(1))
  have "s * (1 - unit_roundoff) * (1 - unit_roundoff) \<le> S * (1 - unit_roundoff)"
    using S(1) by (rule mult_right_mono) (simp add: unit_roundoff_def)
  with b(2) show "s * (1 - unit_roundoff) ^ 2 \<le> f64_val (Seconds d)" by (simp add: power2_eq_square mult_ac)
  have "S * (1 + unit_roundoff) \<le> s * (1 + unit_roundoff) * (1 + unit_roundoff)"
    using S(2) by (rule mult_right_mono) (simp add: unit_roundoff_def)
  with b(3) show "f64_val (Seconds d) \<le> s * (1 + unit_roundoff) ^ 2" by (simp add: power2_eq_square mult_ac)
qed

text \<open>
  bytesPerSecond: whatever the byte count and the duration, as long as the rate is below
  \<open>2 ^ 62\<close> the figure is the whole part of a number that differs from the true rate by at most six
  units in the last place of a float; without bytes or time it is 0, and it is never negative.
\<close>

lemma bytesPerSecond_near:
  fixes r :: real
  assumes "0 < bytes" "bytes \<le> max_i64" "0 < duration" "duration \<le> max_i64"
    and exact: "r = of_int bytes / (of_int duration / 10 ^ 9)" and "r < 2 ^ 62"
  shows "r * (1 - 6 / 2 ^ 53) - 1 < of_int (bytesPerSecond oob bytes duration)"
    and "of_int (bytesPerSecond oob bytes duration) \<le> r * (1 + 6 / 2 ^ 53)"
    and "0 \<le> bytesPerSecond oob bytes duration"
proof -
  define s where "s = real_of_int duration / 10 ^ 9"
  note sec = Seconds_error [OF assms(3,4) s_def]
  define a where "a = f64_val (f64_of_int bytes)"
  define b where "b = f64_val (Seconds duration)"
  have u: "0 < (1 - unit_roundoff) ^ 2" "unit_roundoff \<ge> 0" "(1 - unit_roundoff) ^ 2 \<le> 1 - unit_roundoff"
    "1 + unit_roundoff \<le> (1 + unit_roundoff) ^ 2" by (simp_all add: unit_roundoff_def power2_eq_square)
  have "s > 0" using assms(3) by (simp add: s_def)
  have B: "is_fin (f64_of_int bytes)" "of_int bytes * (1 - unit_roundoff) \<le> a" "a \<le> of_int bytes * (1 + unit_roundoff)"
    using near_bounds [OF f64_of_int_near [OF assms(1,2)]] by (simp_all add: a_def)
  have A: "of_int bytes * (1 - unit_roundoff) ^ 2 \<le> a" "a \<le> of_int bytes * (1 + unit_roundoff) ^ 2"
    using B assms(1) order_trans [OF mult_left_mono [OF u(3)] B(2)] order_trans [OF B(3) mult_left_mono [OF u(4)]]
    by simp_all
  have bounds: "1 / 2 \<le> a" "a \<le> 2 ^ 64" "1 / 2 ^ 31 \<le> b" "b \<le> 2 ^ 64"
  proof -
    have i: "1 \<le> real_of_int bytes" "real_of_int bytes \<le> 2 ^ 63" "1 / 10 ^ 9 \<le> s" "s \<le> 2 ^ 63"
      using assms(1-4) by (simp_all add: s_def max_i64_def field_simps)
    show "1 / 2 \<le> a" using i(1) B(2) by (simp add: unit_roundoff_def)
    show "a \<le> 2 ^ 64" using i(2) B(3) by (simp add: unit_roundoff_def)
    show "1 / 2 ^ 31 \<le> b" using i(3) sec(2) unfolding b_def by (simp add: unit_roundoff_def power2_eq_square)
    show "b \<le> 2 ^ 64" using i(4) sec(3) unfolding b_def by (simp add: unit_roundoff_def power2_eq_square)
  qed
  have pos: "0 < a" "0 < b" using bounds(1) less_le_trans [OF _ bounds(3)] by simp_all
  have "normal_range (a / b)"
  proof (rule normal_rangeI)
    have "(1 / 2) / 2 ^ 64 \<le> a / b" using bounds pos by (intro frac_le) auto
    then show "1 / 2 ^ 200 \<le> a / b" by (rule order_trans [rotated]) simp
    have "a / b \<le> 2 ^ 64 / (1 / 2 ^ 31)" using bounds pos by (intro frac_le) auto
    then show "a / b \<le> 2 ^ 200" by (rule order_trans) simp
  qed
  with f64_divide_near [of "f64_of_int bytes" "Seconds duration"] B(1) sec(1) pos
  have "near (f64_divide (f64_of_int bytes) (Seconds duration)) (a / b)" by (simp add: pos_fin_def a_def b_def)
  note q = near_bounds [OF this]
  define x where "x = f64_val (f64_divide (f64_of_int bytes) (Seconds duration))"
  have e: "r * (1 - 6 * unit_roundoff) \<le> x" "x \<le> r * (1 + 6 * unit_roundoff)"
    using quotient_error [OF _ \<open>s > 0\<close> A sec(2,3) [folded b_def] q(2,3)] assms(1)
    unfolding exact s_def [symmetric] x_def by simp_all
  have "0 < r" using assms(1,3) by (simp add: exact)
  then have "0 \<le> x" "x < 2 ^ 63" using e assms(6) by (auto simp: unit_roundoff_def algebra_simps)
  with int64_of_f64_floor [OF q(1)] assms(1,3) have "bytesPerSecond oob bytes duration = \<lfloor>x\<rfloor>"
    by (simp add: bytesPerSecond_def x_def)
  with e \<open>0 \<le> x\<close> show "r * (1 - 6 / 2 ^ 53) - 1 < of_int (bytesPerSecond oob bytes duration)"
    and "of_int (bytesPerSecond oob bytes duration) \<le> r * (1 + 6 / 2 ^ 53)"
    and "0 \<le> bytesPerSecond oob bytes duration"
    by (simp_all add: unit_roundoff_def) linarith+
qed

section \<open>Percentages\<close>

lemma hundredfold_error:
  assumes "0 < pos" "pos \<le> max_i64" and m: "m = f64_mult (f64_of_int pos) (f64_of_int 100)"
  shows "is_fin m" "of_int pos * 100 * (1 - unit_roundoff) ^ 2 \<le> f64_val m"
    "f64_val m \<le> of_int pos * 100 * (1 + unit_roundoff) ^ 2" "1 \<le> f64_val m" "f64_val m \<le> 2 ^ 80"
proof -
  define p where "p = f64_val (f64_of_int pos)"
  note P = near_bounds [OF f64_of_int_near [OF assms(1,2)], folded p_def]
  have h: "is_fin (f64_of_int 100) \<and> f64_val (f64_of_int 100) = 100" using f64_of_int_val [of 100] by simp
  have "1 \<le> real_of_int pos" "real_of_int pos \<le> 2 ^ 63" using assms(1,2) by (simp_all add: max_i64_def)
  then have range: "1 / 2 \<le> p" "p \<le> 2 ^ 64" using P(2,3) by (simp_all add: unit_roundoff_def)
  have "normal_range (p * 100)"
  proof (rule normal_rangeI)
    show "1 / 2 ^ 200 \<le> p * 100" by (rule order_trans [of _ "(1 / 2) * 100"]) (use range(1) in simp_all)
    show "p * 100 \<le> 2 ^ 200" by (rule order_trans [of _ "2 ^ 64 * 100"]) (use range(2) in simp_all)
  qed
  then have "near m (p * 100)"
    using f64_mult_near [of "f64_of_int pos" "f64_of_int 100"] P(1) h range(1) by (simp add: m p_def pos_fin_def)
  note M = near_bounds [OF this]
  show "is_fin m" by (rule M(1))
  show "1 \<le> f64_val m" "f64_val m \<le> 2 ^ 80" using M(2,3) range by (simp_all add: unit_roundoff_def)
  have "of_int pos * (1 - unit_roundoff) * (100 * (1 - unit_roundoff)) \<le> p * (100 * (1 - unit_roundoff))"
    using P(2) by (rule mult_right_mono) (simp add: unit_roundoff_def)
  with M(2) show "of_int pos * 100 * (1 - unit_roundoff) ^ 2 \<le> f64_val m" by (simp add: power2_eq_square mult_ac)
  have "p * (100 * (1 + unit_roundoff)) \<le> of_int pos * (1 + unit_roundoff) * (100 * (1 + unit_roundoff))"
    using P(3) by (rule mult_right_mono) (simp add: unit_roundoff_def)
  with M(3) show "f64_val m \<le> of_int pos * 100 * (1 + unit_roundoff) ^ 2" by (simp add: power2_eq_square mult_ac)
qed

lemma percent_near:
  fixes x :: real
  assumes "0 < pos" "pos \<le> max_i64" "0 < size'" "size' \<le> max_i64" and x: "x = of_int pos * 100 / of_int size'"
  shows "is_fin (percentOfFile pos size')" "x * (1 - 6 * unit_roundoff) \<le> f64_val (percentOfFile pos size')"
    "f64_val (percentOfFile pos size') \<le> x * (1 + 6 * unit_roundoff)"
proof -
  define b where "b = f64_val (f64_of_int size')"
  define m where "m = f64_mult (f64_of_int pos) (f64_of_int 100)"
  note B = near_bounds [OF f64_of_int_near [OF assms(3,4)], folded b_def]
  note M = hundredfold_error [OF assms(1,2) m_def]
  have i: "1 \<le> real_of_int pos" "1 \<le> real_of_int size'" "real_of_int size' \<le> 2 ^ 63"
    using assms(1-4) by (simp_all add: max_i64_def)
  then have range: "1 / 2 \<le> b" "b \<le> 2 ^ 64" using B(2,3) by (simp_all add: unit_roundoff_def)
  have u: "(1 - unit_roundoff) ^ 2 \<le> 1 - unit_roundoff" "1 + unit_roundoff \<le> (1 + unit_roundoff) ^ 2"
    by (simp_all add: unit_roundoff_def power2_eq_square)
  have b: "of_int size' * (1 - unit_roundoff) ^ 2 \<le> b" "b \<le> of_int size' * (1 + unit_roundoff) ^ 2"
    using order_trans [OF mult_left_mono [OF u(1)] B(2)] order_trans [OF B(3) mult_left_mono [OF u(2)]] i(2)
    by simp_all
  have "normal_range (f64_val m / b)"
  proof (rule normal_rangeI)
    have "1 / 2 ^ 64 \<le> f64_val m / b" using M(4,5) range by (intro frac_le) auto
    then show "1 / 2 ^ 200 \<le> f64_val m / b" by (rule order_trans [rotated]) simp
    have "f64_val m / b \<le> 2 ^ 80 / (1 / 2)" using M(4,5) range by (intro frac_le) auto
    then show "f64_val m / b \<le> 2 ^ 200" by (rule order_trans) simp
  qed
  then have "near (percentOfFile pos size') (f64_val m / b)"
    using f64_divide_near [of m "f64_of_int size'"] M(1,4) B(1) range(1) assms(1,3)
    by (simp add: percentOfFile_def m_def b_def pos_fin_def)
  note q = near_bounds [OF this]
  show "is_fin (percentOfFile pos size')" by (rule q(1))
  show "x * (1 - 6 * unit_roundoff) \<le> f64_val (percentOfFile pos size')"
    "f64_val (percentOfFile pos size') \<le> x * (1 + 6 * unit_roundoff)"
    using quotient_error [OF _ _ M(2,3) b q(2,3)] i(1,2) by (simp_all add: x)
qed

text \<open>Rounding does not go beyond a whole number.\<close>

lemma div_even_le: "d > 0 \<Longrightarrow> n \<le> m * d \<Longrightarrow> div_even n d \<le> m"
proof -
  assume d: "d > 0" "n \<le> m * d"
  then have "n div d \<le> m" by (metis div_le_mono nonzero_mult_div_cancel_right not_gr_zero)
  show ?thesis
  proof (cases "n div d = m")
    case True
    with d(2) have "n mod d = 0" by (metis div_mult_mod_eq add_le_same_cancel1 le_zero_eq)
    with True d(1) show ?thesis by (simp add: div_even_def Let_def)
  next
    case False
    with \<open>n div d \<le> m\<close> show ?thesis by (simp add: div_even_def Let_def)
  qed
qed

lemma round_le_whole:
  assumes "num > 0" "den > 0" "num \<le> c * den" "c < 2 ^ 53"
  shows "f64_val (round_f64 False num den) \<le> real c"
proof -
  define e where "e = max (- 1074) (floor_log2 num den - 52)"
  have "num < 2 ^ 53 * den"
    using assms(3) mult_strict_right_mono [OF assms(4,2)] by (rule le_less_trans)
  from floor_log2_le [OF assms(1,2) this] have "e \<le> 0" by (simp add: e_def)
  define k where "k = nat (- e)"
  have e: "e = - int k" using \<open>e \<le> 0\<close> by (simp add: k_def)
  have q: "div_even (num * 2 ^ k) den \<le> c * 2 ^ k"
    using assms(2) mult_right_mono [OF assms(3), of "2 ^ k"] by (intro div_even_le) (simp_all add: mult_ac)
  have "\<not> (e \<ge> 0 \<and> div_even (num * 2 ^ k) den * 2 ^ nat e \<ge> 2 ^ 1024)"
  proof
    assume a: "e \<ge> 0 \<and> div_even (num * 2 ^ k) den * 2 ^ nat e \<ge> 2 ^ 1024"
    then have "k = 0" using e by simp
    with a q e have "(2::nat) ^ 1024 \<le> c" by simp
    moreover have "(2::nat) ^ 53 \<le> 2 ^ 1024" by (rule power_increasing) simp_all
    ultimately show False using assms(4) by linarith
  qed
  then have r: "round_f64 False num den = Fin (int (div_even (num * 2 ^ k) den)) (- int k)"
    using assms(1) by (simp add: round_f64_def e_def [symmetric] Let_def scale2_def e)
  have "real (div_even (num * 2 ^ k) den) \<le> real (c * 2 ^ k)" using q by (simp only: of_nat_le_iff)
  then have "real (div_even (num * 2 ^ k) den) * 2 powi (- int k) \<le> real (c * 2 ^ k) * 2 powi (- int k)"
    by (rule mult_right_mono) simp
  also have "\<dots> = real c" by (simp add: power_int_minus)
  finally show ?thesis by (simp add: r f64_val_def)
qed

lemma divide_whole:
  assumes "is_whole x m" "is_whole y n" "n > 0"
  shows "\<exists>num den. f64_divide x y = round_f64 False num den \<and> den > 0 \<and> num * n = den * m"
proof -
  obtain j k where xy: "x = Fin (int (m * 2 ^ j)) (- int j)" "y = Fin (int (n * 2 ^ k)) (- int k)"
    using assms(1,2) by (auto simp: is_whole_def)
  have ny: "n * 2 ^ k > 0" using assms(3) by simp
  obtain num den where s: "scale2 (- int j - - int k) (m * 2 ^ j) (n * 2 ^ k) = (num, den)"
    by (cases "scale2 (- int j - - int k) (m * 2 ^ j) (n * 2 ^ k)")
  note v = scale2_val [OF s ny]
  have "real num / real den = real m / real n"
    unfolding v(2) using assms(3) by (simp add: power_int_diff power_int_minus)
  then have "real (num * n) = real (den * m)" using v(1) assms(3) by (simp add: field_simps)
  then have "num * n = den * m" by (simp only: of_nat_eq_iff)
  moreover have "f64_divide x y = round_f64 False num den"
  proof -
    have sign: "(int (a * 2 ^ b) < 0) = False" "nat \<bar>int a\<bar> = a" for a b :: nat by (simp_all only: of_nat_less_0_iff abs_of_nat nat_int)
    have "(int (n * 2 ^ k) = 0) = False" using ny by (simp only: of_nat_eq_0_iff) simp
    then show ?thesis using s unfolding f64_divide_def xy
      by (simp only: prod.case f64.case sign if_False Let_def refl not_True_eq_False)
  qed
  ultimately show ?thesis using v(1) by blast
qed

lemma percent_le_100:
  assumes "0 < pos" "pos \<le> size'" "size' \<le> 2 ^ 46"
  shows "f64_val (percentOfFile pos size') \<le> 100"
    and "pos = size' \<Longrightarrow> f64_val (percentOfFile pos size') = 100"
proof -
  have "nat pos * nat 100 < 2 ^ 53" "nat pos \<le> nat size'" using assms by simp_all
  then have m: "is_whole (f64_mult (f64_of_int pos) (f64_of_int 100)) (nat pos * nat 100)"
    using assms by (intro f64_mult_whole f64_of_int_whole) simp_all
  have "is_whole (f64_of_int size') (nat size')" using assms by (intro f64_of_int_whole) simp_all
  from divide_whole [OF m this] assms
  obtain num den where q: "percentOfFile pos size' = round_f64 False num den" "den > 0"
    "num * nat size' = den * (nat pos * nat 100)" by (auto simp: percentOfFile_def)
  have "num > 0" using q(2,3) assms by (cases num) auto
  have "num * nat size' \<le> 100 * den * nat size'"
    unfolding q(3) using mult_left_mono [OF \<open>nat pos \<le> nat size'\<close>, of "100 * den"] by simp
  then have "num \<le> 100 * den" using assms by simp
  then show "f64_val (percentOfFile pos size') \<le> 100"
    using round_le_whole [OF \<open>num > 0\<close> q(2), of 100] q(1) by simp
  assume "pos = size'"
  with q(3) assms have "num = 100 * den" by simp
  with round_whole [of 100 den] q(1,2) have "is_whole (percentOfFile pos size') 100" by simp
  from whole_val [OF this] show "f64_val (percentOfFile pos size') = 100" by simp
qed



section \<open>The rates of a download account for its bytes\<close>

text \<open>
  What the ticks find: later times, byte counts that do not fall, and between two of them fewer
  than \<open>2 ^ 62\<close> bytes a second.
\<close>

fun growing :: "rateTracker \<Rightarrow> (int \<times> int) list \<Rightarrow> bool" where
  "growing rt [] \<longleftrightarrow> True"
| "growing rt ((now, bytes) # ticks) \<longleftrightarrow>
     rt_last rt < now \<and> now - rt_last rt \<le> max_i64 \<and> 0 \<le> rt_bytes rt \<and> rt_bytes rt \<le> bytes \<and> bytes \<le> max_i64 \<and>
     (bytes - rt_bytes rt) * Second < 2 ^ 62 * (now - rt_last rt) \<and>
     growing \<lparr>rt_last = now, rt_bytes = bytes\<rparr> ticks"

text \<open>What a reader of the log makes of it: each rate times the seconds since the line before.\<close>

definition line_rate :: "log_line \<Rightarrow> int" where
  "line_rate l = (case map_of (ll_attrs l) ''bytes_per_sec'' of Some (LInt n) \<Rightarrow> n | _ \<Rightarrow> 0)"

fun logged_bytes :: "int \<Rightarrow> int list \<Rightarrow> log_line list \<Rightarrow> real" where
  "logged_bytes t (now # ts) (l # ls) = of_int (line_rate l) * (of_int (now - t) / 10 ^ 9) + logged_bytes now ts ls"
| "logged_bytes t ts ls = 0"

lemma rate_step:
  assumes "growing rt ((now, bytes) # ticks)" and dt: "dt = of_int (now - rt_last rt) / 10 ^ 9"
    and db: "db = real_of_int (bytes - rt_bytes rt)"
  shows "snd (rate oob rt now bytes) = \<lparr>rt_last = now, rt_bytes = bytes\<rparr>"
    and "of_int (fst (rate oob rt now bytes)) * dt \<le> db * (1 + 6 / 2 ^ 53)"
    and "db * (1 - 6 / 2 ^ 53) - dt \<le> of_int (fst (rate oob rt now bytes)) * dt"
proof -
  define d where "d = now - rt_last rt"
  define b where "b = bytes - rt_bytes rt"
  have g: "0 < d" "d \<le> max_i64" "0 \<le> b" "b \<le> max_i64" "b * Second < 2 ^ 62 * d" "in_i64 b"
    using assms(1) by (simp_all add: d_def b_def i64_bounds)
  have fst_eq: "fst (rate oob rt now bytes) = bytesPerSecond oob b d"
    using g by (simp add: rate_def Let_def time_sub_def sub64_id d_def [symmetric] b_def [symmetric] min_i64_def)
  have "0 < dt" using g(1) by (simp add: dt d_def)
  show "snd (rate oob rt now bytes) = \<lparr>rt_last = now, rt_bytes = bytes\<rparr>" by (simp add: rate_def Let_def)
  have "of_int (bytesPerSecond oob b d) * dt \<le> db * (1 + 6 / 2 ^ 53) \<and>
      db * (1 - 6 / 2 ^ 53) - dt \<le> of_int (bytesPerSecond oob b d) * dt"
  proof (cases "b = 0")
    case True
    then show ?thesis using \<open>0 < dt\<close> by (simp add: bytesPerSecond_def db b_def)
  next
    case False
    define r where "r = of_int b / (of_int d / (10::real) ^ 9)"
    have rdt: "r * dt = db" using \<open>0 < dt\<close> by (simp add: r_def dt d_def [symmetric] db b_def [symmetric])
    have "real_of_int (b * Second) < of_int (2 ^ 62 * d)" using g(5) by (simp only: of_int_less_iff)
    then have "r < 2 ^ 62" using g(1) by (simp add: r_def Second_def field_simps)
    note n = bytesPerSecond_near [OF _ g(4,1,2) r_def this, of oob]
    have "0 < b" using False g(3) by simp
    from mult_right_mono [OF n(2) [OF this], of dt] mult_right_mono [OF less_imp_le [OF n(1) [OF this]], of dt] \<open>0 < dt\<close>
    have "of_int (bytesPerSecond oob b d) * dt \<le> (r * dt) * (1 + 6 / 2 ^ 53)"
      "(r * dt) * (1 - 6 / 2 ^ 53) - dt \<le> of_int (bytesPerSecond oob b d) * dt"
      by (simp_all add: algebra_simps)
    then show ?thesis unfolding rdt by blast
  qed
  then show "of_int (fst (rate oob rt now bytes)) * dt \<le> db * (1 + 6 / 2 ^ 53)"
    and "db * (1 - 6 / 2 ^ 53) - dt \<le> of_int (fst (rate oob rt now bytes)) * dt"
    unfolding fst_eq by blast+
qed

text \<open>
  The progress lines of a sequential download: there is one for every tick, and their rates, each
  taken for the time since the line before, add up to the bytes written so far, but for one byte
  per second and the rounding of the floats. What was not logged is not lost, as every rate
  goes on from the sample before.
\<close>

theorem download_rates_add_up:
  fixes D :: real
  assumes "growing rt (map (\<lambda>(t, w, c). (t, w)) ticks)"
    and "lines = logDownloadProgress oob i mode size' rt ticks"
    and "ticks \<noteq> []" and "D = of_int (fst (snd (last ticks)) - rt_bytes rt)"
  shows "length lines = length ticks \<and>
    logged_bytes (rt_last rt) (map fst ticks) lines \<le> D * (1 + 6 / 2 ^ 53) \<and>
    D * (1 - 6 / 2 ^ 53) - of_int (fst (last ticks) - rt_last rt) / 10 ^ 9
      \<le> logged_bytes (rt_last rt) (map fst ticks) lines"
  using assms
proof (induction ticks arbitrary: rt lines D)
  case (Cons x ticks)
  obtain now w c where x: "x = (now, w, c)" by (cases x)
  define rt' where "rt' = \<lparr>rt_last = now, rt_bytes = w\<rparr>"
  define dt where "dt = real_of_int (now - rt_last rt) / 10 ^ 9"
  note step = rate_step [OF Cons.prems(1) [unfolded x list.map prod.case] dt_def refl, of oob]
  define r where "r = fst (rate oob rt now w)"
  have rate: "rate oob rt now w = (r, rt')" using step(1) by (simp add: r_def rt'_def prod_eq_iff)
  obtain l where ls: "lines = l # logDownloadProgress oob i mode size' rt' ticks" and l: "line_rate l = r"
    using Cons.prems(2) by (simp add: x rate Let_def line_rate_def)
  have g: "growing rt' (map (\<lambda>(t, w, c). (t, w)) ticks)" using Cons.prems(1) by (simp add: x rt'_def)
  show ?case
  proof (cases "ticks = []")
    case True
    then show ?thesis using step(2,3) Cons.prems(4) ls l by (simp add: x r_def dt_def)
  next
    case False
    note IH = Cons.IH [OF g refl False refl]
    have D: "D = of_int (w - rt_bytes rt) + of_int (fst (snd (last ticks)) - rt_bytes rt')"
      using Cons.prems(4) False by (simp add: x rt'_def)
    have t: "real_of_int (fst (last ticks) - rt_last rt) / 10 ^ 9 = dt + of_int (fst (last ticks) - rt_last rt') / 10 ^ 9"
      by (simp add: dt_def rt'_def diff_divide_distrib)
    have sum: "logged_bytes (rt_last rt) (map fst (x # ticks)) lines =
        of_int r * dt + logged_bytes (rt_last rt') (map fst ticks) (logDownloadProgress oob i mode size' rt' ticks)"
      unfolding ls using l by (simp add: x dt_def rt'_def)
    have last: "last (x # ticks) = last ticks" using False by simp
    have len: "length lines = length (x # ticks)" using IH ls by simp
    show ?thesis unfolding sum last t D distrib_right
      using IH step(2,3) [folded r_def] len by linarith
  qed
qed simp

theorem download_rates_add_up_witness:
  "length (logDownloadProgress (\<lambda>_. 0) ''v'' ''sequential'' 0 \<lparr>rt_last = 0, rt_bytes = 0\<rparr>
     [(30000000000, 5000000, -1), (60000000017, 9000000, -1)]) = 2"
  using download_rates_add_up [of "\<lparr>rt_last = 0, rt_bytes = 0\<rparr>"
      "[(30000000000, 5000000, -1), (60000000017, 9000000, -1)]", OF _ refl _ refl, of "\<lambda>_. 0" "''v''" "''sequential''" 0]
  by (simp add: Second_def max_i64_def)

end
