(* ===== verification/Wrapper.thy ===== *)
theory Wrapper
  imports Handlers
begin

text \<open>
  The wrapper binary (wrapper/main.go, wrapper/logger.go), which the game calls in the place
  of yt-dlp: the reading of its arguments, the request to the server, what it prints and its
  exit code, and the fan-out of its log. The answer of the server is an argument.
\<close>

section \<open>The arguments\<close>

record wrapperRequest =
  wr_URL :: string
  wr_AVPro :: bool
  wr_Source :: string

definition isAbsoluteHTTPURL :: "string \<Rightarrow> bool" where
  "isAbsoluteHTTPURL rawURL =
     (case Parse rawURL of
        None \<Rightarrow> False
      | Some u \<Rightarrow> (u_scheme u = ''http'' \<or> u_scheme u = ''https'') \<and> u_host u \<noteq> '''')"

fun args_loop :: "string list \<Rightarrow> wrapperRequest \<Rightarrow> wrapperRequest" where
  "args_loop [] req = req"
| "args_loop (arg # args) req =
     (if Contains arg ''[protocol^=http]'' then args_loop args (req\<lparr>wr_AVPro := False\<rparr>)
      else if Contains arg ''--flat-playlist'' then args_loop args (req\<lparr>wr_Source := ''resonite''\<rparr>)
      else if isAbsoluteHTTPURL arg \<and> wr_URL req = '''' then args_loop args (req\<lparr>wr_URL := arg\<rparr>)
      else args_loop args req)"

definition parseWrapperRequest :: "string list \<Rightarrow> go_error + wrapperRequest" where
  "parseWrapperRequest args =
     (let req = args_loop args \<lparr>wr_URL = '''', wr_AVPro = True, wr_Source = ''vrchat''\<rparr>
      in if wr_URL req = '''' then Inl (Msg ''no http(s) URL found in arguments'') else Inr req)"

section \<open>The request\<close>

text \<open>
  \<open>url.Values\<close> as the list of its pairs, the values of a key in their order: \<open>Set\<close>, and
  \<open>Encode\<close> by ascending keys.
\<close>

definition values_set :: "string \<Rightarrow> string \<Rightarrow> (string \<times> string) list \<Rightarrow> (string \<times> string) list" where
  "values_set k v q = filter (\<lambda>p. fst p \<noteq> k) q @ [(k, v)]"

definition encode_pair :: "string \<times> string \<Rightarrow> string" where
  "encode_pair p = QueryEscape (fst p) @ CHR ''='' # QueryEscape (snd p)"

fun join_amp :: "string list \<Rightarrow> string" where
  "join_amp [] = ''''"
| "join_amp [s] = s"
| "join_amp (s # ss) = s @ CHR ''&'' # join_amp ss"

definition values_encode :: "(string \<times> string) list \<Rightarrow> string" where
  "values_encode q = join_amp (map encode_pair (sort_key fst q))"

definition TrimRight :: "string \<Rightarrow> char \<Rightarrow> string" where
  "TrimRight s c = rev (dropWhile (\<lambda>x. x = c) (rev s))"

definition endpoint_query :: "url \<Rightarrow> wrapperRequest \<Rightarrow> string" where
  "endpoint_query base req =
     values_encode (values_set ''source'' (wr_Source req)
       (values_set ''avpro'' (if wr_AVPro req then ''true'' else ''false'')
         (values_set ''url'' (wr_URL req) (ParseQuery (u_rawQuery base)))))"

definition getVideoEndpoint :: "string \<Rightarrow> wrapperRequest \<Rightarrow> go_error + string" where
  "getVideoEndpoint serverURL req =
     (case Parse (TrimSpace serverURL) of
        None \<Rightarrow> Inl (Msg ''invalid VRCVP_SERVER_URL'')
      | Some base \<Rightarrow>
          if u_scheme base = '''' \<or> u_host base = '''' then Inl (Msg ''invalid VRCVP_SERVER_URL'')
          else if u_scheme base \<noteq> ''http'' \<and> u_scheme base \<noteq> ''https''
          then Inl (Msg ''VRCVP_SERVER_URL must use http or https'')
          else Inr (url_string (base\<lparr>u_path := TrimRight (u_path base) (CHR ''/'') @ ''/api/getvideo'',
                                     u_rawQuery := endpoint_query base req\<rparr>)))"

record server_answer =
  sa_status :: nat
  sa_statusText :: string
  sa_body :: string
  sa_readError :: "go_error option"

definition fetchVideo ::
  "(string \<Rightarrow> go_error + server_answer) \<Rightarrow> string \<Rightarrow> wrapperRequest \<Rightarrow> go_error + string" where
  "fetchVideo call serverURL req =
     (case getVideoEndpoint serverURL req of
        Inl e \<Rightarrow> Inl e
      | Inr endpoint \<Rightarrow>
          if Parse endpoint = None then Inl (Msg ''invalid URL'')
          else (case call endpoint of
              Inl e \<Rightarrow> Inl e
            | Inr a \<Rightarrow>
                (case sa_readError a of
                   Some e \<Rightarrow> Inl e
                 | None \<Rightarrow>
                     if sa_status a < 200 \<or> sa_status a \<ge> 300 then
                       (let message = TrimSpace (sa_body a)
                        in Inl (Msg (''server returned '' @ sa_statusText a @ '': '' @
                                (if message = '''' then sa_statusText a else message))))
                     else Inr (sa_body a))))"

section \<open>The run\<close>

text \<open>
  Exit code and standard output. \<open>wr k\<close> is what the first write does: the number of bytes
  it takes and its error; the line feed is written without a look at the error.
\<close>

definition run ::
  "(string \<Rightarrow> string) \<Rightarrow> (string \<Rightarrow> go_error + server_answer) \<Rightarrow> (string \<Rightarrow> nat \<times> go_error option) \<Rightarrow>
   string list \<Rightarrow> int \<times> string" where
  "run env call wr args =
     (let fromEnv = TrimSpace (env ''VRCVP_SERVER_URL'');
          serverURL = (if fromEnv = '''' then ''http://127.0.0.1:8080'' else fromEnv)
      in case parseWrapperRequest args of
           Inl _ \<Rightarrow> (1, '''')
         | Inr req \<Rightarrow>
             (case fetchVideo call serverURL req of
                Inl _ \<Rightarrow> (1, '''')
              | Inr body \<Rightarrow>
                  (case wr body of
                     (n, Some _) \<Rightarrow> (1, take n body)
                   | (_, None) \<Rightarrow>
                       (0, body @ (if body = '''' \<or> last body \<noteq> CHR 0x0A then [CHR 0x0A] else '''')))))"

section \<open>The log\<close>

definition wrapper_level :: "string \<Rightarrow> level" where
  "wrapper_level s =
     (let v = ToLower (TrimSpace s)
      in if v = ''debug'' then Debug
         else if v = ''warn'' \<or> v = ''warning'' then Warn
         else if v = ''error'' then Error
         else Info)"

text \<open>A handler has a level and may fail; the log file is there on the debug level alone.\<close>

record slog_handler =
  sh_level :: level
  sh_fails :: "go_error option"

definition newLogger :: "go_error option \<Rightarrow> (go_error option) option \<Rightarrow> level \<Rightarrow> slog_handler list" where
  "newLogger stderr_err debug_file l =
     \<lparr>sh_level = l, sh_fails = stderr_err\<rparr> #
     (if l = Debug then (case debug_file of None \<Rightarrow> [] | Some e \<Rightarrow> [\<lparr>sh_level = Debug, sh_fails = e\<rparr>]) else [])"

fun multi_Enabled :: "slog_handler list \<Rightarrow> level \<Rightarrow> bool" where
  "multi_Enabled [] l = False"
| "multi_Enabled (h # hs) l = (enabled (sh_level h) l \<or> multi_Enabled hs l)"

text \<open>The handlers that get a record, by their position, and the first error.\<close>

fun handle_loop :: "slog_handler list \<Rightarrow> level \<Rightarrow> nat \<Rightarrow> nat list \<Rightarrow> go_error option \<Rightarrow> nat list \<times> go_error option" where
  "handle_loop [] l n shown firstErr = (shown, firstErr)"
| "handle_loop (h # hs) l n shown firstErr =
     (if \<not> enabled (sh_level h) l then handle_loop hs l (Suc n) shown firstErr
      else handle_loop hs l (Suc n) (shown @ [n])
             (case (sh_fails h, firstErr) of (Some e, None) \<Rightarrow> Some e | _ \<Rightarrow> firstErr))"

definition multi_Handle :: "slog_handler list \<Rightarrow> level \<Rightarrow> nat list \<times> go_error option" where
  "multi_Handle hs l = handle_loop hs l 0 [] None"

definition redactURLForLog :: "string \<Rightarrow> string" where
  "redactURLForLog rawURL =
     (if rawURL = '''' then ''''
      else case Parse rawURL of
          None \<Rightarrow> ''<invalid-url>''
        | Some u \<Rightarrow>
            if u_scheme u = '''' \<or> u_host u = '''' then ''<invalid-url>''
            else (let u = (if u_rawQuery u \<noteq> '''' then u\<lparr>u_rawQuery := ''<redacted>''\<rparr> else u);
                      u = (if u_fragment u \<noteq> '''' then u\<lparr>u_fragment := ''<redacted>''\<rparr> else u)
                  in url_string u))"


section \<open>The server understands the wrapper\<close>

lemma query_encode_pair: "query_pair (encode_pair p) = Some p"
proof -
  have "CHR '';'' \<notin> set (encode_pair p)" "Cut (encode_pair p) (CHR ''='') = Some (QueryEscape (fst p), QueryEscape (snd p))"
    using QueryEscape_separators by (simp_all add: encode_pair_def Cut_append)
  moreover have "encode_pair p \<noteq> ''''" by (simp add: encode_pair_def)
  ultimately show ?thesis by (simp add: query_pair_def query.dec_enc)
qed

lemma split_join_amp:
  "\<forall>s\<in>set (s # ss). CHR ''&'' \<notin> set s \<Longrightarrow> split_on (CHR ''&'') (join_amp (s # ss)) = s # ss"
  by (induction ss arbitrary: s) (simp_all add: split_on_append split_on_single)

text \<open>The pairs of a query string are a codec, applied to each element of a list.\<close>

interpretation pair: codec "\<lambda>_. True" encode_pair query_pair
  by unfold_locales (rule query_encode_pair)

text \<open>The round trip of a query.\<close>

lemma ParseQuery_encode: "ParseQuery (values_encode q) = sort_key fst q"
proof (cases "sort_key fst q")
  case Nil
  then show ?thesis by (simp add: values_encode_def ParseQuery_def List.map_filter_def query_pair_def)
next
  case (Cons p ps)
  have "CHR ''&'' \<notin> set (encode_pair r)" for r
    using QueryEscape_separators by (simp add: encode_pair_def)
  then have "split_on (CHR ''&'') (values_encode q) = map encode_pair (p # ps)"
    unfolding values_encode_def Cons list.map(2) by (intro split_join_amp) auto
  then show ?thesis unfolding ParseQuery_def Cons by (simp only:) (rule pair.dec_all, simp add: list_all_iff)
qed

lemma map_of_only: "(k, v) \<in> set xs \<Longrightarrow> \<forall>p\<in>set xs. fst p = k \<longrightarrow> p = (k, v) \<Longrightarrow> map_of xs k = Some v"
  by (induction xs) auto

lemma query_get_set:
  assumes "q = values_set k3 v3 (values_set k2 v2 (values_set k1 v1 q0))" and "distinct [k1, k2, k3]"
  shows "query_get (values_encode q) k1 = v1" "query_get (values_encode q) k2 = v2" "query_get (values_encode q) k3 = v3"
proof -
  have "map_of (sort_key fst q) k = Some v" if "(k, v) \<in> {(k1, v1), (k2, v2), (k3, v3)}" for k v
    using that assms by (intro map_of_only) (auto simp: values_set_def)
  from this [of k1 v1] this [of k2 v2] this [of k3 v3] show "query_get (values_encode q) k1 = v1" "query_get (values_encode q) k2 = v2" "query_get (values_encode q) k3 = v3"
    unfolding query_get_def ParseQuery_encode by simp_all
qed

lemma endpoint_understood:
  assumes "getVideoEndpoint serverURL req = Inr endpoint"
    and "TrimSpace (wr_URL req) = wr_URL req" and "ParseRequestURI (wr_URL req) = Some u"
    and "u_scheme u = ''http'' \<or> u_scheme u = ''https''"
    and "TrimSpace (wr_Source req) = wr_Source req" and "wr_Source req \<noteq> ''''"
  shows "\<exists>target. endpoint = url_string target \<and> HasSuffix (u_path target) ''/api/getvideo'' \<and>
    parseVideoRequest (u_rawQuery target) =
      Inr \<lparr>vr_URL = wr_URL req, vr_AVPro = wr_AVPro req, vr_Source = wr_Source req\<rparr>"
proof -
  obtain base where base: "endpoint = url_string (base\<lparr>u_path := TrimRight (u_path base) (CHR ''/'') @ ''/api/getvideo'',
      u_rawQuery := endpoint_query base req\<rparr>)"
    using assms(1) by (auto simp: getVideoEndpoint_def split: option.splits if_splits)
  have q: "query_get (endpoint_query base req) ''url'' = wr_URL req"
    "query_get (endpoint_query base req) ''avpro'' = (if wr_AVPro req then ''true'' else ''false'')"
    "query_get (endpoint_query base req) ''source'' = wr_Source req"
    unfolding endpoint_query_def by (rule query_get_set [OF refl], simp)+
  have "wr_URL req \<noteq> ''''"
    using assms(3) by (auto simp: ParseRequestURI_def parseURL_def)
  moreover have "EqualFold ''true'' ''true''" "\<not> EqualFold ''false'' ''true''" by code_simp+
  ultimately have "parseVideoRequest (endpoint_query base req) =
      Inr \<lparr>vr_URL = wr_URL req, vr_AVPro = wr_AVPro req, vr_Source = wr_Source req\<rparr>"
    using assms(2-6) by (auto simp: parseVideoRequest_def q)
  with base show ?thesis
    by (intro exI [of _ "base\<lparr>u_path := TrimRight (u_path base) (CHR ''/'') @ ''/api/getvideo'',
      u_rawQuery := endpoint_query base req\<rparr>"]) (simp add: HasSuffix_def suffix_def)
qed

text \<open>
  The two binaries agree: a request of the wrapper goes to \<open>/api/getvideo\<close> of the
  configured server, and its query string, whatever other parameters the configured URL has, is
  read by the server as exactly the URL, the player and the source the wrapper means.
\<close>

theorem wrapper_request_understood:
  assumes "getVideoEndpoint serverURL req = Inr endpoint"
    and "TrimSpace (wr_URL req) = wr_URL req" and "ParseRequestURI (wr_URL req) = Some u"
    and "u_scheme u = ''http'' \<or> u_scheme u = ''https''"
    and "TrimSpace (wr_Source req) = wr_Source req" and "wr_Source req \<noteq> ''''"
  shows "\<exists>target. endpoint = url_string target \<and> HasSuffix (u_path target) ''/api/getvideo'' \<and>
    parseVideoRequest (u_rawQuery target) =
      Inr \<lparr>vr_URL = wr_URL req, vr_AVPro = wr_AVPro req, vr_Source = wr_Source req\<rparr>"
  using assms by (rule endpoint_understood)

definition demo_request :: wrapperRequest where
  "demo_request = \<lparr>wr_URL = ''http://h/v?a=1&b=2'', wr_AVPro = True, wr_Source = ''vrchat''\<rparr>"

lemma demo_requestE:
  obtains endpoint u where "getVideoEndpoint ''http://127.0.0.1:8080'' demo_request = Inr endpoint"
    and "TrimSpace (wr_URL demo_request) = wr_URL demo_request"
    and "ParseRequestURI (wr_URL demo_request) = Some u" and "u_scheme u = ''http''"
    and "TrimSpace (wr_Source demo_request) = wr_Source demo_request"
proof -
  have "map_option (\<lambda>u. (u_scheme u, u_host u)) (Parse (TrimSpace ''http://127.0.0.1:8080'')) = Some (''http'', ''127.0.0.1:8080'')"
    by code_simp
  then obtain endpoint where "getVideoEndpoint ''http://127.0.0.1:8080'' demo_request = Inr endpoint"
    by (auto simp: getVideoEndpoint_def demo_request_def)
  moreover have "map_option u_scheme (ParseRequestURI ''http://h/v?a=1&b=2'') = Some ''http''" by code_simp
  then obtain u where "ParseRequestURI ''http://h/v?a=1&b=2'' = Some u" "u_scheme u = ''http''" by auto
  moreover have "TrimSpace ''http://h/v?a=1&b=2'' = ''http://h/v?a=1&b=2''" "TrimSpace ''vrchat'' = ''vrchat''" by code_simp+
  ultimately show thesis using that by (simp add: demo_request_def)
qed

theorem wrapper_request_understood_witness:
  "\<exists>target :: url. HasSuffix (u_path target) ''/api/getvideo'' \<and>
    parseVideoRequest (u_rawQuery target) = Inr \<lparr>vr_URL = ''http://h/v?a=1&b=2'', vr_AVPro = True, vr_Source = ''vrchat''\<rparr>"
proof -
  obtain endpoint u where d: "getVideoEndpoint ''http://127.0.0.1:8080'' demo_request = Inr endpoint"
    "TrimSpace (wr_URL demo_request) = wr_URL demo_request"
    "ParseRequestURI (wr_URL demo_request) = Some u" "u_scheme u = ''http''"
    "TrimSpace (wr_Source demo_request) = wr_Source demo_request"
    by (rule demo_requestE)
  from wrapper_request_understood [OF d(1-3) _ d(5)] d(4) show ?thesis
    by (auto simp: demo_request_def)
qed

text \<open>The arguments in one look: the first URL, and whether an argument switches player or source.\<close>

definition plain_arg :: "string \<Rightarrow> bool" where
  "plain_arg a \<longleftrightarrow> \<not> Contains a ''[protocol^=http]'' \<and> \<not> Contains a ''--flat-playlist''"

lemma args_loop_eq:
  "args_loop args req =
     req\<lparr>wr_URL := (if wr_URL req \<noteq> '''' then wr_URL req
                   else case List.find (\<lambda>a. plain_arg a \<and> isAbsoluteHTTPURL a) args of Some a \<Rightarrow> a | None \<Rightarrow> ''''),
         wr_AVPro := (wr_AVPro req \<and> \<not> list_ex (\<lambda>a. Contains a ''[protocol^=http]'') args),
         wr_Source := (if list_ex (\<lambda>a. \<not> Contains a ''[protocol^=http]'' \<and> Contains a ''--flat-playlist'') args
                       then ''resonite'' else wr_Source req)\<rparr>"
proof (induction args arbitrary: req)
  case (Cons a args)
  have "\<not> isAbsoluteHTTPURL ''''" by code_simp
  then have "isAbsoluteHTTPURL a \<Longrightarrow> a \<noteq> ''''" by blast
  with Cons show ?case by (auto simp: plain_arg_def)
qed simp




section \<open>URLs in logs\<close>

text \<open>A parsed fragment and its raw form agree.\<close>

lemma setPath_fragment: "setPath p u = Some v \<Longrightarrow> u_fragment v = u_fragment u \<and> u_rawFragment v = u_rawFragment u"
  by (auto simp: setPath_def split: option.splits)

lemma parseURL_fragment:
  assumes "parseURL via raw = Some u"
  shows "u_fragment u = '''' \<and> u_rawFragment u = ''''"
proof -
  have e: "u_fragment empty_url = ''''" "u_rawFragment empty_url = ''''" by (simp_all add: empty_url_def)
  show ?thesis
    using assms unfolding parseURL_def Let_def
    by (simp split: if_split_asm option.split_asm prod.split_asm) (auto simp: e dest!: setPath_fragment)
qed

lemma Parse_fragment:
  assumes "Parse raw = Some u"
  shows "u_rawFragment u = '''' \<or> url_unescape InFragment (u_rawFragment u) = Some (u_fragment u)"
proof (cases "Cut raw (CHR ''#'')")
  case None
  with assms show ?thesis by (simp add: Parse_def parseURL_fragment)
next
  case (Some p)
  then show ?thesis
    using assms
    by (cases p) (auto simp: Parse_def setFragment_def dest: parseURL_fragment split: option.split_asm if_split_asm)
qed

text \<open>What is printed of a URL: its raw form is dropped with the fragment.\<close>

lemma redact_eq:
  assumes "Parse a = Some u" and "a \<noteq> ''''" and "u_fragment u \<noteq> ''<redacted>''"
  shows "redactURLForLog a =
    (if u_scheme u = '''' \<or> u_host u = '''' then ''<invalid-url>''
     else u_scheme u @ '':'' @ (if u_opaque u \<noteq> '''' then u_opaque u else hier_part u) @
       (if u_rawQuery u \<noteq> '''' then ''?<redacted>'' else if u_forceQuery u then ''?'' else '''') @
       (if u_fragment u \<noteq> '''' then ''#'' @ url_escape InFragment ''<redacted>'' else ''''))"
proof -
  have frag: "EscapedFragment v = url_escape InFragment ''<redacted>''"
    if "u_fragment v = ''<redacted>''" "u_rawFragment v = u_rawFragment u" for v
    using Parse_fragment [OF assms(1)] assms(3) that by (auto simp: EscapedFragment_def simp del: url_escape.simps)
  have hier: "hier_part (u\<lparr>u_rawQuery := x\<rparr>) = hier_part u" "hier_part (u\<lparr>u_fragment := y\<rparr>) = hier_part u"
    "hier_part (u\<lparr>u_rawQuery := x, u_fragment := y\<rparr>) = hier_part u" for x y
    by (simp_all add: hier_part_def EscapedPath_def)
  show ?thesis
    using assms(1,2) by (simp add: redactURLForLog_def url_string_def Let_def hier frag del: url_escape.simps)
qed

text \<open>
  redactURLForLog: the line in the log does not depend on the query, where the signed
  tokens are, nor on the fragment: two URLs that differ in nothing else, with the same of the
  two parts empty, give the same text.
\<close>

theorem redacted_log:
  assumes "Parse a = Some u" and "Parse b = Some (u\<lparr>u_rawQuery := q, u_fragment := f, u_rawFragment := rf\<rparr>)"
    and "q = '''' \<longleftrightarrow> u_rawQuery u = ''''" and "f = '''' \<longleftrightarrow> u_fragment u = ''''"
    and "f \<noteq> ''<redacted>''" and "u_fragment u \<noteq> ''<redacted>''" and "a \<noteq> ''''" and "b \<noteq> ''''"
  shows "redactURLForLog a = redactURLForLog b"
proof -
  have "hier_part (u\<lparr>u_rawQuery := q, u_fragment := f, u_rawFragment := rf\<rparr>) = hier_part u"
    by (simp add: hier_part_def EscapedPath_def)
  then show ?thesis
    using redact_eq [OF assms(1,7,6)] redact_eq [OF assms(2,8)] assms(3-5) by (simp del: url_escape.simps)
qed

theorem redacted_log_witness:
  "redactURLForLog ''http://h/a?t=secret'' = redactURLForLog ''http://h/a?t=other''"
proof -
  have "Parse ''http://h/a?t=secret'' = Some (empty_url\<lparr>u_scheme := ''http'', u_host := ''h'', u_path := ''/a'', u_rawQuery := ''t=secret''\<rparr>)"
    "Parse ''http://h/a?t=other'' = Some (empty_url\<lparr>u_scheme := ''http'', u_host := ''h'', u_path := ''/a'', u_rawQuery := ''t=other''\<rparr>)"
    by code_simp+
  then show ?thesis
    using redacted_log [where a = "''http://h/a?t=secret''" and b = "''http://h/a?t=other''" and q = "''t=other''"
        and f = "''''" and rf = "''''" and u = "empty_url\<lparr>u_scheme := ''http'', u_host := ''h'', u_path := ''/a'',
          u_rawQuery := ''t=secret''\<rparr>"]
    by (simp add: empty_url_def del: url_escape.simps)
qed

end
