(* ===== verification/Server_Log.thy ===== *)
theory Server_Log
  imports Throughput Wrapper
begin

text \<open>
  What the server's log tells of an answer: \<open>redactURLForLog\<close> of logging.go, which is the
  wrapper's once more, and \<open>logPlaybackResponse\<close> of handler.go. The line must not give away the signed
  link to a live stream, which is shown as non-interference.
\<close>

section \<open>The line\<close>

definition server_redactURLForLog :: "string \<Rightarrow> string" where
  "server_redactURLForLog rawURL =
     (if rawURL = '''' then ''''
      else case Parse rawURL of
          None \<Rightarrow> ''<invalid-url>''
        | Some parsedURL \<Rightarrow>
            if u_scheme parsedURL = '''' \<or> u_host parsedURL = '''' then ''<invalid-url>''
            else (let u = (if u_rawQuery parsedURL \<noteq> '''' then parsedURL\<lparr>u_rawQuery := ''<redacted>''\<rparr> else parsedURL);
                      u = (if u_fragment u \<noteq> '''' then u\<lparr>u_fragment := ''<redacted>''\<rparr> else u)
                  in url_string u))"

definition logPlaybackResponse :: "string \<Rightarrow> ytdlpMetadata \<Rightarrow> log_line" where
  "logPlaybackResponse source m =
     \<lparr>ll_level = Info, ll_msg = ''returning playback url'',
      ll_attrs = [(''source'', LStr source), (''cache'', LStr (field_or_empty m ''_cache'')),
        (''url'', LStr (server_redactURLForLog (field_or_empty m ''url''))),
        (''original_url'', LStr (server_redactURLForLog (field_or_empty m ''original_url'')))]\<rparr>"

section \<open>A query does not show\<close>

text \<open>A query as it stands behind the question mark: nothing in it ends it, and it may stand in a URL.\<close>

definition plain_query :: "string \<Rightarrow> bool" where
  "plain_query q \<longleftrightarrow> q \<noteq> '''' \<and> CHR ''#'' \<notin> set q \<and> \<not> list_ex is_ctl q"

lemma scheme_loop_query:
  assumes "CHR ''?'' \<notin> set s" and "raw = pre @ s" and "acc \<noteq> '''' \<or> pre = ''''"
  shows "scheme_loop (raw @ CHR ''?'' # q) acc (s @ CHR ''?'' # q) =
    map_option (\<lambda>(sch, r). (sch, r @ CHR ''?'' # q)) (scheme_loop raw acc s)"
  using assms
proof (induction s arbitrary: acc pre)
  case Nil
  have "\<not> is_alpha (CHR ''?'')" "\<not> is_digit (CHR ''?'')" by code_simp+
  then show ?case by simp
next
  case (Cons c s)
  show ?case
  proof (cases "is_alpha c \<or> (is_digit c \<or> c \<in> set ''+-.'') \<and> acc \<noteq> ''''")
    case True
    from Cons.IH [of "pre @ [c]" "acc @ [c]"] Cons.prems True show ?thesis by auto
  next
    case False
    with Cons.prems show ?thesis by auto
  qed
qed

lemma getScheme_query:
  "CHR ''?'' \<notin> set b \<Longrightarrow>
   getScheme (b @ CHR ''?'' # q) = map_option (\<lambda>(sch, r). (sch, r @ CHR ''?'' # q)) (getScheme b)"
  unfolding getScheme_def by (rule scheme_loop_query [of _ _ "[]"]) simp_all

lemma scheme_loop_rest: "scheme_loop raw acc s = Some (sch, r) \<Longrightarrow> set s \<subseteq> set raw \<Longrightarrow> set r \<subseteq> set raw"
  by (induction s arbitrary: acc) (auto split: if_splits)

lemma getScheme_rest: "getScheme raw = Some (sch, r) \<Longrightarrow> set r \<subseteq> set raw"
  unfolding getScheme_def by (drule scheme_loop_rest) simp_all

lemma parseURL_query:
  assumes "CHR ''?'' \<notin> set b" and "plain_query q" and "plain_query q'"
  shows "parseURL False (b @ CHR ''?'' # q') =
    map_option (\<lambda>u. u\<lparr>u_rawQuery := q'\<rparr>) (parseURL False (b @ CHR ''?'' # q))"
proof (cases "getScheme b")
  case None
  have "b @ CHR ''?'' # x \<noteq> ''*''" for x by (cases b) auto
  with None show ?thesis using assms by (simp add: parseURL_def getScheme_query)
next
  case (Some p)
  obtain sch r where p: "p = (sch, r)" by (cases p)
  have "CHR ''?'' \<notin> set r" using getScheme_rest Some p assms(1) by blast
  then have split: "splitQuery (r @ CHR ''?'' # x) = (r, False, x)" if "plain_query x" for x
    using that by (simp add: splitQuery_def Cut_append plain_query_def)
  have ctl: "list_ex is_ctl (b @ CHR ''?'' # x) = list_ex is_ctl b" if "plain_query x" for x
    using that by (simp add: plain_query_def is_ctl_def)
  have star: "b @ CHR ''?'' # x \<noteq> ''*''" for x by (cases b) auto
  have schm: "getScheme (b @ CHR ''?'' # x) = Some (sch, r @ CHR ''?'' # x)" for x
    using getScheme_query [OF assms(1), of x] Some p by simp
  show ?thesis
    unfolding parseURL_def schm option.case prod.case split [OF assms(2)] split [OF assms(3)]
      ctl [OF assms(2)] ctl [OF assms(3)] empty_url_def Let_def
    by (simp add: star setPath_def split: option.split prod.split)
qed

lemma redacted_query:
  assumes "CHR ''?'' \<notin> set b" "CHR ''#'' \<notin> set b" and "plain_query q" and "plain_query q'"
  shows "server_redactURLForLog (b @ CHR ''?'' # q') = server_redactURLForLog (b @ CHR ''?'' # q)"
proof -
  have parse: "Parse (b @ CHR ''?'' # x) = parseURL False (b @ CHR ''?'' # x)" if "plain_query x" for x
  proof -
    have "Cut (b @ CHR ''?'' # x) (CHR ''#'') = None" using that assms(2) by (simp add: Cut_None plain_query_def)
    then show ?thesis by (simp add: Parse_def)
  qed
  show ?thesis
  proof (cases "parseURL False (b @ CHR ''?'' # q)")
    case None
    then show ?thesis using parseURL_query [OF assms(1,3,4)] parse [OF assms(3)] parse [OF assms(4)]
      by (simp add: server_redactURLForLog_def)
  next
    case (Some u)
    have u': "parseURL False (b @ CHR ''?'' # q') = Some (u\<lparr>u_rawQuery := q'\<rparr>)"
      using parseURL_query [OF assms(1,3,4)] Some by simp
    have "u = u\<lparr>u_rawQuery := q\<rparr>" using parseURL_query [OF assms(1,3,3)] Some by simp
    then have "u_rawQuery u \<noteq> ''''" using assms(3) by (metis plain_query_def url.select_convs(9) url.surjective url.update_convs(9))
    moreover have "q' \<noteq> ''''" using assms(4) by (simp add: plain_query_def)
    ultimately show ?thesis using parseURL_fragment [OF Some] parse [OF assms(3)] parse [OF assms(4)] Some u'
      by (simp add: server_redactURLForLog_def Let_def)
  qed
qed

section \<open>The link to a live stream does not show\<close>

lemma token_query_plain: "plain_query (''t='' @ QueryEscape x)"
proof -
  have "\<not> list_ex is_ctl (QueryEscape x)"
  proof
    assume "list_ex is_ctl (QueryEscape x)"
    then obtain c where c: "is_ctl c" "c \<in> set (QueryEscape x)" by (auto simp: list_ex_iff)
    have "(of_char c :: nat) \<in> set ([0..<32] @ [127])" using c(1) by (auto simp: is_ctl_def)
    then have "char_of (of_char c :: nat) \<in> set (map char_of ([0..<32] @ [127]))" unfolding set_map by (rule imageI)
    moreover have "list_all (\<lambda>c. should_escape InQuery c \<and> c \<noteq> CHR ''%'' \<and> c \<noteq> CHR ''+'')
        (map char_of ([0..<32] @ [127 :: nat]))" by code_simp
    ultimately have "should_escape InQuery c \<and> c \<noteq> CHR ''%'' \<and> c \<noteq> CHR ''+''"
      unfolding list_all_iff char_of_char by blast
    with QueryEscape_chars c(2) show False by blast
  qed
  moreover have "CHR ''#'' \<notin> set (QueryEscape x)"
    by (rule QueryEscape_chars; code_simp)
  moreover have "\<not> list_ex is_ctl ''t=''" by code_simp
  ultimately show ?thesis by (simp add: plain_query_def)
qed

lemma replaced_url: "get (replaceStreamURLs p m) ''url'' = Some (JStr p)"
  by (simp add: replaceStreamURLs_def Let_def get_put split: option.split json.split)

text \<open>
  C39. logPlaybackResponse: the line about the answer for a live stream is the same whatever the
  upstream URL of the stream, its headers, the rest of its document, the key, the nonce and the
  time are. So nothing of the signed link, nor of what it seals, can be learnt from the log.
\<close>

theorem live_link_not_logged:
  assumes "serveLiveManifestMiss sg r (vq\<lparr>vr_Source := ''resonite''\<rparr>) ext = Document m"
    and "serveLiveManifestMiss sg' r (vq\<lparr>vr_Source := ''resonite''\<rparr>) ext' = Document m'"
    and "CHR ''?'' \<notin> set (proxyBase r)" and "CHR ''#'' \<notin> set (proxyBase r)"
  shows "logPlaybackResponse source m' = logPlaybackResponse source m"
proof -
  have doc: "logPlaybackResponse source d =
      \<lparr>ll_level = Info, ll_msg = ''returning playback url'',
       ll_attrs = [(''source'', LStr source), (''cache'', LStr ''live''),
         (''url'', LStr (server_redactURLForLog (manifestURL s (proxyBase r) (StreamURL e) (headerMap (Headers e))))),
         (''original_url'', LStr (server_redactURLForLog (vr_URL vq)))]\<rparr>"
    if "serveLiveManifestMiss s r (vq\<lparr>vr_Source := ''resonite''\<rparr>) e = Document d" for s e d
  proof -
    have "d = put ''_cache'' (JStr ''live'') (put ''original_url'' (JStr (vr_URL vq))
        (replaceStreamURLs (manifestURL s (proxyBase r) (StreamURL e) (headerMap (Headers e))) (Metadata e)))"
      using that by (simp add: serveLiveManifestMiss_def writeVideoResponse_def Let_def)
    then show ?thesis
      by (simp add: logPlaybackResponse_def field_or_empty_def stringField_def get_put replaced_url text_of_def)
  qed
  have "CHR ''?'' \<notin> set (proxyBase r @ ''/hls/manifest'')" "CHR ''#'' \<notin> set (proxyBase r @ ''/hls/manifest'')"
    using assms(3,4) by simp_all
  from redacted_query [OF this token_query_plain token_query_plain]
  have "server_redactURLForLog (manifestURL s (proxyBase r) u h) = server_redactURLForLog (manifestURL s' (proxyBase r) u' h')"
    for s s' u u' h h' by (simp add: manifestURL_def)
  then show ?thesis unfolding doc [OF assms(1)] doc [OF assms(2)] by simp
qed

theorem live_link_not_logged_witness:
  "\<exists>m m'. serveLiveManifestMiss \<lparr>sg_key = [1], sg_nonce = [2], sg_now = 0\<rparr>
      \<lparr>rq_method = ''GET'', rq_scheme = ''http'', rq_host = ''h'', rq_path = ''/'', rq_rawQuery = '''', rq_header = []\<rparr>
      \<lparr>vr_URL = ''http://a/v'', vr_AVPro = True, vr_Source = ''resonite''\<rparr>
      \<lparr>Metadata = [], StreamURL = ''http://s/1'', StreamEndpoint = EndpointHLS, IsLive = True, Transcode = False, Headers = []\<rparr>
        = Document m \<and>
    serveLiveManifestMiss \<lparr>sg_key = [3], sg_nonce = [4], sg_now = 5\<rparr>
      \<lparr>rq_method = ''GET'', rq_scheme = ''http'', rq_host = ''h'', rq_path = ''/'', rq_rawQuery = '''', rq_header = []\<rparr>
      \<lparr>vr_URL = ''http://a/v'', vr_AVPro = True, vr_Source = ''resonite''\<rparr>
      \<lparr>Metadata = [], StreamURL = ''http://s/2?k=secret'', StreamEndpoint = EndpointHLS, IsLive = True, Transcode = False, Headers = []\<rparr>
        = Document m' \<and>
    logPlaybackResponse ''resonite'' m' = logPlaybackResponse ''resonite'' m"
proof -
  let ?r = "\<lparr>rq_method = ''GET'', rq_scheme = ''http'', rq_host = ''h'', rq_path = ''/'', rq_rawQuery = '''', rq_header = []\<rparr>"
  have "proxyBase ?r = ''http://h''" by code_simp
  then have base: "CHR ''?'' \<notin> set (proxyBase ?r)" "CHR ''#'' \<notin> set (proxyBase ?r)" by simp_all
  let ?vq = "\<lparr>vr_URL = ''http://a/v'', vr_AVPro = True, vr_Source = ''vrchat''\<rparr>"
  have vq: "?vq\<lparr>vr_Source := ''resonite''\<rparr> = \<lparr>vr_URL = ''http://a/v'', vr_AVPro = True, vr_Source = ''resonite''\<rparr>" by simp
  have doc: "\<exists>m. serveLiveManifestMiss sg ?r (?vq\<lparr>vr_Source := ''resonite''\<rparr>) e = Document m" for sg e
    by (simp add: serveLiveManifestMiss_def writeVideoResponse_def Let_def)
  obtain m where m: "serveLiveManifestMiss \<lparr>sg_key = [1], sg_nonce = [2], sg_now = 0\<rparr> ?r (?vq\<lparr>vr_Source := ''resonite''\<rparr>)
      \<lparr>Metadata = [], StreamURL = ''http://s/1'', StreamEndpoint = EndpointHLS, IsLive = True, Transcode = False, Headers = []\<rparr>
      = Document m" using doc by blast
  obtain m' where m': "serveLiveManifestMiss \<lparr>sg_key = [3], sg_nonce = [4], sg_now = 5\<rparr> ?r (?vq\<lparr>vr_Source := ''resonite''\<rparr>)
      \<lparr>Metadata = [], StreamURL = ''http://s/2?k=secret'', StreamEndpoint = EndpointHLS, IsLive = True, Transcode = False, Headers = []\<rparr>
      = Document m'" using doc by blast
  from live_link_not_logged [OF m m' base] m m' show ?thesis unfolding vq by blast
qed

end
