(* ===== verification/Spec2Isabelle.thy ===== *)
theory Spec2Isabelle
  imports Serve_Sparse Tail_Reader Serve_Content Sequential_Runs Fetch_Slots Process_Groups Upstream_Client Server_Log
begin

text \<open>
  A verification development for vrc-video-proxy, a Go program that downloads, caches and serves
  videos for the players of a game. It has two binaries: the server (src/server/) and a wrapper
  (src/wrapper/) that the game runs in the place of yt-dlp and that asks the server.

  \<^bold>\<open>How the parts work together.\<close> The wrapper sends the address of a video to /api/getvideo. The
  handler derives an id from it. If the cache directory has the file of the id, the answer is its
  address under /video/. Otherwise yt-dlp and, for progressive streams, ffprobe tell what to serve,
  and the answer is an address under /live/, for which a download job has been registered, or, for a live
  stream, a signed link to the manifest proxy. A job probes the upstream and then runs in one of
  three ways: sparse (range requests by one sequential filler and by goroutines for seeks, into a file
  with a set of the present ranges), sequential, or through ffmpeg; then it moves its file into the cache,
  which evicts the oldest. Clients of a job read its file while it grows. The manifest proxy rewrites HLS
  playlists, and DASH manifests into such, so that every link leads back to it with the upstream URL in an
  encrypted token; each segment is fetched once for all who wait for it.

  \<^bold>\<open>The theories, from the bottom up.\<close>

  \<^item> Prelude (64-bit arithmetic, errors, ranges) and Interfaces (the locales of machines with an invariant
    or a rank, and of codecs).
  \<^item> The Go library as far as the program computes with it: Go_Strings (strings, strconv), Go_Url
    (net/url), Go_Float (float64, durations), Go_Json (encoding/json), Sha256, Aes_Gcm. They are
    definitions, not assumptions; none stands for code that could not be read.
  \<^item> server/sparse.go: Interval_Set (intervalSet, as a list of intervals; its locale range_set is the contract of a
    set of offsets), Sparse_File (SparseFile, a record with the bytes on disk, the present and the
    in-flight ranges).
  \<^item> server/jobs.go: Fill_Jobs (runSparse, requestFillAt, fillRange), Tail_Reader (copyTee, tailReader),
    Sequential_Runs (runSequential, runRemux, with serveLive of serve.go and the start of ffmpeg),
    Job_Registry (startJob, getJob, run, finishJob, with liveHandler of handler.go), Upstream_Guard
    (guardUpstreamURL), Http_Range (httpFetchRange, httpProbe, and parseSingleRange of serve.go).
  \<^item> server/serve.go: Serve_Sparse (serveSparse), Serve_Content (serveCachedFile with
    http.ServeContent; also writeSegment of hls.go).
  \<^item> server/cache.go and cachekeys.go: Disk_Cache. server/token.go: Token. server/config.go and logger.go:
    Config, Log_Level. server/ffmpeg.go: Ffmpeg. server/ffprobe.go: Ffprobe. server/extractor.go and yt-dlp.go:
    Extractor. server/dash.go: Dash. server/hls.go: Hls_Playlist (the rewriting), Hls (tokens, requests,
    segments), Fetch_Slots (the semaphore of their fetches). server/main.go and dependencies.go: Lifecycle;
    process_unix.go and process_windows.go: Process_Groups; httpclient.go: Upstream_Client (with the proxy of
    main.go).
  \<^item> server/handler.go: Handlers (what a request starts and is answered), Server_Wiring (NewServer, the
    routes, the access log). src/wrapper/: Wrapper.
  \<^item> server/logging.go and the loggers in jobs.go, serve.go and handler.go: Float_Accuracy (the error of
    float64 arithmetic), Throughput (rates, percentages, lines), Server_Log (the line about an answer).
  \<^item> This theory: the properties of several components at once.

  \<^bold>\<open>How state and operations correspond.\<close> A struct is a record, an operation a function of
  the state, of its arguments and of what the calls it makes to the operating system, the network, the clock or
  another process give, and a Go error an element of go_error in a sum or an option, with its text only where
  the code builds on it. An int64 is an int that every sum and difference brings back into range (add64, sub64).
  A Go string and a byte slice of text is the list of its bytes as char, file contents are lists or functions of
  8 word. A Go map is an association list where its order can show, a function otherwise. Goroutines are
  interleaved: what one does under a mutex or as one system call is one step of an inductive relation
  (fill_step, tail_step, serve_step, reg_step, live_reach, seg_step, slot_step, life_step), and the reachable
  states of these relations are what the properties speak about.

  \<^bold>\<open>What the lemmas show.\<close> Invariants: no two fills of a file overlap and at most three
  connections are open (Fill_Jobs), at most one job per id (Job_Registry), at most one fetch per segment (Hls),
  at most six fetches at once and no slot lost (Fetch_Slots). Refinement: the interval list is a set of offsets,
  and reserve hands out exactly the free ones. Delivery: whatever the interleaving, a client receives the
  upstream's bytes in order and, when its reply ends regularly, all of them (Serve_Sparse, Tail_Reader,
  Sequential_Runs), and a live and a cached video answer a range alike (Serve_Content); here the two are joined:
  what was sent during the download is what is sent after it. Round trips: tokens, proxied links, request and
  range headers, queries between wrapper and server. Safety: tokens are authentic, ids are file names, the guard
  decides IPv4 literals, no answer names a URL but this server's, the log does not depend on a signed link
  (Server_Log), the configured proxy is used for all (Upstream_Client), the game is gone after stopProcess
  (Process_Groups). Bounds: the figures in the log are as exact as float64 allows (Throughput). Termination: the
  loops of reserve, of the start-up wait and of the scanners, and the exit of the main function. Where the code
  falls short of its intent, a theorem shows how: an upstream that ignores a range (Fill_Jobs), a read error
  that is retried for ever (serve_spins_on_read_error), a file of the largest size (reserve_can_diverge), cut
  segments (segment_truncated), a video larger than the cache (oversized_video_flushes_cache), tokens with line
  feeds (token_malleable), children of the game that stay (child_survives), a blank proxy flag
  (blank_proxy_reaches_ytdlp).

  \<^bold>\<open>Interfaces.\<close> range_set (the client lemmas of the gap search; interpreted by the interval
  list), lru_order (the sort of the eviction), aead (AES-GCM as a sealing), safe_machine (the fills, the
  registry, the tail reader, bytes once stored), ranked_machine (the life of the server, the slots of the
  fetches), codec and codec_chain (decimal numbers, base64, query strings and pairs, tokens, payloads and the
  links made of them).

  \<^bold>\<open>Bounds and fuel.\<close> parse_json runs parse_value with 2 n + 2 for a text of n bytes: each turn takes a byte or starts a
  value, so it never runs out. duration_loop gets as much as there are bytes and takes at least one in each turn. The
  chunk loop of reserve is a partial function whose None is a loop that does not end, as it does for a file
  of the largest int64 size; all other loops are total. Sizes are assumed to leave room for one chunk below the largest int64
  where a property needs it, as its hypotheses say.

  \<^bold>\<open>Assumptions.\<close> What is not in src/ is an argument: yt-dlp, ffmpeg and ffprobe (their output and exit), the DNS
  resolver, upstream servers (a 206 carries the requested range, a 200 the whole body), the XML
  reader of dash-mpd (the decoded manifest), the LRU library of the segment cache (cache_law: a lookup gives what was
  stored under the key), the random bytes of keys and nonces. The AES block cipher and SHA-256 are computed;
  that a token cannot be forged without the key is not a theorem here, only that what is accepted is a sealing
  under it.

  \<^bold>\<open>Not modelled.\<close> memcache.go: its four calls of an LRU library stand as arguments in Hls.
  Write deadlines, conditional requests and the time stamps of http.ServeContent, the graceful end of
  http.Server (shutdownServer), the location of the mux's redirects, the place and the opening of the wrapper's
  debug log and the handlers derived from its logger, the JSON encoder of the document for Resonite, the usage
  text of the flags and the text of a log record. Slices of a decoded report that is read over a longer one in
  the same document (a key named three times) are outside of put_slice.
\<close>

section \<open>From the wrapper to the player\<close>

text \<open>What \<open>getVideoHandler\<close> answers to a request that asks for plain text.\<close>

lemma plain_answer:
  assumes "rq_method r = ''GET''" and "rq_host r \<noteq> ''''"
    and "parseVideoRequest (rq_rawQuery r) = Inr vq" and "vr_Source vq \<noteq> ''resonite''"
    and "getVideoHandler now sg extract r sv = (sv', rep)" and "i = cacheID (vr_URL vq)"
  shows "(\<exists>e. extract (vr_URL vq) = Inl e \<and> rep = Refused 500 e \<and> sv' = sv) \<or>
    (\<exists>path. rep = PlainText (proxyBase r @ path) \<and> route path = To videoFile \<and>
       cacheIDFromPath path ''/video/'' = Some i \<and> Has (sv_cache sv) i) \<or>
    (\<exists>path. rep = PlainText (proxyBase r @ path) \<and> route path = To live \<and>
       cacheIDFromPath path ''/live/'' = Some i \<and> getJob (sv_reg sv') i \<noteq> None) \<or>
    (\<exists>path q ext. rep = PlainText (proxyBase r @ path @ ''?'' @ q) \<and> route path = To hlsManifest \<and>
       extract (vr_URL vq) = Inr ext \<and> IsLive ext \<and>
       q = ''t='' @ QueryEscape (encodeToken sg (StreamURL ext) (headerMap (Headers ext))))"
proof -
  have id: "cacheIDFromPath (pre @ i @ ''.mp4'') pre = Some i" for pre
    using cacheID_valid assms(6) by (simp add: cacheIDFromPath_def)
  note routes = route_name [OF cacheID_valid, of "vr_URL vq", folded assms(6)]
  note spec = getvideo_spec [OF assms(1,3,2,6,5)]
  note plain = plain_reply [OF assms(5,3,4)]
  consider (hit) "Has (sv_cache sv) i"
    | (failed) e where "\<not> Has (sv_cache sv) i" "extract (vr_URL vq) = Inl e"
    | (manifest) ext where "\<not> Has (sv_cache sv) i" "extract (vr_URL vq) = Inr ext" "miss_source ext = None"
    | (download) ext src where "\<not> Has (sv_cache sv) i" "extract (vr_URL vq) = Inr ext" "miss_source ext = Some src"
    by (metis sum.exhaust option.exhaust)
  then show ?thesis
  proof cases
    case hit
    with spec plain have "rep = PlainText (proxyBase r @ ''/video/'' @ i @ ''.mp4'')" by simp
    with hit id [of "''/video/''"] routes(2) show ?thesis by blast
  next
    case failed
    with spec show ?thesis by simp
  next
    case (manifest ext)
    with spec plain
    have "rep = PlainText (manifestURL sg (proxyBase r) (StreamURL ext) (headerMap (Headers ext)))" by simp
    then have "rep = PlainText (proxyBase r @ ''/hls/manifest'' @ ''?'' @ ''t='' @
        QueryEscape (encodeToken sg (StreamURL ext) (headerMap (Headers ext))))" by (simp add: manifestURL_def)
    moreover have "route ''/hls/manifest'' = To hlsManifest" by code_simp
    moreover have "IsLive ext" using manifest(3) by (simp add: miss_source_def split: if_splits)
    ultimately show ?thesis using manifest(2) by blast
  next
    case (download ext src)
    with spec plain
    have "rep = PlainText (proxyBase r @ ''/live/'' @ i @ ''.mp4'')" and "getJob (sv_reg sv') i \<noteq> None" by auto
    with id [of "''/live/''"] routes(1) show ?thesis by blast
  qed
qed



section \<open>The same video while it is downloaded and after\<close>

text \<open>The bytes of a body, where \<open>data\<close> is the content of the file.\<close>

fun sent_bytes :: "(int \<Rightarrow> byte) \<Rightarrow> body_part list \<Rightarrow> byte list" where
  "sent_bytes data [] = []"
| "sent_bytes data (Text t # ps) = map of_char t @ sent_bytes data ps"
| "sent_bytes data (Stretch s n # ps) = map (\<lambda>k. data (s + int k)) [0..<nat n] @ sent_bytes data ps"

lemma fill_steps_keep:
  assumes "(fill_step U honest)\<^sup>*\<^sup>* s t" and "fill_reach U honest s" and "fs_files s j = Some f"
  shows "fill_reach U honest t \<and> (\<exists>g. fs_files t j = Some g \<and> sf_size g = sf_size f)"
  using assms
proof (induction rule: rtranclp_induct)
  case (step u t)
  then obtain g where g: "fill_reach U honest u" "fs_files u j = Some g" "sf_size g = sf_size f" by blast
  from fill_step_keeps [OF fill_reach_inv [OF g(1)] step.hyps(2) g(2)] g step.hyps(2)
  show ?case by (auto intro: fill_next)
qed blast

lemma serve_steps_fill:
  assumes "(serve_step U honest)\<^sup>*\<^sup>* (s, c) (t, d)"
  shows "(fill_step U honest)\<^sup>*\<^sup>* s t"
  using assms
proof (induction rule: rtranclp_induct2)
  case (step t d u e)
  have "t = u \<or> fill_step U honest t u"
    using step.hyps(2)
    by (cases rule: serve_step.cases [of U honest "(t, d)" "(u, e)"])
      (auto split: option.splits place.splits wait_result.splits if_splits intro: fill_step.seek)
  with step.IH show ?case by auto
qed blast


text \<open>A client asks for two bytes in the middle, and the download goes on to its end.\<close>

definition demo_rest :: "(fill_sys \<times> client) option \<Rightarrow> bool" where
  "demo_rest r =
     (case r of None \<Rightarrow> False
      | Some (s, d) \<Rightarrow> cl_place d = Served \<and>
          (case fill_run demo_up True [Read 0 0, Free 0, Leave 0, Drive 0, Acquire 2, Open 2 206, Read 2 1] s of
             None \<Rightarrow> False
           | Some u \<Rightarrow> (case fs_files u 0 of None \<Rightarrow> False | Some g \<Rightarrow> Sparse_File.complete g)))"

lemma case_SomeE:
  assumes "case x of None \<Rightarrow> False | Some y \<Rightarrow> P y"
  obtains y where "x = Some y" and "P y"
  using assms by (cases x) auto

lemma demo_download:
  "(case fill_run demo_up True [Begin 0 4 2, Drive 0, Acquire 0] init_fill of None \<Rightarrow> False
    | Some t \<Rightarrow>
        (case fs_files t 0 of None \<Rightarrow> False
         | Some f \<Rightarrow> sf_size f = 4 \<and>
             (case serveStart 0 ''GET'' ''bytes=1-2'' (sf_size f) None of None \<Rightarrow> False
              | Some c \<Rightarrow> demo_rest (serve_run demo_up
                  [Inr (calm 0), Inl (Acquire 1), Inl (Open 1 206), Inl (Read 1 1),
                   Inl (Open 0 206), Inl (Read 0 2), Inr (calm 0), Inr (calm 0), Inr (calm 1),
                   Inr (calm 5), Inr (calm 0), Inr (calm 0)] (t, c)))))"
  by code_simp


section \<open>From a playlist to its segments\<close>

text \<open>
  C6. A proxied playlist plays: when \<open>ServeManifest\<close> answers a request for an HLS playlist, each
  line of the playlist that is a URI has become a link of this server, as a line of its own,
  whose path is routed to the manifest or the segment handler and whose query leads, until the
  token runs out and unless the guard refuses it, to the upstream URL that the line means,
  with the headers of the playlist.
\<close>

theorem manifest_links_open:
  assumes "payloadFromRequest (sg_key (e_sign env)) (sg_now (e_sign env)) (e_resolve env) rawQuery = Inr pl"
    and "fetch (e_upstream env) pl = Inr (body, ct)" and "\<not> isMPD body"
    and "ServeManifest env rawQuery = Content ct' out"
    and "newline \<notin> set (e_base env)"
    and "length (sg_nonce (e_sign env)) = nonceSize" and "in_i64 (tokenExpiry (sg_now (e_sign env)) hlsTokenTTL)"
    and "line \<in> set (map dropCR (raw_lines body))" and "TrimSpace line \<noteq> ''''"
    and "\<not> HasPrefix (TrimSpace line) ''#''"
  shows "\<exists>base path q. Parse (pl_URL pl) = Some base \<and>
    e_base env @ path @ ''?'' @ q \<in> set (split_on newline out) \<and>
    route path = To (if isMaster body then hlsManifest else hlsSegment) \<and>
    (payload_ok (resolveRef base (TrimSpace line)) (pl_Headers pl) \<longrightarrow>
       payloadFromRequest (sg_key (e_sign env)) now resolve q =
         (if tokenExpiry (sg_now (e_sign env)) hlsTokenTTL \<noteq> 0 \<and>
             unixSeconds now > unixSeconds (sg_now (e_sign env) + hlsTokenTTL)
          then Inl (HttpError 403 ''invalid token'')
          else if guardUpstreamURL resolve (resolveRef base (TrimSpace line)) \<noteq> None
          then Inl (HttpError 403 ''disallowed upstream'')
          else Inr \<lparr>pl_URL = resolveRef base (TrimSpace line), pl_Headers = sorted_headers (pl_Headers pl)\<rparr>))"
proof -
  have out: "rewriteHLSPlaylist body (pl_URL pl) (build_url env pl) = Inr out"
    using assms(1-4) by (auto simp: ServeManifest_def split: if_splits sum.splits)
  have clean: "newline \<notin> set (build_url env pl u k)" for u k
    using assms(5) QueryEscape_separators [of newline]
    by (cases k) (auto simp: build_url_def manifestURL_def segmentURL_def newline_def)
  obtain base where base: "Parse (pl_URL pl) = Some base"
    and lines: "split_on newline out =
      map (rewriteLine (isMaster body) base (build_url env pl)) (map dropCR (raw_lines body)) @ ['''']"
    using rewritten_lines [OF out clean] by blast
  let ?u = "resolveRef base (TrimSpace line)"
  let ?q = "''t='' @ QueryEscape (encodeToken (e_sign env) ?u (pl_Headers pl))"
  let ?path = "if isMaster body then ''/hls/manifest'' else ''/hls/segment''"
  have "rewriteLine (isMaster body) base (build_url env pl) line = e_base env @ ?path @ ''?'' @ ?q"
    using assms(9,10) by (simp add: rewriteLine_def build_url_def manifestURL_def segmentURL_def Let_def)
  then have "e_base env @ ?path @ ''?'' @ ?q \<in> set (split_on newline out)"
    unfolding lines using assms(8) by (metis Un_iff image_eqI set_append set_map)
  moreover have "route ''/hls/manifest'' = To hlsManifest" "route ''/hls/segment'' = To hlsSegment" by code_simp+
  ultimately show ?thesis
    using base link_opens [OF _ assms(6,7), of ?u "pl_Headers pl" now resolve]
    by (intro exI [of _ base] exI [of _ ?path] exI [of _ ?q]) auto
qed

definition demo_env :: hls_env where
  "demo_env =
     \<lparr>e_sign = \<lparr>sg_key = replicate 32 7, sg_nonce = replicate 12 1, sg_now = 0\<rparr>, e_base = ''http://p'',
      e_resolve = (\<lambda>_. Inr []),
      e_upstream = (\<lambda>_ _. Inr \<lparr>r_status = 200, r_contentType = '''', r_body = ''#EXTM3U'' @ [newline] @ ''a.ts'', r_readError = None\<rparr>),
      e_readMPD = (\<lambda>_. Inl (Msg '''')), e_oob = (\<lambda>_. 0)\<rparr>"

theorem manifest_links_open_witness:
  "\<exists>rawQuery out path q. ServeManifest demo_env rawQuery = Content ''application/vnd.apple.mpegurl'' out \<and>
     ''http://p'' @ path @ ''?'' @ q \<in> set (split_on newline out) \<and> route path = To hlsSegment \<and>
     payloadFromRequest (sg_key (e_sign demo_env)) 0 (\<lambda>_. Inr []) q =
       Inr \<lparr>pl_URL = ''http://93.184.216.34/v/a.ts'', pl_Headers = []\<rparr>"
proof -
  let ?u = "''http://93.184.216.34/v/x.m3u8''" and ?body = "''#EXTM3U'' @ [newline] @ ''a.ts''"
  let ?q = "''t='' @ QueryEscape (encodeToken (e_sign demo_env) ?u [])"
  have sg: "length (sg_nonce (e_sign demo_env)) = nonceSize" "in_i64 (tokenExpiry (sg_now (e_sign demo_env)) hlsTokenTTL)"
    "newline \<notin> set (e_base demo_env)" "sg_now (e_sign demo_env) = 0" "0 \<le> unixSeconds hlsTokenTTL"
    by (simp_all add: demo_env_def nonceSize_def tokenExpiry_def unixSeconds_def hlsTokenTTL_def Second_def i64_bounds newline_def)
  have host: "map_option (\<lambda>u. (u_scheme u, Hostname u)) (Parse ?u) = Some (''http'', dotted 93 184 216 34)"
    "map_option (\<lambda>u. (u_scheme u, Hostname u)) (Parse ''http://93.184.216.34/v/a.ts'') = Some (''http'', dotted 93 184 216 34)"
    by code_simp+
  have "\<not> isDisallowedIP (V4 (ipv4_word [93, 184, 216, 34]))" by (simp add: disallowed_ipv4)
  then have guard: "guardUpstreamURL (\<lambda>_. Inr []) ?u = None" "guardUpstreamURL (\<lambda>_. Inr []) ''http://93.184.216.34/v/a.ts'' = None"
    using host guard_dotted by fastforce+
  have ok: "payload_ok ?u []" "payload_ok ''http://93.184.216.34/v/a.ts'' []"
    by (simp_all add: payload_ok_def valid_utf8_ascii code_of_def)
  have pl: "payloadFromRequest (sg_key (e_sign demo_env)) (sg_now (e_sign demo_env)) (e_resolve demo_env) ?q =
      Inr \<lparr>pl_URL = ?u, pl_Headers = []\<rparr>"
    using link_opens [OF ok(1) sg(1,2), of 0 "\<lambda>_. Inr []"] sg guard
    by (simp add: sorted_headers_def unixSeconds_def demo_env_def)
  have "map_option u_path (Parse ?u) = Some ''/v/x.m3u8''" by code_simp
  then obtain base where base: "Parse ?u = Some base" by auto
  have "map_option (\<lambda>b. resolveRef b ''a.ts'') (Parse ?u) = Some ''http://93.184.216.34/v/a.ts''" by code_simp
  with base have ref: "resolveRef base ''a.ts'' = ''http://93.184.216.34/v/a.ts''" by simp
  have f: "fetch (e_upstream demo_env) \<lparr>pl_URL = ?u, pl_Headers = []\<rparr> = Inr (?body, '''')"
    using base by (simp add: fetch_def demo_env_def maxManifestSize_def)
  have lines: "map dropCR (raw_lines ?body) = [''#EXTM3U'', ''a.ts'']" "TrimSpace ''a.ts'' = ''a.ts''" "\<not> isMPD ?body"
    "\<not> isMaster ?body" by code_simp+
  have "list_ex (\<lambda>l. int (length l) \<ge> maxManifestSize) (raw_lines ?body) = False" by code_simp
  then obtain out where "rewriteHLSPlaylist ?body ?u (build_url demo_env \<lparr>pl_URL = ?u, pl_Headers = []\<rparr>) = Inr out"
    using base by (auto simp: rewriteHLSPlaylist_def scan_lines_def)
  then have served: "ServeManifest demo_env ?q = Content ''application/vnd.apple.mpegurl'' out"
    unfolding ServeManifest_def pl sum.case f prod.case using lines(3) by (simp add: maxManifestSize_def)
  have line: "''a.ts'' \<in> set (map dropCR (raw_lines ?body))" "TrimSpace ''a.ts'' \<noteq> ''''"
    "\<not> HasPrefix (TrimSpace ''a.ts'') ''#''"
    unfolding lines by (simp_all add: HasPrefix_def)
  have "e_base demo_env = ''http://p''" by (simp add: demo_env_def)
  with manifest_links_open [OF pl f lines(3) served sg(3,1,2) line, of 0 "\<lambda>_. Inr []"]
  obtain path q where "''http://p'' @ path @ ''?'' @ q \<in> set (split_on newline out)" "route path = To hlsSegment"
    "payloadFromRequest (sg_key (e_sign demo_env)) 0 (\<lambda>_. Inr []) q =
       Inr \<lparr>pl_URL = ''http://93.184.216.34/v/a.ts'', pl_Headers = []\<rparr>"
    using base ref ok(2) guard(2) lines(2,4) sg(4,5) by (auto simp: sorted_headers_def unixSeconds_def)
  with served show ?thesis by blast
qed

end
